(* ===== verification/Prelude.thy ===== *)
theory Prelude
  imports Main "HOL-Library.Word"
begin

text \<open>
  What every component shares: the machine types of the C++ sources, the results of
  operations that may throw, and the reference function for cutting a file into chunks.

  \<^item> \<open>char\<close> buffers are lists of 8-bit words, \<open>std::size_t\<close> is a 64-bit word and
    \<open>uint32_t\<close> a 32-bit word; arithmetic on them wraps as it does in the code.
  \<^item> \<open>long long\<close>, \<open>int\<close> and clock counts are \<open>int\<close>: signed overflow has no
    meaning in C++ and no theorem relies on one.
  \<^item> An operation that may throw returns a sum with the exception on the left.
\<close>

section \<open>Machine types\<close>

type_synonym byte = "8 word"
type_synonym bytes = "byte list"
type_synonym u32 = "32 word"
type_synonym u64 = "64 word"

datatype exn =
    Runtime_error string
  | Division_trap \<comment> \<open>integer division by zero, which stops the process\<close>

text \<open>
  Collections: \<open>size_simps\<close> reads \<open>size_t\<close> arithmetic as arithmetic on naturals,
  \<open>inv_intros\<close> holds one preservation lemma per operation.
\<close>

named_theorems size_simps
named_theorems inv_intros

section \<open>Lengths as size_t\<close>

text \<open>\<open>sz xs\<close> is what \<open>xs.size()\<close> returns; \<open>fits xs\<close> says no truncation happened.\<close>

definition sz :: "'a list \<Rightarrow> u64" where
  "sz xs = of_nat (length xs)"

definition fits :: "'a list \<Rightarrow> bool" where
  "fits xs \<longleftrightarrow> length xs < 2 ^ 64"

lemma unat_of_nat_u64 [size_simps]: "n < 2 ^ 64 \<Longrightarrow> unat (of_nat n :: u64) = n"
  by (simp add: unat_of_nat take_bit_nat_eq_self)

lemma unat_sz [size_simps]: "fits xs \<Longrightarrow> unat (sz xs) = length xs"
  by (simp add: sz_def fits_def unat_of_nat_u64)

lemma sz_Nil [simp]: "sz [] = 0"
  by (simp add: sz_def)

lemma sz_append: "sz (xs @ ys) = sz xs + sz ys"
  by (simp add: sz_def)

lemma sz_rev [simp]: "sz (rev xs) = sz xs"
  by (simp add: sz_def)

lemma fits_Nil [simp]: "fits []"
  by (simp add: fits_def)

lemma fits_take [simp, intro]: "fits xs \<Longrightarrow> fits (take n xs)"
  by (auto simp: fits_def)

lemma fits_drop [simp, intro]: "fits xs \<Longrightarrow> fits (drop n xs)"
  by (auto simp: fits_def)

lemma sz_eq_0_iff: "fits xs \<Longrightarrow> sz xs = 0 \<longleftrightarrow> xs = []"
  by (metis unat_sz length_0_conv unat_eq_zero)

lemma unat_add_u64 [size_simps]:
  "unat a + unat b < 2 ^ 64 \<Longrightarrow> unat (a + b :: u64) = unat a + unat b"
  by (simp add: unat_word_ariths)

lemma unat_u64_less [simp]: "unat (w :: u64) < 2 ^ 64"
  using unsigned_less [of w] by simp

lemma unat_ucast_u32 [simp]: "unat (ucast (n :: u32) :: u64) = unat n"
proof -
  have "unat n < 2 ^ 32" using unsigned_less [of n] by simp
  then have "unat n < 2 ^ 64" by simp
  then show ?thesis by (simp add: unsigned_ucast_eq take_bit_nat_eq_self)
qed

lemma unat_Suc_u64: "unat (a :: u64) + 1 < 2 ^ 64 \<Longrightarrow> unat (a + 1) = Suc (unat a)"
  by (simp add: unat_word_ariths)

text \<open>Integer division of the language, which truncates towards zero.\<close>

definition tdiv :: "int \<Rightarrow> int \<Rightarrow> int" where
  "tdiv a b = sgn a * sgn b * (\<bar>a\<bar> div \<bar>b\<bar>)"

lemma tdiv_nonneg: "0 \<le> a \<Longrightarrow> 0 < b \<Longrightarrow> tdiv a b = a div b"
  by (cases "a = 0") (simp_all add: tdiv_def)

section \<open>The reference function: a file cut into chunks\<close>

function chunks_of :: "nat \<Rightarrow> 'a list \<Rightarrow> 'a list list" where
  "chunks_of n xs = (if n = 0 \<or> xs = [] then [] else take n xs # chunks_of n (drop n xs))"
  by pat_completeness auto
termination
  by (relation "measure (\<lambda>(n, xs). length xs)") auto

declare chunks_of.simps [simp del]

lemma chunks_of_Nil [simp]: "chunks_of n [] = []"
  by (simp add: chunks_of.simps)

lemma chunks_of_step:
  "0 < n \<Longrightarrow> xs \<noteq> [] \<Longrightarrow> chunks_of n xs = take n xs # chunks_of n (drop n xs)"
  by (simp add: chunks_of.simps [of n xs])

lemma concat_chunks_of: "0 < n \<Longrightarrow> concat (chunks_of n xs) = xs"
proof (induction n xs rule: chunks_of.induct)
  case (1 n xs)
  then show ?case by (cases "xs = []") (auto simp: chunks_of_step)
qed

lemma chunks_of_lengths: "c \<in> set (chunks_of n xs) \<Longrightarrow> c \<noteq> [] \<and> length c \<le> n"
proof (induction n xs rule: chunks_of.induct)
  case (1 n xs)
  show ?case
  proof (cases "n = 0 \<or> xs = []")
    case True
    with "1.prems" show ?thesis by (simp add: chunks_of.simps [of n xs])
  next
    case False
    with "1.prems" have "c = take n xs \<or> c \<in> set (chunks_of n (drop n xs))"
      by (simp add: chunks_of_step)
    with False "1.IH" show ?thesis by auto
  qed
qed

lemma length_chunks_of: "0 < n \<Longrightarrow> length (chunks_of n xs) = (length xs + n - 1) div n"
proof (induction n xs rule: chunks_of.induct)
  case (1 n xs)
  show ?case
  proof (cases "xs = []")
    case True
    with "1.prems" show ?thesis by simp
  next
    case False
    with 1 have len: "length (chunks_of n xs) = Suc ((length (drop n xs) + n - 1) div n)"
      by (simp add: chunks_of_step)
    show ?thesis
    proof (cases "length xs \<le> n")
      case True
      from False have "0 < length xs" by simp
      with True "1.prems" have "n * 1 \<le> length xs + n - 1" "length xs + n - 1 < n * Suc 1"
        by arith+
      then have "(length xs + n - 1) div n = 1"
        by (rule div_nat_eqI)
      with True "1.prems" show ?thesis by (simp add: len)
    next
      case False
      then have "length xs + n - 1 = (length xs - n + n - 1) + n" by simp
      with "1.prems" have "(length xs + n - 1) div n = Suc ((length xs - n + n - 1) div n)"
        by (metis div_add_self2 Suc_eq_plus1 less_not_refl)
      with len show ?thesis by simp
    qed
  qed
qed

lemma length_chunks_of_le: "length (chunks_of n xs) \<le> length xs"
proof (induction n xs rule: chunks_of.induct)
  case (1 n xs)
  show ?case
  proof (cases "n = 0 \<or> xs = []")
    case True
    then show ?thesis by (auto simp: chunks_of.simps [of n xs])
  next
    case False
    then have "0 < length xs" "0 < n" by simp_all
    then have "length xs - n < length xs" by linarith
    moreover have "length (chunks_of n (drop n xs)) \<le> length xs - n" using 1 False by simp
    ultimately have "length (chunks_of n (drop n xs)) < length xs" by (rule order_le_less_trans [rotated])
    with False show ?thesis by (simp add: chunks_of_step)
  qed
qed

lemma chunks_of_eq_Nil_iff: "0 < n \<Longrightarrow> chunks_of n xs = [] \<longleftrightarrow> xs = []"
  by (cases "xs = []") (auto simp: chunks_of_step)

section \<open>Vectors\<close>

text \<open>\<open>std::vector<char>::resize\<close>: keeps the prefix and fills new places with zero bytes.\<close>

definition resize_bytes :: "bytes \<Rightarrow> nat \<Rightarrow> bytes" where
  "resize_bytes buf n = take n buf @ replicate (n - length buf) 0"

lemma length_resize_bytes [simp]: "length (resize_bytes buf n) = n"
  by (simp add: resize_bytes_def)

text \<open>A read of \<open>data\<close> into the beginning of an existing buffer.\<close>

definition overwrite :: "bytes \<Rightarrow> bytes \<Rightarrow> bytes" where
  "overwrite buf data = data @ drop (length data) buf"

lemma overwrite_full [simp]: "length data = length buf \<Longrightarrow> overwrite buf data = data"
  by (simp add: overwrite_def)

lemma length_overwrite [simp]:
  "length data \<le> length buf \<Longrightarrow> length (overwrite buf data) = length buf"
  by (simp add: overwrite_def)

section \<open>Reversal in place\<close>

text \<open>\<open>std::reverse\<close> as the exchanges it makes: ends first, then towards the middle.\<close>

function std_reverse_from :: "nat \<Rightarrow> 'a list \<Rightarrow> 'a list" where
  "std_reverse_from i xs =
     (let j = length xs - 1 - i
      in if i < j then std_reverse_from (i + 1) (xs[i := xs ! j, j := xs ! i]) else xs)"
  by pat_completeness auto
termination
  by (relation "measure (\<lambda>(i, xs). length xs - i)") auto

declare std_reverse_from.simps [simp del]

definition std_reverse :: "'a list \<Rightarrow> 'a list" where
  "std_reverse xs = std_reverse_from 0 xs"

lemma std_reverse_from_middle:
  "std_reverse_from (length as) (as @ ms @ bs) = as @ rev ms @ bs" if "length as = length bs"
  using that
proof (induction "length ms" arbitrary: as ms bs rule: less_induct)
  case less
  let ?xs = "as @ ms @ bs"
  have j: "length ?xs - 1 - length as = length as + length ms - 1" using less.prems by simp
  show ?case
  proof (cases "1 < length ms")
    case False
    then have "length ms = 0 \<or> length ms = 1" by linarith
    then have "rev ms = ms" by (auto simp: length_Suc_conv)
    moreover have "\<not> length as < length ?xs - 1 - length as" using False j by linarith
    ultimately show ?thesis by (simp add: std_reverse_from.simps [of "length as" ?xs] Let_def)
  next
    case True
    obtain x ms' where x: "ms = x # ms'" using True by (cases ms) auto
    with True have "ms' \<noteq> []" by auto
    then obtain ys y where y: "ms' = ys @ [y]" by (cases ms' rule: rev_cases) auto
    have xs: "?xs = as @ x # ys @ y # bs" by (simp add: x y)
    have j': "length ?xs - 1 - length as = length as + Suc (length ys)"
      using j by (simp add: x y)
    have "?xs[length as := ?xs ! (length as + Suc (length ys)),
              length as + Suc (length ys) := ?xs ! length as] = (as @ [y]) @ ys @ (x # bs)"
      by (simp add: xs list_update_append nth_append)
    then have "std_reverse_from (length as) ?xs =
               std_reverse_from (length (as @ [y])) ((as @ [y]) @ ys @ (x # bs))"
      using j' by (simp add: std_reverse_from.simps [of "length as" ?xs] Let_def)
    also have "\<dots> = (as @ [y]) @ rev ys @ (x # bs)"
      using less.prems by (intro less.hyps) (auto simp: x y)
    finally show ?thesis by (simp add: x y)
  qed
qed

lemma std_reverse_rev [simp]: "std_reverse xs = rev xs"
  using std_reverse_from_middle [of "[]" "[]" xs] by (simp add: std_reverse_def)

end
