(* ===== verification/Tcp_Messaging.thy ===== *)
theory Tcp_Messaging
  imports Prelude
begin

unbundle bit_operations_syntax

text \<open>
  Framing and reversal for the TCP benchmark: \<open>tcp_messaging\<close>
  (common/include/tcp_messaging.hpp) and \<open>utils\<close> (common/include/reversal_utils.hpp) of
  GO++PROJECT/src/cpp_tcp_benchmark. A message is a four-byte length in network byte order
  followed by the payload.

  The host is little-endian: \<open>memcpy\<close> of an integer yields its bytes from the lowest up,
  and \<open>htonl\<close> exchanges them.
\<close>

section \<open>Reversal\<close>

definition reverse_vector_content :: "bytes \<Rightarrow> bytes" where
  "reverse_vector_content data = std_reverse data"

definition get_reversed_vector_content :: "bytes \<Rightarrow> bytes" where
  "get_reversed_vector_content data = (let reversed_data = data in std_reverse reversed_data)"

lemma reversal_rev [simp]:
  "reverse_vector_content data = rev data" "get_reversed_vector_content data = rev data"
  by (simp_all add: reverse_vector_content_def get_reversed_vector_content_def)

section \<open>Integers in memory\<close>

definition le_bytes32 :: "u32 \<Rightarrow> bytes" where
  "le_bytes32 n = [ucast n, ucast (drop_bit 8 n), ucast (drop_bit 16 n), ucast (drop_bit 24 n)]"

lemma length_le_bytes32 [simp]: "length (le_bytes32 n) = 4"
  by (simp add: le_bytes32_def)

definition le_word32 :: "bytes \<Rightarrow> u32" where
  "le_word32 bs = foldr (\<lambda>b acc. ucast b OR push_bit 8 acc) bs 0"

definition htonl :: "u32 \<Rightarrow> u32" where
  "htonl n = le_word32 (rev (le_bytes32 n))"

definition ntohl :: "u32 \<Rightarrow> u32" where
  "ntohl n = htonl n"

lemma le_word32_le_bytes32 [simp]: "le_word32 (le_bytes32 n) = n"
proof (rule bit_word_eqI)
  fix i assume "i < LENGTH(32)"
  then consider "i < 8" | "8 \<le> i" "i < 16" | "16 \<le> i" "i < 24" | "24 \<le> i" "i < 32"
    by fastforce
  then show "bit (le_word32 (le_bytes32 n)) i \<longleftrightarrow> bit n i"
    by cases (auto simp: le_word32_def le_bytes32_def bit_simps)
qed

lemma le_bytes32_le_word32:
  assumes "length bs = 4"
  shows "le_bytes32 (le_word32 bs) = bs"
proof -
  obtain a b c d where bs: "bs = [a, b, c, d]"
    using assms by (auto simp: numeral_eq_Suc length_Suc_conv)
  have "ucast (drop_bit 0 (le_word32 bs)) = a" "ucast (drop_bit 8 (le_word32 bs)) = b"
    "ucast (drop_bit 16 (le_word32 bs)) = c" "ucast (drop_bit 24 (le_word32 bs)) = d"
    by (rule bit_word_eqI; auto simp: bs le_word32_def bit_simps dest: bit_imp_le_length)+
  then show ?thesis by (simp add: bs le_bytes32_def)
qed

lemma ntohl_htonl [simp]: "ntohl (htonl n) = n"
  by (simp add: ntohl_def htonl_def le_bytes32_le_word32)

section \<open>Messages\<close>

definition HEADER_SIZE :: nat where
  "HEADER_SIZE = 4"

text \<open>The header written into \<open>header_buffer\<close>, and the buffers handed to the socket.\<close>

definition prepare_message :: "bytes \<Rightarrow> bytes \<times> bytes list" where
  "prepare_message payload =
     (let payload_size_net = htonl (ucast (sz payload));
          header_buffer = le_bytes32 payload_size_net;
          buffers = [header_buffer]
      in (header_buffer, if payload \<noteq> [] then buffers @ [payload] else buffers))"

definition parse_header :: "bytes \<Rightarrow> u32" where
  "parse_header header_buffer = ntohl (le_word32 header_buffer)"

text \<open>What goes over the wire for a payload.\<close>

definition frame :: "bytes \<Rightarrow> bytes" where
  "frame payload = concat (snd (prepare_message payload))"

lemma frame_eq: "frame p = fst (prepare_message p) @ p"
  by (simp add: frame_def prepare_message_def Let_def)

lemma length_header [simp]: "length (fst (prepare_message p)) = 4"
  by (simp add: prepare_message_def Let_def)

lemma length_frame [simp]: "length (frame p) = HEADER_SIZE + length p"
  by (simp add: frame_eq HEADER_SIZE_def)

text \<open>The header carries the length modulo \<open>2 ^ 32\<close>: the code casts \<open>size_t\<close> to \<open>uint32_t\<close>.\<close>

lemma parse_prepared: "unat (parse_header (fst (prepare_message p))) = length p mod 2 ^ 32"
proof -
  have "parse_header (fst (prepare_message p)) = ucast (sz p)"
    by (simp add: parse_header_def prepare_message_def Let_def)
  then show ?thesis
    by (simp add: sz_def unsigned_ucast_eq unat_of_nat take_bit_eq_mod mod_mod_cancel)
qed

section \<open>The interface the two ends rely on\<close>

text \<open>
  A framing splits a byte stream: the header of an encoded payload has a fixed size and
  gives back its length, and the payload follows.
\<close>

locale framing =
  fixes encode :: "bytes \<Rightarrow> bytes"
    and header_size :: nat
    and announced :: "bytes \<Rightarrow> nat"
    and max_payload :: nat
  assumes length_encode: "length (encode p) = header_size + length p"
    and encode_payload: "drop header_size (encode p) = p"
    and announced_encode:
      "length p \<le> max_payload \<Longrightarrow> announced (take header_size (encode p)) = length p"
begin

lemma take_header: "take header_size (encode p @ r) = take header_size (encode p)"
  by (simp add: length_encode)

lemma drop_header: "drop header_size (encode p @ r) = p @ r"
  by (simp add: length_encode encode_payload)

lemma length_stream: "length (encode p @ r) = header_size + length p + length r"
  by (simp add: length_encode)

lemma split_stream:
  assumes "length p \<le> max_payload"
  shows "announced (take header_size (encode p @ r)) = length p"
    and "take (length p) (drop header_size (encode p @ r)) = p"
    and "drop (length p) (drop header_size (encode p @ r)) = r"
  using assms by (simp_all only: take_header drop_header announced_encode) simp_all

lemma encode_inj: "encode p = encode q \<Longrightarrow> p = q"
  by (metis encode_payload)

lemma encode_not_Nil: "0 < header_size \<Longrightarrow> encode p \<noteq> []"
  using length_encode [of p] by auto

end

interpretation tcp: framing frame HEADER_SIZE "\<lambda>h. unat (parse_header h)" "2 ^ 32 - 1"
proof unfold_locales
  show "length (frame p) = HEADER_SIZE + length p" for p by simp
  show "drop HEADER_SIZE (frame p) = p" for p
    by (simp add: frame_eq HEADER_SIZE_def)
  fix p :: bytes assume "length p \<le> 2 ^ 32 - 1"
  then have "length p mod 2 ^ 32 = length p" by simp
  then show "unat (parse_header (take HEADER_SIZE (frame p))) = length p"
    by (simp add: frame_eq HEADER_SIZE_def parse_prepared)
qed

section \<open>Properties\<close>

text \<open>
  C33: framing round trip. A payload of less than four gigabytes, framed by \<open>prepare_message\<close> and
  followed by anything, is recovered from the stream by reading the header, parsing it and
  reading as many bytes as it announces; what follows is left untouched.
\<close>

theorem message_roundtrip:
  assumes "length payload < 2 ^ 32"
  shows "let stream = frame payload @ rest;
             n = unat (parse_header (take HEADER_SIZE stream))
         in n = length payload \<and> take n (drop HEADER_SIZE stream) = payload \<and>
            drop n (drop HEADER_SIZE stream) = rest"
  using tcp.split_stream [of payload rest] assms by (simp add: Let_def)

lemma message_roundtrip_witness:
  "unat (parse_header (take HEADER_SIZE (frame [7, 8, 9] @ [1]))) = 3"
  using message_roundtrip [of "[7, 8, 9]" "[1]"] by (simp add: Let_def)

text \<open>
  The length field is 32 bits wide whatever the payload, so the header announces the length
  modulo \<open>2 ^ 32\<close> in four bytes, highest byte first, and an empty payload is sent as the header alone.
\<close>

theorem header_width:
  "length (fst (prepare_message payload)) = 4 \<and>
   unat (parse_header (fst (prepare_message payload))) = length payload mod 2 ^ 32 \<and>
   length (snd (prepare_message payload)) = (if payload = [] then 1 else 2) \<and>
   rev (fst (prepare_message payload)) = le_bytes32 (ucast (sz payload))"
  using parse_prepared [of payload]
  by (auto simp: prepare_message_def htonl_def le_bytes32_le_word32 Let_def)

text \<open>
  The exchange loop of \<open>std::reverse\<close>, as the in-place and as the copying function use it, is
  list reversal; it is its own inverse and keeps the length.
\<close>

theorem reversal_correct:
  "reverse_vector_content data = rev data \<and>
   get_reversed_vector_content (reverse_vector_content data) = data \<and>
   length (get_reversed_vector_content data) = length data"
  by simp

end
