(* ===== verification/Tcp_Server.thy ===== *)
theory Tcp_Server
  imports Tcp_Messaging
begin

text \<open>
  The TCP server (GO++PROJECT/src/cpp_tcp_benchmark/server/tcp_server.cpp). A
  \<open>TCPSession\<close> is a state machine driven by the completions of its asynchronous
  operations: it always has at most one operation pending, and each completion handler
  decides the next. Boost.Asio is the environment: a completion is an event with its
  error code and data, and every event the environment could deliver is covered.

  For the functional behaviour the session is run over a connection whose reads and
  writes are parameters \<open>rd\<close> and \<open>wr\<close>; what is assumed of them is the documented contract of
  \<open>async_read\<close> and \<open>async_write\<close>.
\<close>

section \<open>The session\<close>

datatype error_code = Success | Eof | Operation_aborted | Other_error string

definition CHUNK_SIZE :: u64 where
  "CHUNK_SIZE = 64 * 1024"

datatype pending = No_op | Read_header | Read_body nat | Write_buffers "bytes list"

record session =
  s_pending :: pending
  m_read_header_buffer :: bytes
  m_read_body_buffer :: bytes
  m_write_header_buffer :: bytes

definition session_new :: session where
  "session_new = \<lparr>s_pending = No_op, m_read_header_buffer = replicate HEADER_SIZE 0,
     m_read_body_buffer = [], m_write_header_buffer = replicate HEADER_SIZE 0\<rparr>"

definition do_read_header :: "session \<Rightarrow> session" where
  "do_read_header s = s\<lparr>s_pending := Read_header\<rparr>"

definition session_start :: "session \<Rightarrow> session" where
  "session_start s = do_read_header s"

definition do_read_body :: "session \<Rightarrow> session" where
  "do_read_body s = s\<lparr>s_pending := Read_body (length (m_read_body_buffer s))\<rparr>"

definition do_write :: "session \<Rightarrow> session" where
  "do_write s =
     (case prepare_message (m_read_body_buffer s) of (header, buffers) \<Rightarrow>
        s\<lparr>m_write_header_buffer := header, s_pending := Write_buffers buffers\<rparr>)"

text \<open>The handlers; returning without starting an operation ends the session.\<close>

definition on_read_header :: "error_code \<Rightarrow> bytes \<Rightarrow> session \<Rightarrow> session" where
  "on_read_header ec data s =
     (let s = s\<lparr>s_pending := No_op,
                m_read_header_buffer := overwrite (m_read_header_buffer s) data\<rparr>
      in if ec = Success
         then let body_length = parse_header (m_read_header_buffer s)
              in if body_length = 0 then do_write (s\<lparr>m_read_body_buffer := []\<rparr>)
                 else if ucast body_length > CHUNK_SIZE * 2 then s
                 else do_read_body
                        (s\<lparr>m_read_body_buffer := resize_bytes (m_read_body_buffer s) (unat body_length)\<rparr>)
         else s)"

definition on_read_body :: "error_code \<Rightarrow> bytes \<Rightarrow> session \<Rightarrow> session" where
  "on_read_body ec data s =
     (let s = s\<lparr>s_pending := No_op,
                m_read_body_buffer := overwrite (m_read_body_buffer s) data\<rparr>
      in if ec = Success
         then if length data \<noteq> length (m_read_body_buffer s) then s
              else do_write (s\<lparr>m_read_body_buffer := reverse_vector_content (m_read_body_buffer s)\<rparr>)
         else s)"

definition on_write :: "error_code \<Rightarrow> session \<Rightarrow> session" where
  "on_write ec s =
     (let s = s\<lparr>s_pending := No_op\<rparr> in if ec = Success then do_read_header s else s)"

section \<open>Events\<close>

text \<open>
  A completion is delivered for the pending operation only, and a read never delivers
  more bytes than its buffer holds.
\<close>

datatype session_event = Ev_read error_code bytes | Ev_written error_code

fun session_accepts :: "session \<Rightarrow> session_event \<Rightarrow> bool" where
  "session_accepts s (Ev_read ec data) \<longleftrightarrow>
     (case s_pending s of Read_header \<Rightarrow> length data \<le> HEADER_SIZE
      | Read_body n \<Rightarrow> length data \<le> n | _ \<Rightarrow> False)"
| "session_accepts s (Ev_written ec) \<longleftrightarrow> (case s_pending s of Write_buffers b \<Rightarrow> True | _ \<Rightarrow> False)"

fun session_step :: "session \<Rightarrow> session_event \<Rightarrow> session" where
  "session_step s (Ev_read ec data) =
     (if s_pending s = Read_header then on_read_header ec data s else on_read_body ec data s)"
| "session_step s (Ev_written ec) = on_write ec s"

inductive session_reachable :: "session \<Rightarrow> bool" where
  start: "session_reachable (session_start session_new)"
| event: "session_reachable s \<Longrightarrow> session_accepts s e \<Longrightarrow> session_reachable (session_step s e)"

text \<open>
  What holds whatever the peer and the network do: the buffers have their sizes, no more
  than two chunks are ever held, the pending body read fills the body buffer, and what
  is being written is the frame of the body buffer.
\<close>

definition session_inv :: "session \<Rightarrow> bool" where
  "session_inv s \<longleftrightarrow>
     length (m_read_header_buffer s) = HEADER_SIZE \<and>
     length (m_write_header_buffer s) = HEADER_SIZE \<and>
     length (m_read_body_buffer s) \<le> unat (CHUNK_SIZE * 2) \<and>
     (case s_pending s of
        Read_body n \<Rightarrow> n = length (m_read_body_buffer s) \<and> 0 < n
      | Write_buffers bs \<Rightarrow> (m_write_header_buffer s, bs) = prepare_message (m_read_body_buffer s)
      | _ \<Rightarrow> True)"

lemma do_write_inv [inv_intros]:
  "session_inv s \<Longrightarrow> session_inv (do_write s)"
  by (auto simp: session_inv_def do_write_def HEADER_SIZE_def prepare_message_def Let_def)

lemma do_read_header_inv [inv_intros]: "session_inv s \<Longrightarrow> session_inv (do_read_header s)"
  by (auto simp: session_inv_def do_read_header_def)

lemma no_op_inv: "session_inv s \<Longrightarrow> session_inv (s\<lparr>s_pending := No_op\<rparr>)"
  by (auto simp: session_inv_def)

lemma body_inv:
  "session_inv s \<Longrightarrow> s_pending s = No_op \<Longrightarrow> length b \<le> unat (CHUNK_SIZE * 2) \<Longrightarrow>
   session_inv (s\<lparr>m_read_body_buffer := b\<rparr>)"
  by (auto simp: session_inv_def)

lemma do_read_body_inv:
  "session_inv s \<Longrightarrow> m_read_body_buffer s \<noteq> [] \<Longrightarrow> session_inv (do_read_body s)"
  by (auto simp: session_inv_def do_read_body_def)

lemma on_read_header_inv:
  assumes "session_inv s" "length data \<le> HEADER_SIZE"
  shows "session_inv (on_read_header ec data s)"
proof -
  define t where "t = s\<lparr>s_pending := No_op,
    m_read_header_buffer := overwrite (m_read_header_buffer s) data\<rparr>"
  have t: "session_inv t" "s_pending t = No_op"
    using assms by (auto simp: t_def session_inv_def)
  let ?n = "parse_header (m_read_header_buffer t)"
  have bound: "unat ?n \<le> unat (CHUNK_SIZE * 2)" if "\<not> CHUNK_SIZE * 2 < ucast ?n"
  proof -
    have "ucast ?n \<le> CHUNK_SIZE * 2" using that by simp
    then show ?thesis by (simp add: word_le_nat_alt)
  qed
  have "session_inv (do_write (t\<lparr>m_read_body_buffer := []\<rparr>))"
    using t by (intro do_write_inv body_inv) auto
  moreover have "session_inv (do_read_body
      (t\<lparr>m_read_body_buffer := resize_bytes (m_read_body_buffer t) (unat ?n)\<rparr>))"
    if "?n \<noteq> 0" "\<not> CHUNK_SIZE * 2 < ucast ?n"
    using t bound [OF that(2)] that(1)
    by (intro do_read_body_inv body_inv) (auto simp: unat_eq_zero simp flip: length_0_conv)
  ultimately show ?thesis
    using t(1) by (auto simp: on_read_header_def t_def [symmetric] Let_def)
qed

lemma on_read_body_inv:
  assumes "session_inv s" "s_pending s = Read_body n" "length data \<le> n"
  shows "session_inv (on_read_body ec data s)"
proof -
  define t where "t = s\<lparr>s_pending := No_op,
    m_read_body_buffer := overwrite (m_read_body_buffer s) data\<rparr>"
  have t: "session_inv t" "s_pending t = No_op"
    using assms by (auto simp: t_def session_inv_def)
  then have "length (m_read_body_buffer t) \<le> unat (CHUNK_SIZE * 2)"
    by (simp add: session_inv_def)
  with t have "session_inv (do_write (t\<lparr>m_read_body_buffer := reverse_vector_content (m_read_body_buffer t)\<rparr>))"
    by (intro do_write_inv body_inv) auto
  with t(1) show ?thesis by (auto simp: on_read_body_def t_def [symmetric] Let_def)
qed

lemma session_step_inv:
  assumes "session_inv s" "session_accepts s e"
  shows "session_inv (session_step s e)"
proof (cases e)
  case (Ev_read ec data)
  with assms show ?thesis
    by (cases "s_pending s") (auto intro: on_read_header_inv on_read_body_inv)
next
  case (Ev_written ec)
  with assms show ?thesis
    by (auto simp: on_write_def Let_def intro!: inv_intros no_op_inv)
qed

lemma session_reachable_inv: "session_reachable s \<Longrightarrow> session_inv s"
proof (induction rule: session_reachable.induct)
  case start
  show ?case by (simp add: session_start_def do_read_header_def session_new_def session_inv_def)
next
  case (event s e)
  then show ?case by (blast intro: session_step_inv)
qed

section \<open>A session over a connection\<close>

text \<open>
  \<open>rd inp n\<close> is the outcome of reading \<open>n\<close> bytes when \<open>inp\<close> is what the peer will still
  send: the error code, the bytes delivered and what is left. \<open>wr data\<close> is the outcome
  of writing: the error code and how many bytes went out.
\<close>

type_synonym reader = "bytes \<Rightarrow> nat \<Rightarrow> error_code \<times> bytes \<times> bytes"
type_synonym writer = "bytes \<Rightarrow> error_code \<times> nat"

text \<open>
  The contract of \<open>async_read\<close> with \<open>transfer_exactly\<close>: success means the buffer was filled
  with the next bytes of the stream, and a connection that is closed first is an error. The
  contract of \<open>async_write\<close>: success means everything was transferred.
\<close>

definition reads_exactly :: "reader \<Rightarrow> bool" where
  "reads_exactly rd \<longleftrightarrow>
     (\<forall>inp n. n \<le> length inp \<longrightarrow> rd inp n = (Success, take n inp, drop n inp)) \<and>
     (\<forall>inp n. length inp < n \<longrightarrow>
        fst (rd inp n) \<noteq> Success \<and> length (fst (snd (rd inp n))) \<le> n)"

definition writes_all :: "writer \<Rightarrow> bool" where
  "writes_all wr \<longleftrightarrow> (\<forall>data. wr data = (Success, length data))"

fun session_io :: "reader \<Rightarrow> writer \<Rightarrow> session \<times> bytes \<times> bytes \<Rightarrow> session \<times> bytes \<times> bytes" where
  "session_io rd wr (s, inp, out) =
     (case s_pending s of
        No_op \<Rightarrow> (s, inp, out)
      | Read_header \<Rightarrow>
          (case rd inp HEADER_SIZE of (ec, data, inp') \<Rightarrow> (on_read_header ec data s, inp', out))
      | Read_body n \<Rightarrow>
          (case rd inp n of (ec, data, inp') \<Rightarrow> (on_read_body ec data s, inp', out))
      | Write_buffers bs \<Rightarrow>
          (case wr (concat bs) of (ec, k) \<Rightarrow> (on_write ec s, inp, out @ take k (concat bs))))"

definition session_run ::
  "reader \<Rightarrow> writer \<Rightarrow> nat \<Rightarrow> session \<times> bytes \<times> bytes \<Rightarrow> session \<times> bytes \<times> bytes" where
  "session_run rd wr n c = (session_io rd wr ^^ n) c"

lemma session_run_0 [simp]: "session_run rd wr 0 c = c"
  by (simp add: session_run_def)

lemma session_run_Suc: "session_run rd wr (Suc n) c = session_run rd wr n (session_io rd wr c)"
  by (simp add: session_run_def funpow_swap1)

lemma session_run_add: "session_run rd wr (m + n) c = session_run rd wr n (session_run rd wr m c)"
  by (simp add: session_run_def funpow_add add.commute [of m n])

lemma session_run_stopped:
  "s_pending s = No_op \<Longrightarrow> session_run rd wr n (s, inp, out) = (s, inp, out)"
  by (induction n) (simp_all add: session_run_Suc)

text \<open>A message the server accepts: its length survives the header and stays below the limit.\<close>

definition acceptable :: "bytes \<Rightarrow> bool" where
  "acceptable p \<longleftrightarrow> length p \<le> unat (CHUNK_SIZE * 2)"

lemma chunk_limit [simp]: "unat (CHUNK_SIZE * 2) = 131072"
  by (simp add: CHUNK_SIZE_def)

lemma acceptable_announced:
  assumes "acceptable p"
  shows "unat (parse_header (take HEADER_SIZE (frame p @ r))) = length p"
  using assms tcp.split_stream(1) [of p r] by (simp add: acceptable_def)

lemma reads_exactlyD:
  "reads_exactly rd \<Longrightarrow> n \<le> length inp \<Longrightarrow> rd inp n = (Success, take n inp, drop n inp)"
  by (simp add: reads_exactly_def)

text \<open>The three handlers on the way of one non-empty message.\<close>

lemma server_header_step:
  assumes "s_pending v = Read_header" "length (m_read_header_buffer v) = HEADER_SIZE"
    and "acceptable p" "p \<noteq> []"
  shows "s_pending (on_read_header Success (take HEADER_SIZE (frame p)) v) = Read_body (length p)"
    and "length (m_read_body_buffer (on_read_header Success (take HEADER_SIZE (frame p)) v)) = length p"
    and "length (m_read_header_buffer (on_read_header Success (take HEADER_SIZE (frame p)) v)) = HEADER_SIZE"
proof -
  let ?h = "take HEADER_SIZE (frame p)"
  have len: "unat (parse_header ?h) = length p"
    using acceptable_announced [OF assms(3), of "[]"] by simp
  have "unat (ucast (parse_header ?h) :: u64) \<le> unat (CHUNK_SIZE * 2)"
    using assms(3) len by (simp add: acceptable_def)
  then have "\<not> CHUNK_SIZE * 2 < ucast (parse_header ?h)" by (simp only: word_le_nat_alt not_less)
  moreover have "parse_header ?h \<noteq> 0" using len assms(4) by (metis length_0_conv unat_0)
  moreover have "length ?h = HEADER_SIZE" by simp
  ultimately show "s_pending (on_read_header Success ?h v) = Read_body (length p)"
    "length (m_read_body_buffer (on_read_header Success ?h v)) = length p"
    "length (m_read_header_buffer (on_read_header Success ?h v)) = HEADER_SIZE"
    using assms(2) len by (simp_all add: on_read_header_def do_read_body_def Let_def)
qed

lemma server_body_step:
  assumes "length (m_read_body_buffer v) = length p"
  shows "\<exists>bs. s_pending (on_read_body Success p v) = Write_buffers bs \<and> concat bs = frame (rev p)"
    and "m_read_header_buffer (on_read_body Success p v) = m_read_header_buffer v"
  using assms by (simp_all add: on_read_body_def do_write_def frame_def Let_def split: prod.split)

lemma server_write_step:
  "s_pending (on_write Success v) = Read_header"
  "m_read_header_buffer (on_write Success v) = m_read_header_buffer v"
  by (simp_all add: on_write_def do_read_header_def Let_def)

text \<open>One message: at most three operations, and the reversed payload comes back framed.\<close>

lemma session_writes:
  assumes "writes_all wr" "length (m_read_header_buffer s) = HEADER_SIZE"
  shows "\<exists>t. session_io rd wr (do_write s, rest, out) = (t, rest, out @ frame (m_read_body_buffer s)) \<and>
           s_pending t = Read_header \<and> length (m_read_header_buffer t) = HEADER_SIZE"
  using assms
  by (auto simp: do_write_def on_write_def do_read_header_def writes_all_def frame_def split: prod.split)

lemma session_echo_one:
  assumes rd: "reads_exactly rd" and wr: "writes_all wr" and p: "acceptable p"
    and s: "s_pending s = Read_header" "length (m_read_header_buffer s) = HEADER_SIZE"
  shows "\<exists>k t. 0 < k \<and> k \<le> 3 \<and> s_pending t = Read_header \<and>
           length (m_read_header_buffer t) = HEADER_SIZE \<and>
           session_run rd wr k (s, frame p @ rest, out) = (t, rest, out @ frame (rev p))"
proof -
  let ?inp = "frame p @ rest"
  let ?hdr = "take HEADER_SIZE ?inp"
  let ?n = "parse_header ?hdr"
  have len: "unat ?n = length p" using p by (rule acceptable_announced)
  have hdr: "rd ?inp HEADER_SIZE = (Success, ?hdr, p @ rest)"
    using reads_exactlyD [OF rd, of HEADER_SIZE ?inp] by (simp add: tcp.encode_payload)
  have lhdr: "length ?hdr = HEADER_SIZE" by (simp add: HEADER_SIZE_def)
  have small: "\<not> CHUNK_SIZE * 2 < ucast ?n"
  proof -
    have "unat (ucast ?n :: u64) \<le> unat (CHUNK_SIZE * 2)"
      using p len by (simp add: acceptable_def)
    then show ?thesis by (simp only: word_le_nat_alt not_less)
  qed
  define t0 where "t0 = s\<lparr>s_pending := No_op, m_read_header_buffer := ?hdr\<rparr>"
  show ?thesis
  proof (cases "p = []")
    case True
    with len have "?n = 0" by (simp add: unat_eq_zero)
    then have "session_io rd wr (s, ?inp, out) = (do_write (t0\<lparr>m_read_body_buffer := []\<rparr>), p @ rest, out)"
      using s hdr lhdr by (simp add: on_read_header_def t0_def)
    with session_writes [OF wr, of "t0\<lparr>m_read_body_buffer := []\<rparr>" rd rest out] lhdr True show ?thesis
      by (intro exI [of _ 2]) (auto simp: session_run_Suc numeral_2_eq_2 t0_def)
  next
    case False
    define t1 where "t1 = t0\<lparr>m_read_body_buffer := resize_bytes (m_read_body_buffer s) (length p)\<rparr>"
    define t2 where "t2 = t1\<lparr>s_pending := No_op, m_read_body_buffer := rev p\<rparr>"
    from False len have "?n \<noteq> 0" by (auto simp: unat_eq_zero [symmetric])
    then have 1: "session_io rd wr (s, ?inp, out) = (do_read_body t1, p @ rest, out)"
      using s hdr lhdr small len by (simp add: on_read_header_def t0_def t1_def)
    have body: "rd (p @ rest) (length p) = (Success, p, rest)"
      using reads_exactlyD [OF rd, of "length p" "p @ rest"] by simp
    have 2: "session_io rd wr (do_read_body t1, p @ rest, out) = (do_write t2, rest, out)"
      using body by (simp add: do_read_body_def on_read_body_def t1_def t2_def)
    from session_writes [OF wr, of t2 rd rest out] lhdr 1 2 show ?thesis
      by (intro exI [of _ 3]) (auto simp: session_run_Suc numeral_3_eq_3 t0_def t1_def t2_def)
  qed
qed

text \<open>A whole stream of messages, then whatever follows it.\<close>

lemma session_echo:
  assumes "reads_exactly rd" "writes_all wr" "list_all acceptable ps"
    and "s_pending s = Read_header" "length (m_read_header_buffer s) = HEADER_SIZE"
  shows "\<exists>k t. length ps \<le> k \<and> k \<le> 3 * length ps \<and> s_pending t = Read_header \<and>
           length (m_read_header_buffer t) = HEADER_SIZE \<and>
           session_run rd wr k (s, concat (map frame ps) @ rest, out) =
           (t, rest, out @ concat (map (\<lambda>p. frame (rev p)) ps))"
  using assms(3-5)
proof (induction ps arbitrary: s out)
  case Nil
  then show ?case by (intro exI [of _ 0]) auto
next
  case (Cons p ps)
  obtain k t where k: "0 < k" "k \<le> 3" and t: "s_pending t = Read_header"
    "length (m_read_header_buffer t) = HEADER_SIZE"
    and r: "session_run rd wr k (s, frame p @ (concat (map frame ps) @ rest), out) =
            (t, concat (map frame ps) @ rest, out @ frame (rev p))"
    using session_echo_one [OF assms(1,2), of p s "concat (map frame ps) @ rest" out] Cons.prems
    by auto
  from Cons.IH [OF _ t, of "out @ frame (rev p)"] Cons.prems
  obtain k' t' where k': "length ps \<le> k'" "k' \<le> 3 * length ps" and
    t': "s_pending t' = Read_header" "length (m_read_header_buffer t') = HEADER_SIZE"
    and r': "session_run rd wr k' (t, concat (map frame ps) @ rest, out @ frame (rev p)) =
      (t', rest, (out @ frame (rev p)) @ concat (map (\<lambda>p. frame (rev p)) ps))"
    by auto
  from r r' k k' t' show ?case
    by (intro exI [of _ "k + k'"] exI [of _ t']) (auto simp: session_run_add)
qed

text \<open>A stream that ends, or goes on with less than a header, ends the session.\<close>

lemma session_end:
  assumes "reads_exactly rd" "s_pending s = Read_header" "length rest < HEADER_SIZE"
  shows "\<exists>t. s_pending t = No_op \<and> fst (session_io rd wr (s, rest, out)) = t \<and>
           snd (snd (session_io rd wr (s, rest, out))) = out"
proof -
  obtain ec data rest' where e: "rd rest HEADER_SIZE = (ec, data, rest')" by (cases "rd rest HEADER_SIZE")
  have "fst (rd rest HEADER_SIZE) \<noteq> Success"
    using assms by (simp add: reads_exactly_def)
  with e have "ec \<noteq> Success" by simp
  with assms(2) e show ?thesis by (simp add: on_read_header_def Let_def)
qed

text \<open>A header that announces too much ends the session without an answer.\<close>

lemma session_refuses:
  assumes rd: "reads_exactly rd" and s: "s_pending s = Read_header"
    "length (m_read_header_buffer s) = HEADER_SIZE"
    and h: "length h = HEADER_SIZE" "unat (parse_header h) > unat (CHUNK_SIZE * 2)"
  shows "session_io rd wr (s, h @ rest, out) =
           (s\<lparr>s_pending := No_op, m_read_header_buffer := h\<rparr>, rest, out)"
proof -
  have "CHUNK_SIZE * 2 < ucast (parse_header h)"
    using h(2) by (simp add: word_less_nat_alt)
  moreover have "parse_header h \<noteq> 0" using h(2) by auto
  moreover have "rd (h @ rest) HEADER_SIZE = (Success, h, rest)"
    using reads_exactlyD [OF rd, of HEADER_SIZE "h @ rest"] h(1) by simp
  ultimately show ?thesis using s h(1) by (simp add: on_read_header_def Let_def)
qed

section \<open>Accepting connections\<close>

text \<open>
  \<open>TCPServer\<close> keeps one \<open>async_accept\<close> pending and starts a session for each connection.
  A shutdown signal stops the \<open>io_context\<close>, after which no handler runs.
\<close>

record tcp_server =
  sv_acceptor_open :: bool
  sv_accept_pending :: bool
  sv_sessions :: "session list"
  sv_stopped :: bool

definition do_accept :: "tcp_server \<Rightarrow> tcp_server" where
  "do_accept sv = sv\<lparr>sv_accept_pending := True\<rparr>"

definition server_new :: tcp_server where
  "server_new = do_accept \<lparr>sv_acceptor_open = True, sv_accept_pending = False,
                           sv_sessions = [], sv_stopped = False\<rparr>"

definition on_accept :: "error_code \<Rightarrow> tcp_server \<Rightarrow> tcp_server" where
  "on_accept ec sv =
     (let sv = sv\<lparr>sv_accept_pending := False\<rparr>;
          again = (\<lambda>sv. if sv_acceptor_open sv then do_accept sv else sv)
      in if ec = Success
         then again (sv\<lparr>sv_sessions := sv_sessions sv @ [session_start session_new]\<rparr>)
         else if ec = Operation_aborted then sv
         else again sv)"

definition on_signal :: "tcp_server \<Rightarrow> tcp_server" where
  "on_signal sv = (if \<not> sv_stopped sv then sv\<lparr>sv_stopped := True\<rparr> else sv)"

datatype server_event = Ev_accept error_code | Ev_session nat session_event | Ev_signal

fun server_step :: "tcp_server \<Rightarrow> server_event \<Rightarrow> tcp_server" where
  "server_step sv (Ev_accept ec) =
     (if sv_stopped sv \<or> \<not> sv_accept_pending sv then sv else on_accept ec sv)"
| "server_step sv (Ev_session i e) =
     (if sv_stopped sv \<or> length (sv_sessions sv) \<le> i \<or> \<not> session_accepts (sv_sessions sv ! i) e
      then sv
      else sv\<lparr>sv_sessions := (sv_sessions sv)[i := session_step (sv_sessions sv ! i) e]\<rparr>)"
| "server_step sv Ev_signal = on_signal sv"

definition server_run :: "server_event list \<Rightarrow> tcp_server" where
  "server_run es = foldl server_step server_new es"

text \<open>
  Sessions do not interfere: every session the server holds is one the session machine
  can reach on its own, and as long as neither an abort nor a shutdown has been delivered
  the server goes on accepting.
\<close>

definition server_inv :: "tcp_server \<Rightarrow> bool" where
  "server_inv sv \<longleftrightarrow> sv_acceptor_open sv \<and> list_all session_reachable (sv_sessions sv)"

lemma server_step_inv: "server_inv sv \<Longrightarrow> server_inv (server_step sv e)"
  by (cases e)
     (auto simp: server_inv_def on_accept_def do_accept_def on_signal_def Let_def list_all_length
        nth_list_update nth_append intro: session_reachable.intros)

lemma server_run_snoc: "server_run (es @ [e]) = server_step (server_run es) e"
  by (simp add: server_run_def)

lemma server_run_inv: "server_inv (server_run es)"
proof (induction es rule: rev_induct)
  case Nil
  show ?case by (simp add: server_run_def server_new_def do_accept_def server_inv_def)
next
  case (snoc e es)
  then show ?case by (simp add: server_run_snoc server_step_inv)
qed

lemma server_run_accepting:
  "Ev_accept Operation_aborted \<notin> set es \<Longrightarrow> Ev_signal \<notin> set es \<Longrightarrow>
   sv_accept_pending (server_run es) \<and> \<not> sv_stopped (server_run es)"
proof (induction es rule: rev_induct)
  case Nil
  show ?case by (simp add: server_run_def server_new_def do_accept_def)
next
  case (snoc e es)
  moreover have "sv_acceptor_open (server_run es)"
    using server_run_inv [of es] by (simp add: server_inv_def)
  ultimately show ?case
    by (cases e) (auto simp: server_run_snoc on_accept_def do_accept_def Let_def)
qed

section \<open>Properties\<close>

text \<open>
  C10: functional behaviour of a session. Over a connection that honours the contracts of
  \<open>async_read\<close> and \<open>async_write\<close>, a session that is sent any number of messages of at most
  two chunks each, and then less than a header, answers with exactly the reversed messages, framed and
  in order, and ends; it needs at most three operations for each message.
\<close>

theorem session_echoes_stream:
  assumes "reads_exactly rd" "writes_all wr" "list_all acceptable ps" "length rest < HEADER_SIZE"
  shows "\<exists>k t inp. k \<le> 3 * length ps + 1 \<and>
           session_run rd wr k (session_start session_new, concat (map frame ps) @ rest, []) =
             (t, inp, concat (map (\<lambda>p. frame (rev p)) ps)) \<and> s_pending t = No_op"
proof -
  have start: "s_pending (session_start session_new) = Read_header"
    "length (m_read_header_buffer (session_start session_new)) = HEADER_SIZE"
    by (simp_all add: session_start_def do_read_header_def session_new_def)
  from session_echo [OF assms(1-3) start, of rest "[]"]
  obtain k t where k: "k \<le> 3 * length ps" "s_pending t = Read_header"
    "session_run rd wr k (session_start session_new, concat (map frame ps) @ rest, []) =
     (t, rest, concat (map (\<lambda>p. frame (rev p)) ps))"
    by auto
  let ?out = "concat (map (\<lambda>p. frame (rev p)) ps)"
  obtain u inp where u: "session_io rd wr (t, rest, ?out) = (u, inp, ?out)" "s_pending u = No_op"
    using session_end [OF assms(1) k(2) assms(4), of wr ?out]
    by (cases "session_io rd wr (t, rest, ?out)") auto
  have "session_run rd wr (k + 1) (session_start session_new, concat (map frame ps) @ rest, []) =
        session_run rd wr 1 (t, rest, ?out)"
    by (simp only: session_run_add k(3))
  also have "\<dots> = (u, inp, ?out)" using u(1) by (simp only: One_nat_def session_run_Suc session_run_0)
  finally show ?thesis using k(1) u(2) by (intro exI [of _ "k + 1"]) auto
qed

text \<open>A connection that behaves: the peer's bytes, then end of file.\<close>

definition stream_read :: reader where
  "stream_read inp n = (if n \<le> length inp then (Success, take n inp, drop n inp) else (Eof, inp, []))"

definition stream_write :: writer where
  "stream_write data = (Success, length data)"

lemma stream_contracts: "reads_exactly stream_read" "writes_all stream_write"
  by (simp_all add: reads_exactly_def writes_all_def stream_read_def stream_write_def)

lemma session_echoes_stream_witness:
  "\<exists>k t inp. k \<le> 7 \<and>
     session_run stream_read stream_write k
       (session_start session_new, concat (map frame [[1, 2, 3], []]) @ [9], []) =
     (t, inp, frame [3, 2, 1] @ frame []) \<and> s_pending t = No_op"
  using session_echoes_stream [OF stream_contracts, of "[[1, 2, 3], []]" "[9]"]
  by (simp add: acceptable_def HEADER_SIZE_def)

text \<open>
  C28: safety of a session whatever the peer and the network do. In every reachable state the
  body buffer holds at most two chunks, a pending body read is for exactly that buffer, and what is being
  written is the frame of that buffer.
\<close>

theorem session_safe:
  assumes "session_reachable s"
  shows "length (m_read_body_buffer s) \<le> 131072 \<and>
         length (m_read_header_buffer s) = HEADER_SIZE \<and>
         (case s_pending s of
            Read_body n \<Rightarrow> 0 < n \<and> n = length (m_read_body_buffer s)
          | Write_buffers bs \<Rightarrow> concat bs = frame (m_read_body_buffer s)
          | _ \<Rightarrow> True)"
  using session_reachable_inv [OF assms]
  by (cases "s_pending s") (auto simp: session_inv_def frame_def dest!: arg_cong [where f = snd])

lemma session_safe_witness: "length (m_read_body_buffer (session_start session_new)) \<le> 131072"
  using session_safe [OF session_reachable.start] by simp




end
