(* ===== verification/File_Streams.thy ===== *)
theory File_Streams
  imports Prelude
begin

text \<open>
  The part of the C++ standard library the programs read and write files with: a file
  system as a partial map from names to contents, \<open>std::ifstream\<close> with its position and
  status bits, and \<open>std::ofstream\<close>.

  The file system also carries the environment the code cannot control: which names
  can be opened, and where a device fails. \<open>fs_read_fault f p = Some k\<close> says that a read
  of file \<open>f\<close> that starts at offset \<open>p\<close> breaks off with a device error after \<open>k\<close> bytes;
  \<open>fs_write_fault f p\<close> says that a write at offset \<open>p\<close> fails.
\<close>

section \<open>The file system\<close>

record fsys =
  fs_files :: "string \<Rightarrow> bytes option"
  fs_can_read :: "string \<Rightarrow> bool"
  fs_can_write :: "string \<Rightarrow> bool"
  fs_read_fault :: "string \<Rightarrow> nat \<Rightarrow> nat option"
  fs_write_fault :: "string \<Rightarrow> nat \<Rightarrow> bool"

definition fs_put :: "string \<Rightarrow> bytes \<Rightarrow> fsys \<Rightarrow> fsys" where
  "fs_put f bs fs = fs\<lparr>fs_files := (fs_files fs)(f := Some bs)\<rparr>"

definition fs_remove :: "string \<Rightarrow> fsys \<Rightarrow> fsys" where
  "fs_remove f fs = fs\<lparr>fs_files := (fs_files fs)(f := None)\<rparr>"

lemma fs_put_simps [simp]:
  "fs_files (fs_put f bs fs) = (fs_files fs)(f := Some bs)"
  "fs_can_read (fs_put f bs fs) = fs_can_read fs"
  "fs_can_write (fs_put f bs fs) = fs_can_write fs"
  "fs_read_fault (fs_put f bs fs) = fs_read_fault fs"
  "fs_write_fault (fs_put f bs fs) = fs_write_fault fs"
  by (simp_all add: fs_put_def)

lemma fs_remove_simps [simp]:
  "fs_files (fs_remove f fs) = (fs_files fs)(f := None)"
  "fs_can_read (fs_remove f fs) = fs_can_read fs"
  "fs_can_write (fs_remove f fs) = fs_can_write fs"
  "fs_read_fault (fs_remove f fs) = fs_read_fault fs"
  "fs_write_fault (fs_remove f fs) = fs_write_fault fs"
  by (simp_all add: fs_remove_def)

lemma fs_put_put [simp]: "fs_put f b (fs_put f a fs) = fs_put f b fs"
  by (simp add: fs_put_def)

lemma fs_put_remove [simp]: "fs_put f b (fs_remove f fs) = fs_put f b fs"
  by (simp add: fs_put_def fs_remove_def)

text \<open>A file that can be read to its end without a device error.\<close>

definition readable :: "fsys \<Rightarrow> string \<Rightarrow> bytes \<Rightarrow> bool" where
  "readable fs f bs \<longleftrightarrow>
     fs_files fs f = Some bs \<and> fs_can_read fs f \<and> (\<forall>p. fs_read_fault fs f p = None)"

text \<open>A device without faults that holds one file.\<close>

definition plain_fs :: "string \<Rightarrow> bytes \<Rightarrow> fsys" where
  "plain_fs f bs = \<lparr>fs_files = [f \<mapsto> bs], fs_can_read = (\<lambda>_. True), fs_can_write = (\<lambda>_. True),
     fs_read_fault = (\<lambda>_ _. None), fs_write_fault = (\<lambda>_ _. False)\<rparr>"

lemma plain_fs_simps [simp]:
  "readable (plain_fs f bs) f bs" "fs_files (plain_fs f bs) = [f \<mapsto> bs]"
  "fs_can_read (plain_fs f bs) g" "fs_can_write (plain_fs f bs) g"
  "fs_read_fault (plain_fs f bs) g p = None" "\<not> fs_write_fault (plain_fs f bs) g p"
  by (simp_all add: plain_fs_def readable_def)

section \<open>Input streams\<close>

record ifstream =
  is_content :: bytes
  is_fault :: "nat \<Rightarrow> nat option"
  is_pos :: nat
  is_opened :: bool
  is_eofbit :: bool
  is_failbit :: bool
  is_badbit :: bool
  is_gcount :: nat

definition ifs_closed :: ifstream where
  "ifs_closed = \<lparr>is_content = [], is_fault = (\<lambda>_. None), is_pos = 0, is_opened = False,
     is_eofbit = False, is_failbit = False, is_badbit = False, is_gcount = 0\<rparr>"

text \<open>Opening positions at the beginning and clears the state, or sets \<open>failbit\<close>.\<close>

definition ifs_open :: "fsys \<Rightarrow> string \<Rightarrow> ifstream" where
  "ifs_open fs f =
     (case fs_files fs f of
        Some bs \<Rightarrow>
          if fs_can_read fs f
          then ifs_closed\<lparr>is_content := bs, is_fault := fs_read_fault fs f, is_opened := True\<rparr>
          else ifs_closed\<lparr>is_failbit := True\<rparr>
      | None \<Rightarrow> ifs_closed\<lparr>is_failbit := True\<rparr>)"

text \<open>\<open>good()\<close>, and the conversion \<open>!stream\<close>, which looks at \<open>failbit\<close> and \<open>badbit\<close>.\<close>

definition ifs_good :: "ifstream \<Rightarrow> bool" where
  "ifs_good s \<longleftrightarrow> \<not> is_eofbit s \<and> \<not> is_failbit s \<and> \<not> is_badbit s"

definition ifs_fail :: "ifstream \<Rightarrow> bool" where
  "ifs_fail s \<longleftrightarrow> is_failbit s \<or> is_badbit s"

text \<open>
  \<open>read(buffer, n)\<close>: the bytes delivered into the buffer, and the stream after it. On a
  stream that is not good nothing is read and \<open>failbit\<close> is set; running into the end
  sets \<open>eofbit\<close> and \<open>failbit\<close>; a device error sets \<open>badbit\<close>.
\<close>

definition ifs_read :: "nat \<Rightarrow> ifstream \<Rightarrow> bytes \<times> ifstream" where
  "ifs_read n s =
     (if \<not> ifs_good s then ([], s\<lparr>is_failbit := True, is_gcount := 0\<rparr>)
      else let avail = drop (is_pos s) (is_content s);
               stop = (\<lambda>data t. (data, t\<lparr>is_pos := is_pos s + length data,
                                         is_gcount := length data\<rparr>))
           in case is_fault s (is_pos s) of
                Some k \<Rightarrow>
                  if k < n \<and> k \<le> length avail then stop (take k avail) (s\<lparr>is_badbit := True\<rparr>)
                  else if n \<le> length avail then stop (take n avail) s
                  else stop avail (s\<lparr>is_eofbit := True, is_failbit := True\<rparr>)
              | None \<Rightarrow>
                  if n \<le> length avail then stop (take n avail) s
                  else stop avail (s\<lparr>is_eofbit := True, is_failbit := True\<rparr>))"

definition ifs_clear :: "ifstream \<Rightarrow> ifstream" where
  "ifs_clear s = s\<lparr>is_eofbit := False, is_failbit := False, is_badbit := False\<rparr>"

text \<open>\<open>seekg(0, beg)\<close>: clears \<open>eofbit\<close>, and moves unless the stream has failed.\<close>

definition ifs_rewind :: "ifstream \<Rightarrow> ifstream" where
  "ifs_rewind s = (let t = s\<lparr>is_eofbit := False\<rparr> in if ifs_fail t then t else t\<lparr>is_pos := 0\<rparr>)"

definition ifs_close :: "ifstream \<Rightarrow> ifstream" where
  "ifs_close s = s\<lparr>is_opened := False\<rparr>"

text \<open>\<open>tellg()\<close> of a stream opened at its end.\<close>

definition ifs_size :: "ifstream \<Rightarrow> u64" where
  "ifs_size s = sz (is_content s)"

lemma ifs_open_readable:
  "readable fs f bs \<Longrightarrow>
   ifs_open fs f = ifs_closed\<lparr>is_content := bs, is_fault := (\<lambda>_. None), is_opened := True\<rparr>"
  by (auto simp: ifs_open_def readable_def fun_eq_iff)

lemma ifs_open_missing: "fs_files fs f = None \<Longrightarrow> ifs_fail (ifs_open fs f)"
  by (simp add: ifs_open_def ifs_fail_def ifs_closed_def)

lemma ifs_open_opened: "is_opened (ifs_open fs f) \<longleftrightarrow> \<not> ifs_fail (ifs_open fs f)"
  by (simp add: ifs_open_def ifs_fail_def ifs_closed_def split: option.splits)

lemma ifs_read_frame [simp]:
  "is_content (snd (ifs_read n s)) = is_content s"
  "is_fault (snd (ifs_read n s)) = is_fault s"
  "is_opened (snd (ifs_read n s)) = is_opened s"
  by (auto simp: ifs_read_def Let_def split: option.splits)

lemma ifs_read_gcount [simp]: "is_gcount (snd (ifs_read n s)) = length (fst (ifs_read n s))"
  by (auto simp: ifs_read_def Let_def split: option.splits)

lemma ifs_read_length: "length (fst (ifs_read n s)) \<le> n"
  by (auto simp: ifs_read_def Let_def split: option.splits)

lemma ifs_read_prefix:
  "is_pos (snd (ifs_read n s)) = is_pos s + length (fst (ifs_read n s))"
  "\<exists>r. drop (is_pos s) (is_content s) = fst (ifs_read n s) @ r"
  by (auto simp: ifs_read_def Let_def split: option.splits)
     (metis append_take_drop_id)+

text \<open>
  A stream with no device errors is in one of two states: good, or stopped at its end.
  From either, a read delivers the next bytes of the file.
\<close>

definition ifs_sound :: "ifstream \<Rightarrow> bool" where
  "ifs_sound s \<longleftrightarrow> is_opened s \<and> (\<forall>p. is_fault s p = None) \<and> is_pos s \<le> length (is_content s) \<and>
     (ifs_good s \<or> is_pos s = length (is_content s) \<and> is_eofbit s \<and> is_failbit s)"

definition ifs_rest :: "ifstream \<Rightarrow> bytes" where
  "ifs_rest s = drop (is_pos s) (is_content s)"

lemma ifs_sound_open: "readable fs f bs \<Longrightarrow> ifs_sound (ifs_open fs f) \<and> ifs_rest (ifs_open fs f) = bs"
  by (simp add: ifs_open_readable ifs_sound_def ifs_closed_def ifs_good_def ifs_rest_def)

lemma ifs_sound_read:
  assumes "ifs_sound s"
  shows "fst (ifs_read n s) = take n (ifs_rest s)"
    and "ifs_rest (snd (ifs_read n s)) = drop n (ifs_rest s)"
    and "ifs_sound (snd (ifs_read n s))"
  using assms
  by (auto simp: ifs_read_def Let_def ifs_sound_def ifs_rest_def ifs_good_def min_def add.commute)

lemma ifs_sound_read_eof:
  assumes "ifs_sound s"
  shows "is_eofbit (snd (ifs_read n s)) \<longleftrightarrow> is_eofbit s \<or> length (ifs_rest s) < n"
  using assms by (auto simp: ifs_read_def Let_def ifs_sound_def ifs_rest_def ifs_good_def)

section \<open>Output streams\<close>

text \<open>
  An \<open>ofstream\<close> opened for writing truncates; the position is the size of what has been
  written. \<open>ofs_write\<close> is \<open>None\<close> when the stream would be in a failed state after it.
\<close>

definition ofs_open :: "fsys \<Rightarrow> string \<Rightarrow> fsys option" where
  "ofs_open fs f = (if fs_can_write fs f then Some (fs_put f [] fs) else None)"

definition ofs_write :: "string \<Rightarrow> bytes \<Rightarrow> fsys \<Rightarrow> fsys option" where
  "ofs_write f data fs =
     (case fs_files fs f of
        None \<Rightarrow> None
      | Some bs \<Rightarrow> if fs_write_fault fs f (length bs) then None else Some (fs_put f (bs @ data) fs))"

text \<open>Text written through \<open>operator<<\<close>, as bytes.\<close>

definition text_bytes :: "string \<Rightarrow> bytes" where
  "text_bytes s = map (\<lambda>c. of_nat (of_char c)) s"

text \<open>
  A text file written in one go: the code opens it, tests the stream once, writes and
  closes without looking at the stream again, so a failed write goes unnoticed.
\<close>

definition ofs_put_text :: "string \<Rightarrow> string \<Rightarrow> fsys \<Rightarrow> fsys" where
  "ofs_put_text f txt fs =
     (case ofs_write f (text_bytes txt) fs of None \<Rightarrow> fs | Some fs' \<Rightarrow> fs')"

definition bytes_text :: "bytes \<Rightarrow> string" where
  "bytes_text bs = map (\<lambda>b. char_of (unat b)) bs"

lemma bytes_text_text_bytes [simp]: "bytes_text (text_bytes s) = s"
proof -
  have "unat (of_nat (of_char c) :: byte) = of_char c" for c
    using nat_of_char_less_256 [of c] by (simp add: unat_of_nat take_bit_nat_eq_self)
  then show ?thesis by (simp add: bytes_text_def text_bytes_def comp_def)
qed

lemma ofs_text_file:
  "fs_can_write fs f \<Longrightarrow> \<not> fs_write_fault fs f 0 \<Longrightarrow>
   \<exists>fs'. ofs_open fs f = Some fs' \<and> ofs_put_text f txt fs' = fs_put f (text_bytes txt) fs"
  by (simp add: ofs_open_def ofs_put_text_def ofs_write_def)

section \<open>The interface of a chunk reader\<close>

text \<open>Calling a reader until it delivers nothing, at most \<open>n\<close> times.\<close>

fun pull :: "('s \<Rightarrow> bytes \<times> 's) \<Rightarrow> nat \<Rightarrow> 's \<Rightarrow> bytes list \<times> 's" where
  "pull next_of 0 s = ([], s)"
| "pull next_of (Suc n) s =
     (case next_of s of (data, t) \<Rightarrow>
        if data = [] then ([], t)
        else (case pull next_of n t of (ds, u) \<Rightarrow> (data # ds, u)))"

text \<open>The pieces it delivers until then; no more calls are needed than there are bytes left.\<close>

definition deliveries :: "('s \<Rightarrow> bytes \<times> 's) \<Rightarrow> ('s \<Rightarrow> bytes) \<Rightarrow> 's \<Rightarrow> bytes list" where
  "deliveries next_of left s = fst (pull next_of (length (left s) + 1) s)"

text \<open>
  What a reader promises on any device: it delivers pieces of what is left, in order, and once
  it has delivered nothing it delivers nothing any more. \<open>left\<close> is the abstraction: the bytes
  still to be read.
\<close>

locale chunk_stream =
  fixes next_of :: "'s \<Rightarrow> bytes \<times> 's"
    and left :: "'s \<Rightarrow> bytes"
    and ok :: "'s \<Rightarrow> bool"
  assumes pieces: "ok s \<Longrightarrow> left s = fst (next_of s) @ left (snd (next_of s))"
    and keeps: "ok s \<Longrightarrow> ok (snd (next_of s))"
    and dry: "ok s \<Longrightarrow> fst (next_of s) = [] \<Longrightarrow> fst (next_of (snd (next_of s))) = []"
begin

lemma consumes:
  assumes "ok s" "next_of s = (d, t)" "d \<noteq> []"
  shows "length (left t) < length (left s)" "ok t"
  using pieces [OF assms(1)] keeps [OF assms(1)] assms(2,3) by auto

lemma pull_enough:
  "ok s \<Longrightarrow> length (left s) < k \<Longrightarrow> length (left s) < l \<Longrightarrow>
   fst (pull next_of k s) = fst (pull next_of l s)"
proof (induction k arbitrary: l s)
  case (Suc k)
  then obtain l' where l: "l = Suc l'" by (cases l) auto
  obtain d t where d: "next_of s = (d, t)" by fastforce
  show ?case
  proof (cases "d = []")
    case False
    note t = consumes [OF Suc.prems(1) d False]
    with Suc.prems l have "length (left t) < k" "length (left t) < l'" by simp_all
    from Suc.IH [OF t(2) this] show ?thesis by (simp add: l d case_prod_beta)
  qed (simp add: l d)
qed simp

lemma deliveries_step:
  assumes "ok s" "next_of s = (d, t)"
  shows "deliveries next_of left s = (if d = [] then [] else d # deliveries next_of left t)"
proof (cases "d = []")
  case False
  note t = consumes [OF assms False]
  have "fst (pull next_of (length (left s)) t) = deliveries next_of left t"
    unfolding deliveries_def using t by (intro pull_enough) simp_all
  with False assms show ?thesis by (simp add: deliveries_def [of _ _ s] case_prod_beta)
qed (simp add: deliveries_def assms)

lemma deliveries_end:
  assumes "ok s" "next_of s = ([], t)"
  shows "deliveries next_of left t = []"
proof -
  have "fst (next_of t) = []" "ok t" using dry [OF assms(1)] keeps [OF assms(1)] assms(2) by simp_all
  with deliveries_step [OF _ prod.collapse [symmetric], of t] show ?thesis by simp
qed

lemma deliveries_induct [consumes 1, case_names empty piece]:
  assumes "ok s"
    and "\<And>s t. ok s \<Longrightarrow> next_of s = ([], t) \<Longrightarrow> P s"
    and "\<And>s d t. ok s \<Longrightarrow> next_of s = (d, t) \<Longrightarrow> d \<noteq> [] \<Longrightarrow> P t \<Longrightarrow> P s"
  shows "P s"
  using assms(1)
proof (induction "length (left s)" arbitrary: s rule: less_induct)
  case less
  obtain d t where d: "next_of s = (d, t)" by fastforce
  show ?case
  proof (cases "d = []")
    case True
    with assms(2) less.prems d show ?thesis by simp
  next
    case False
    note t = consumes [OF less.prems d False]
    from assms(3) [OF less.prems d False] less.hyps [OF t] show ?thesis .
  qed
qed

lemma deliveries_prefix: "ok s \<Longrightarrow> \<exists>rest. left s = concat (deliveries next_of left s) @ rest"
proof (induction rule: deliveries_induct)
  case (empty s t)
  then show ?case by (simp add: deliveries_step)
next
  case (piece s d t)
  with deliveries_step [OF piece(1,2)] pieces [OF piece(1)] show ?case by auto
qed

lemma deliveries_length: "ok s \<Longrightarrow> length (deliveries next_of left s) \<le> length (left s)"
proof (induction rule: deliveries_induct)
  case (empty s t)
  then show ?case by (simp add: deliveries_step)
next
  case (piece s d t)
  with deliveries_step [OF piece(1,2)] consumes(1) [OF piece(1-3)] show ?case by simp
qed

end

text \<open>
  What both chunk readers promise their clients on a device without errors: each call delivers
  the next \<open>csize\<close> bytes of what is left, an empty result only comes at the end and is then
  reported by \<open>at_eof\<close>, and \<open>at_eof\<close> is never reported early.
\<close>

locale chunk_source =
  fixes next_of :: "'s \<Rightarrow> bytes \<times> 's"
    and at_eof :: "'s \<Rightarrow> bool"
    and left :: "'s \<Rightarrow> bytes"
    and csize :: "'s \<Rightarrow> nat"
    and sound :: "'s \<Rightarrow> bool"
  assumes next_data: "sound s \<Longrightarrow> fst (next_of s) = take (csize s) (left s)"
    and next_left: "sound s \<Longrightarrow> left (snd (next_of s)) = drop (csize s) (left s)"
    and next_sound: "sound s \<Longrightarrow> sound (snd (next_of s))"
    and next_csize: "sound s \<Longrightarrow> csize (snd (next_of s)) = csize s"
    and csize_pos: "sound s \<Longrightarrow> 0 < csize s"
    and empty_eof: "sound s \<Longrightarrow> fst (next_of s) = [] \<Longrightarrow> at_eof (snd (next_of s))"
    and eof_empty: "sound s \<Longrightarrow> at_eof s \<Longrightarrow> left s = []"

context chunk_source
begin

lemma next_nonempty_iff: "sound s \<Longrightarrow> fst (next_of s) = [] \<longleftrightarrow> left s = []"
  using next_data [of s] csize_pos [of s] by auto

lemma next_decreases:
  "sound s \<Longrightarrow> fst (next_of s) \<noteq> [] \<Longrightarrow> length (left (snd (next_of s))) < length (left s)"
  using next_left [of s] next_nonempty_iff [of s] csize_pos [of s] by simp

lemma next_chunks:
  "sound s \<Longrightarrow> left s \<noteq> [] \<Longrightarrow>
   chunks_of (csize s) (left s) = fst (next_of s) # chunks_of (csize s) (left (snd (next_of s)))"
  by (simp add: chunks_of_step csize_pos next_data next_left)

lemma pull_left:
  "sound s \<Longrightarrow> left (snd (pull next_of k s)) = drop (k * csize s) (left s) \<and> sound (snd (pull next_of k s))"
proof (induction k arbitrary: s)
  case 0
  then show ?case by simp
next
  case (Suc k)
  obtain d t where dt: "next_of s = (d, t)" by fastforce
  then have t: "sound t" "csize t = csize s" "left t = drop (csize s) (left s)"
    using Suc.prems next_sound [of s] next_csize [of s] next_left [of s] by simp_all
  show ?case
  proof (cases "d = []")
    case True
    with Suc.prems dt next_nonempty_iff [of s] t show ?thesis by simp
  next
    case False
    with dt Suc.IH [OF t(1)] t show ?thesis by (simp add: case_prod_beta add.commute)
  qed
qed

lemma pull_chunks:
  "sound s \<Longrightarrow> length (left s) < n \<Longrightarrow>
   fst (pull next_of n s) = chunks_of (csize s) (left s) \<and> at_eof (snd (pull next_of n s)) \<and>
   sound (snd (pull next_of n s)) \<and> left (snd (pull next_of n s)) = []"
proof (induction n arbitrary: s)
  case 0
  then show ?case by simp
next
  case (Suc n)
  obtain d t where dt: "next_of s = (d, t)" by fastforce
  show ?case
  proof (cases "left s = []")
    case True
    with Suc.prems dt next_nonempty_iff [of s] empty_eof [of s] next_sound [of s] next_left [of s]
    show ?thesis by simp
  next
    case False
    then have "d \<noteq> []" using Suc.prems dt next_nonempty_iff [of s] by simp
    moreover from this have "length (left t) < n"
      using Suc.prems dt next_decreases [of s] by simp
    moreover have "sound t" using Suc.prems dt next_sound [of s] by simp
    ultimately show ?thesis
      using Suc.prems False dt Suc.IH [of t] next_chunks [of s] next_csize [of s]
      by (auto split: prod.split)
  qed
qed

lemma deliveries_chunks:
  "sound s \<Longrightarrow> deliveries next_of left s = chunks_of (csize s) (left s)"
  using pull_chunks [of s "length (left s) + 1"] by (simp add: deliveries_def)

end

text \<open>A reader that keeps the strong promise keeps the weak one.\<close>

sublocale chunk_source \<subseteq> chunk_stream next_of left sound
proof unfold_locales
  fix s assume s: "sound s"
  show "left s = fst (next_of s) @ left (snd (next_of s))" "sound (snd (next_of s))"
    using s by (simp_all add: next_data next_left next_sound)
  show "fst (next_of (snd (next_of s))) = []" if "fst (next_of s) = []"
    using that s next_nonempty_iff [of s]
    by (simp add: next_data [OF next_sound] next_left)
qed

end
