(* ===== verification/Tcp_Chunk_Reader.thy ===== *)
theory Tcp_Chunk_Reader
  imports File_Streams
begin

text \<open>
  \<open>ChunkReader\<close> of the TCP benchmark
  (GO++PROJECT/src/cpp_tcp_benchmark/common/src/chunk_reader.cpp). It computes the number of
  chunks when the file is opened, and sets its own end flag as soon as a read comes back
  short.
\<close>

section \<open>State and operations\<close>

record tcp_chunk_reader =
  m_file_stream :: ifstream
  m_chunk_size :: u64
  m_file_size :: u64
  m_total_chunks :: u64
  m_chunks_read_count :: u64
  m_eof :: bool

definition tcr_new :: "fsys \<Rightarrow> string \<Rightarrow> u64 \<Rightarrow> exn + tcp_chunk_reader" where
  "tcr_new fs filename chunk_size =
     (let s = ifs_open fs filename
      in if ifs_fail s
         then Inl (Runtime_error (''ChunkReader: Could not open file: '' @ filename))
         else let n = ifs_size s;
                  r = \<lparr>m_file_stream = s, m_chunk_size = chunk_size, m_file_size = n,
                       m_total_chunks = 0, m_chunks_read_count = 0, m_eof = False\<rparr>
              in if n = 0 then Inr (r\<lparr>m_total_chunks := 0, m_eof := True\<rparr>)
                 else if chunk_size = 0 then Inl Division_trap
                 else Inr (r\<lparr>m_total_chunks := (n + chunk_size - 1) div chunk_size\<rparr>))"

definition tcr_destroy :: "tcp_chunk_reader \<Rightarrow> tcp_chunk_reader" where
  "tcr_destroy r =
     (if is_opened (m_file_stream r) then r\<lparr>m_file_stream := ifs_close (m_file_stream r)\<rparr> else r)"

definition read_next_chunk :: "tcp_chunk_reader \<Rightarrow> bytes \<times> tcp_chunk_reader" where
  "read_next_chunk r =
     (if m_eof r \<or> \<not> is_opened (m_file_stream r) \<or> is_eofbit (m_file_stream r)
      then ([], r\<lparr>m_eof := True\<rparr>)
      else case ifs_read (unat (m_chunk_size r)) (m_file_stream r) of (buffer, s) \<Rightarrow>
        let r = r\<lparr>m_file_stream := s\<rparr>
        in if is_gcount s = 0 then ([], r\<lparr>m_eof := True\<rparr>)
           else let r = (if is_gcount s < unat (m_chunk_size r) then r\<lparr>m_eof := True\<rparr> else r)
                in (buffer, r\<lparr>m_chunks_read_count := m_chunks_read_count r + 1\<rparr>))"

section \<open>The invariant\<close>

definition tcr_left :: "tcp_chunk_reader \<Rightarrow> bytes" where
  "tcr_left r = ifs_rest (m_file_stream r)"

definition tcr_csize :: "tcp_chunk_reader \<Rightarrow> nat" where
  "tcr_csize r = unat (m_chunk_size r)"

definition tcr_sound :: "tcp_chunk_reader \<Rightarrow> bool" where
  "tcr_sound r \<longleftrightarrow> ifs_sound (m_file_stream r) \<and> 0 < tcr_csize r \<and>
     (m_eof r \<or> is_eofbit (m_file_stream r) \<longrightarrow> tcr_left r = [])"

lemma read_next_chunk_sound:
  assumes "tcr_sound r"
  shows "fst (read_next_chunk r) = take (tcr_csize r) (tcr_left r)"
    and "tcr_left (snd (read_next_chunk r)) = drop (tcr_csize r) (tcr_left r)"
    and "tcr_sound (snd (read_next_chunk r))"
    and "tcr_csize (snd (read_next_chunk r)) = tcr_csize r"
    and "fst (read_next_chunk r) = [] \<Longrightarrow> m_eof (snd (read_next_chunk r))"
proof -
  let ?s = "m_file_stream r" and ?n = "unat (m_chunk_size r)"
  have snd: "ifs_sound ?s" using assms by (simp add: tcr_sound_def)
  have opened: "is_opened ?s" using snd by (simp add: ifs_sound_def)
  show "fst (read_next_chunk r) = take (tcr_csize r) (tcr_left r)"
    "tcr_left (snd (read_next_chunk r)) = drop (tcr_csize r) (tcr_left r)"
    "tcr_csize (snd (read_next_chunk r)) = tcr_csize r"
    "fst (read_next_chunk r) = [] \<Longrightarrow> m_eof (snd (read_next_chunk r))"
    "tcr_sound (snd (read_next_chunk r))"
    using assms opened ifs_sound_read [OF snd, of ?n] ifs_sound_read_eof [OF snd, of ?n]
    by (auto simp: read_next_chunk_def tcr_sound_def tcr_left_def tcr_csize_def Let_def
        case_prod_beta)
qed

interpretation tcr: chunk_source read_next_chunk m_eof tcr_left tcr_csize tcr_sound
proof unfold_locales
  fix r assume r: "tcr_sound r"
  show "fst (read_next_chunk r) = take (tcr_csize r) (tcr_left r)"
    "tcr_left (snd (read_next_chunk r)) = drop (tcr_csize r) (tcr_left r)"
    "tcr_sound (snd (read_next_chunk r))" "tcr_csize (snd (read_next_chunk r)) = tcr_csize r"
    by (rule read_next_chunk_sound [OF r])+
  show "m_eof (snd (read_next_chunk r))" if "fst (read_next_chunk r) = []"
    using read_next_chunk_sound(5) [OF r that] .
  show "0 < tcr_csize r" using r by (simp add: tcr_sound_def)
  show "tcr_left r = []" if "m_eof r"
    using that r by (simp add: tcr_sound_def)
qed

text \<open>A reader of a readable file: sound, and with the right number of chunks.\<close>

lemma ceiling_division:
  assumes "length xs < 2 ^ 63" "0 < unat csz" "unat csz < 2 ^ 63"
  shows "unat ((if sz xs = 0 then 0 else (sz xs + csz - 1) div csz) :: u64) =
         length (chunks_of (unat csz) xs)"
proof (cases "xs = []")
  case True
  then show ?thesis by simp
next
  case False
  have n: "unat (sz xs) = length xs" using assms(1) by (intro unat_sz) (simp add: fits_def)
  then have ne: "sz xs \<noteq> 0" using False by (metis length_0_conv unat_0)
  have add: "unat (sz xs + csz) = length xs + unat csz"
    using assms n by (simp add: unat_add_u64)
  then have "1 \<le> sz xs + csz" using assms(2) by (simp add: word_le_nat_alt)
  then have "unat (sz xs + csz - 1) = length xs + unat csz - 1"
    using add by (simp add: unat_sub)
  with ne assms(2) show ?thesis by (simp add: unat_div length_chunks_of)
qed

lemma tcr_new_readable:
  assumes "readable fs f content" "length content < 2 ^ 63" "0 < unat csz" "unat csz < 2 ^ 63"
  obtains r where "tcr_new fs f csz = Inr r" "tcr_sound r" "tcr_left r = content"
    "tcr_csize r = unat csz" "unat (m_total_chunks r) = length (chunks_of (unat csz) content)"
    "m_file_size r = sz content" "m_chunks_read_count r = 0"
proof -
  let ?s = "ifs_open fs f"
  have s: "?s = ifs_closed\<lparr>is_content := content, is_fault := (\<lambda>_. None), is_opened := True\<rparr>"
    using assms(1) by (rule ifs_open_readable)
  define total where "total = (if sz content = 0 then 0 else (sz content + csz - 1) div csz)"
  have nz: "csz \<noteq> 0" using assms(3) by auto
  have empty: "sz content = 0 \<longleftrightarrow> content = []"
    using assms(2) by (intro sz_eq_0_iff) (simp add: fits_def)
  define r where "r = \<lparr>m_file_stream = ?s, m_chunk_size = csz, m_file_size = sz content,
    m_total_chunks = total, m_chunks_read_count = 0, m_eof = (sz content = 0)\<rparr>"
  have "tcr_new fs f csz = Inr r"
    using nz by (auto simp: tcr_new_def s r_def total_def ifs_fail_def ifs_closed_def ifs_size_def Let_def)
  moreover have "tcr_sound r" "tcr_left r = content" "tcr_csize r = unat csz"
    using ifs_sound_open [OF assms(1)] s assms(3) empty
    by (auto simp: r_def tcr_sound_def tcr_left_def tcr_csize_def ifs_closed_def)
  moreover have "unat (m_total_chunks r) = length (chunks_of (unat csz) content)"
    using ceiling_division [OF assms(2-4)] by (simp add: r_def total_def)
  moreover have "m_file_size r = sz content" "m_chunks_read_count r = 0"
    by (simp_all add: r_def)
  ultimately show ?thesis by (rule that)
qed

section \<open>On any device\<close>

text \<open>
  What the reader does whatever the device does. A read that comes back short sets the end flag,
  whether the file ended there or the device failed, so all it delivers are the chunks of
  a prefix of the file.
\<close>

lemma read_next_chunk_any:
  assumes "read_next_chunk r = (data, r')"
  shows "tcr_left r = data @ tcr_left r'" "tcr_csize r' = tcr_csize r"
    "length data \<le> tcr_csize r" "length data < tcr_csize r \<Longrightarrow> m_eof r'"
proof -
  let ?n = "unat (m_chunk_size r)" and ?s = "m_file_stream r"
  show "tcr_csize r' = tcr_csize r" "length data < tcr_csize r \<Longrightarrow> m_eof r'" "length data \<le> tcr_csize r"
    using assms ifs_read_length [of ?n ?s]
    by (auto simp: read_next_chunk_def tcr_csize_def case_prod_beta Let_def split: if_splits)
  obtain q where q: "tcr_left r = fst (ifs_read ?n ?s) @ q"
    using ifs_read_prefix(2) [of ?s ?n] by (auto simp: tcr_left_def ifs_rest_def)
  moreover have "ifs_rest (snd (ifs_read ?n ?s)) = drop (length (fst (ifs_read ?n ?s))) (tcr_left r)"
    by (simp add: tcr_left_def ifs_rest_def ifs_read_prefix add.commute)
  ultimately show "tcr_left r = data @ tcr_left r'"
    using assms by (auto simp: read_next_chunk_def tcr_left_def case_prod_beta Let_def split: if_splits)
qed

lemma read_next_chunk_eof: "m_eof r \<Longrightarrow> read_next_chunk r = ([], r)"
  by (simp add: read_next_chunk_def)

lemma read_next_chunk_nothing:
  assumes "read_next_chunk r = ([], r')"
  shows "m_eof r'"
  using assms by (auto simp: read_next_chunk_def case_prod_beta Let_def split: if_splits)

interpretation tcrs: chunk_stream read_next_chunk tcr_left "\<lambda>_. True"
proof unfold_locales
  fix r
  show "tcr_left r = fst (read_next_chunk r) @ tcr_left (snd (read_next_chunk r))"
    by (rule read_next_chunk_any(1) [OF prod.collapse [symmetric]])
  show "fst (read_next_chunk (snd (read_next_chunk r))) = []" if "fst (read_next_chunk r) = []"
    using that read_next_chunk_nothing [of r "snd (read_next_chunk r)"]
    by (metis prod.collapse read_next_chunk_eof fst_conv)
qed (rule TrueI)

abbreviation tcr_delivered :: "tcp_chunk_reader \<Rightarrow> bytes list" where
  "tcr_delivered r \<equiv> deliveries read_next_chunk tcr_left r"

lemmas tcr_delivered_step = tcrs.deliveries_step [OF TrueI]
lemmas tcr_delivered_prefix = tcrs.deliveries_prefix [OF TrueI]

lemma tcr_delivered_eof: "m_eof r \<Longrightarrow> tcr_delivered r = []"
  using tcr_delivered_step [OF read_next_chunk_eof] by simp

lemma tcr_delivered_chunks:
  "0 < tcr_csize r \<Longrightarrow> tcr_delivered r = chunks_of (tcr_csize r) (concat (tcr_delivered r))"
proof (induction r rule: tcrs.deliveries_induct [OF TrueI])
  case (1 r r')
  then show ?case by (simp add: tcr_delivered_step)
next
  case (2 r d r')
  note any = read_next_chunk_any [OF 2(2)]
  have rest: "tcr_delivered r' = chunks_of (tcr_csize r) (concat (tcr_delivered r'))"
    using 2 any(2) by simp
  have step: "tcr_delivered r = d # tcr_delivered r'"
    using tcr_delivered_step [OF 2(2)] 2(3) by simp
  show ?case
  proof (cases "length d < tcr_csize r")
    case True
    with any(4) tcr_delivered_eof have "tcr_delivered r' = []" by blast
    with step True 2(3,5) show ?thesis by (simp add: chunks_of_step)
  next
    case False
    with any(3) have "length d = tcr_csize r" by simp
    with step rest 2(3,5) show ?thesis by (simp add: chunks_of_step)
  qed
qed

text \<open>A reader of any file that opens: how many chunks it announces, and what it will deliver.\<close>

lemma tcr_new_any:
  assumes "tcr_new fs f csz = Inr r" "fs_files fs f = Some content"
    and "length content < 2 ^ 63" "0 < unat csz" "unat csz < 2 ^ 63"
  shows "tcr_left r = content" "tcr_csize r = unat csz" "m_chunks_read_count r = 0"
    "m_file_size r = sz content"
    "unat (m_total_chunks r) = length (chunks_of (unat csz) content)"
    "length (tcr_delivered r) \<le> unat (m_total_chunks r)"
    "readable fs f content \<Longrightarrow> tcr_delivered r = chunks_of (unat csz) content"
proof -
  define chunks where "chunks = (if sz content = 0 then 0 else (sz content + csz - 1) div csz)"
  have r: "tcr_left r = content" "tcr_csize r = unat csz" "m_chunks_read_count r = 0"
    "m_file_size r = sz content" "m_total_chunks r = chunks"
    using assms(1,2)
    by (auto simp: tcr_new_def tcr_left_def tcr_csize_def ifs_open_def ifs_rest_def ifs_fail_def
        ifs_size_def ifs_closed_def chunks_def Let_def split: if_splits)
  then show "tcr_left r = content" "tcr_csize r = unat csz" "m_chunks_read_count r = 0"
    "m_file_size r = sz content" by simp_all
  show n: "unat (m_total_chunks r) = length (chunks_of (unat csz) content)"
    using ceiling_division [OF assms(3-5)] r(5) by (simp add: chunks_def)
  obtain q where "content = concat (tcr_delivered r) @ q"
    using tcr_delivered_prefix [of r] r(1) by auto
  then have "length (concat (tcr_delivered r)) \<le> length content" by simp
  then have "length (chunks_of (unat csz) (concat (tcr_delivered r))) \<le> length (chunks_of (unat csz) content)"
    using assms(4) by (simp add: length_chunks_of div_le_mono)
  then show "length (tcr_delivered r) \<le> unat (m_total_chunks r)"
    using tcr_delivered_chunks [of r] assms(4) r(2) n by simp
  assume "readable fs f content"
  from tcr_new_readable [OF this assms(3-5)] assms(1)
  show "tcr_delivered r = chunks_of (unat csz) content"
    using tcr.deliveries_chunks by (metis sum.inject(2))
qed

text \<open>
  A read error cuts the file short: the reader delivers everything up to the first error that
  strikes one of its reads, and nothing after it.
\<close>

lemma read_until_fault:
  assumes "is_opened (m_file_stream r)" "ifs_good (m_file_stream r)" "\<not> m_eof r" "0 < tcr_csize r"
    and "\<forall>j<i. is_fault (m_file_stream r) (is_pos (m_file_stream r) + j * tcr_csize r) = None"
    and "is_fault (m_file_stream r) (is_pos (m_file_stream r) + i * tcr_csize r) = Some k"
    and "k < tcr_csize r" "i * tcr_csize r + k \<le> length (tcr_left r)"
  shows "concat (tcr_delivered r) = take (i * tcr_csize r + k) (tcr_left r)"
  using assms
proof (induction i arbitrary: r)
  case 0
  define r' where "r' = snd (read_next_chunk r)"
  have d: "read_next_chunk r = (take k (tcr_left r), r')" "m_eof r'"
    using 0 by (auto simp: r'_def read_next_chunk_def tcr_left_def tcr_csize_def ifs_rest_def ifs_read_def
        ifs_good_def Let_def)
  show ?case using tcr_delivered_step [OF d(1)] tcr_delivered_eof [OF d(2)] by simp
next
  case (Suc i)
  let ?n = "tcr_csize r" and ?s = "m_file_stream r"
  define r' where "r' = snd (read_next_chunk r)"
  have none: "is_fault ?s (is_pos ?s) = None" using Suc.prems(5) by (metis add.right_neutral mult_0 zero_less_Suc)
  have len: "?n \<le> length (tcr_left r)" using Suc.prems(8) by simp
  have d: "read_next_chunk r = (take ?n (tcr_left r), r')"
    and r': "is_opened (m_file_stream r')" "ifs_good (m_file_stream r')" "\<not> m_eof r'"
      "tcr_csize r' = ?n" "is_fault (m_file_stream r') = is_fault ?s"
      "is_pos (m_file_stream r') = is_pos ?s + ?n" "tcr_left r' = drop ?n (tcr_left r)"
    using Suc.prems(1-4) none len
    by (auto simp: r'_def read_next_chunk_def tcr_left_def tcr_csize_def ifs_rest_def ifs_read_def
        ifs_good_def Let_def add.commute)
  have faults: "\<forall>j<i. is_fault ?s (is_pos ?s + ?n + j * ?n) = None"
  proof (intro allI impI)
    fix j assume "j < i"
    then show "is_fault ?s (is_pos ?s + ?n + j * ?n) = None"
      using Suc.prems(5) [rule_format, of "Suc j"] by (simp add: add.assoc)
  qed
  have "concat (tcr_delivered r') = take (i * ?n + k) (drop ?n (tcr_left r))"
    using Suc.IH [of r'] r' faults Suc.prems(4,6-8) by (simp add: add.assoc)
  moreover have "take ?n (tcr_left r) \<noteq> []" using Suc.prems(4) len by auto
  ultimately show ?case
    using tcr_delivered_step [OF d] by (simp add: take_add add.assoc)
qed

lemma tcr_new_until_fault:
  assumes "tcr_new fs f csz = Inr r" "fs_files fs f = Some content" "length content < 2 ^ 63" "0 < unat csz"
    and "\<forall>j<i. fs_read_fault fs f (j * unat csz) = None"
    and "fs_read_fault fs f (i * unat csz) = Some k" "k < unat csz"
    and "i * unat csz + k < length content"
  shows "concat (tcr_delivered r) = take (i * unat csz + k) content"
proof -
  have "sz content \<noteq> 0" using sz_eq_0_iff [of content] assms(3,8) by (auto simp: fits_def)
  then have "is_opened (m_file_stream r)" "ifs_good (m_file_stream r)" "\<not> m_eof r"
    "tcr_csize r = unat csz" "tcr_left r = content" "is_pos (m_file_stream r) = 0"
    "is_fault (m_file_stream r) = fs_read_fault fs f"
    using assms(1,2)
    by (auto simp: tcr_new_def tcr_left_def tcr_csize_def ifs_open_def ifs_rest_def ifs_fail_def
        ifs_size_def ifs_good_def ifs_closed_def Let_def split: if_splits)
  with read_until_fault [of r i k] assms(4-8) show ?thesis by simp
qed

text \<open>Enough calls bring the reader to its end.\<close>

lemma pull_to_eof: "length (tcr_left r) < k \<Longrightarrow> m_eof (snd (pull read_next_chunk k r))"
proof (induction k arbitrary: r)
  case (Suc k)
  obtain data r' where d: "read_next_chunk r = (data, r')" by fastforce
  show ?case
  proof (cases "data = []")
    case True
    with read_next_chunk_nothing d show ?thesis by simp
  next
    case False
    with Suc.prems tcrs.consumes(1) [OF TrueI d] have "length (tcr_left r') < k" by simp
    from Suc.IH [OF this] False d show ?thesis by (simp add: case_prod_beta)
  qed
qed simp

section \<open>Properties\<close>

text \<open>
  C35: a \<open>ChunkReader\<close> announces as many chunks as the file has. Reading until nothing comes gives, on any
  device, the chunks of a prefix of the file in order, and leaves the reader at its end; the prefix is
  the whole file when no read fails, and otherwise ends where the first failed read broke off.
\<close>

theorem tcp_reader_delivers_file:
  assumes "tcr_new fs f csz = Inr r" "fs_files fs f = Some content" "length content < 2 ^ 63"
    and "0 < unat csz" "unat csz < 2 ^ 63"
  shows "unat (m_total_chunks r) = length (chunks_of (unat csz) content) \<and>
         m_eof (snd (pull read_next_chunk (length content + 1) r)) \<and>
         (\<exists>p q. content = p @ q \<and> (readable fs f content \<longrightarrow> q = []) \<and>
            fst (pull read_next_chunk (length content + 1) r) = chunks_of (unat csz) p \<and>
            (\<forall>i k. (\<forall>j<i. fs_read_fault fs f (j * unat csz) = None) \<and>
               fs_read_fault fs f (i * unat csz) = Some k \<and> k < unat csz \<and>
               i * unat csz + k < length content \<longrightarrow> length p = i * unat csz + k))"
proof -
  note any = tcr_new_any [OF assms]
  let ?p = "concat (tcr_delivered r)"
  have pull: "fst (pull read_next_chunk (length content + 1) r) = chunks_of (unat csz) ?p"
    using tcr_delivered_chunks [of r] any(1,2) assms(4) by (simp add: deliveries_def)
  obtain q where q: "content = ?p @ q" using tcr_delivered_prefix [of r] any(1) by auto
  have "?p = content" if "readable fs f content"
    using any(7) [OF that] assms(4) by (simp add: concat_chunks_of)
  with q have "readable fs f content \<longrightarrow> q = []" by (metis append_Nil2 same_append_eq)
  moreover have "length ?p = i * unat csz + k"
    if "(\<forall>j<i. fs_read_fault fs f (j * unat csz) = None) \<and>
        fs_read_fault fs f (i * unat csz) = Some k \<and> k < unat csz \<and> i * unat csz + k < length content" for i k
    using tcr_new_until_fault [OF assms(1-4), of i k] that by simp
  moreover have "m_eof (snd (pull read_next_chunk (length content + 1) r))"
    using any(1) by (intro pull_to_eof) simp
  ultimately show ?thesis using any(5) pull q by blast
qed

lemma tcp_reader_delivers_file_witness:
  "\<exists>r. tcr_new (plain_fs ''f'' [1, 2, 3, 4, 5]) ''f'' 2 = Inr r \<and> unat (m_total_chunks r) = 3 \<and>
     fst (pull read_next_chunk (length [1, 2, 3, 4, 5 :: byte] + 1) r) = chunks_of 2 [1, 2, 3, 4, 5]"
proof -
  let ?fs = "plain_fs ''f'' [1, 2, 3, 4, 5]"
  have f: "fs_files ?fs ''f'' = Some [1, 2, 3, 4, 5]" "length [1, 2, 3, 4, 5 :: byte] < 2 ^ 63"
    "0 < unat (2 :: u64)" "unat (2 :: u64) < 2 ^ 63" by simp_all
  obtain r where r: "tcr_new ?fs ''f'' 2 = Inr r"
    using tcr_new_readable [OF plain_fs_simps(1) f(2-4)] by blast
  have "length (chunks_of 2 [1, 2, 3, 4, 5 :: byte]) = 3" by (simp add: chunks_of.simps)
  with tcp_reader_delivers_file [OF r f] r show ?thesis by (auto simp del: pull.simps)
qed

end
