(* ===== verification/Doubles.thy ===== *)
theory Doubles
  imports Complex_Main Prelude "HOL-Library.Log_Nat"
begin

text \<open>
  The \<open>double\<close> arithmetic of the metrics code. A double is the rational number it
  stands for, and every operation of the source is followed by the rounding IEEE 754
  binary64 applies: to 53 significant bits, ties to even. The exponent is not bounded:
  the values here come from 64-bit sizes and counts and a few constants, so no operation
  of the program leaves the normal range, and none produces an infinity or a NaN
  because the code tests every divisor first.

  \<open>rounding\<close> is the interface the metrics rely on (monotone, odd, exact on small
  integers); it is interpreted on the rounding function itself.
\<close>

section \<open>Rounding to an integer, ties to even\<close>

definition rne :: "rat \<Rightarrow> int" where
  "rne q = (let f = \<lfloor>q\<rfloor>; r = q - of_int f
            in if r < 1 / 2 then f else if 1 / 2 < r then f + 1
               else if even f then f else f + 1)"

lemma rne_bounds: "\<lfloor>q\<rfloor> \<le> rne q" "rne q \<le> \<lfloor>q\<rfloor> + 1"
  by (simp_all add: rne_def Let_def)

lemma rne_of_int [simp]: "rne (of_int n) = n"
  by (simp add: rne_def Let_def)

lemma rne_mono:
  assumes "x \<le> y"
  shows "rne x \<le> rne y"
proof (cases "\<lfloor>x\<rfloor> = \<lfloor>y\<rfloor>")
  case True
  with assms show ?thesis by (auto simp: rne_def Let_def)
next
  case False
  with floor_mono [OF assms] have "\<lfloor>x\<rfloor> + 1 \<le> \<lfloor>y\<rfloor>" by simp
  with rne_bounds [of x] rne_bounds [of y] show ?thesis by linarith
qed

lemma rne_error: "\<bar>of_int (rne q) - q\<bar> \<le> 1 / 2"
proof -
  have "0 \<le> q - of_int \<lfloor>q\<rfloor>" "q - of_int \<lfloor>q\<rfloor> < 1" by linarith+
  then show ?thesis by (simp add: rne_def Let_def abs_le_iff)
qed

section \<open>The binary exponent\<close>

definition lg :: "rat \<Rightarrow> int" where
  "lg q = (case quotient_of q of (n, d) \<Rightarrow>
     let k = bitlen n - bitlen d in if 2 powi k \<le> q then k else k - 1)"

lemma bitlen_powi: "0 < n \<Longrightarrow> (2::rat) powi (bitlen n - 1) \<le> of_int n"
  "0 < n \<Longrightarrow> of_int n < (2::rat) powi bitlen n"
proof -
  assume n: "0 < n"
  then have pos: "1 \<le> bitlen n"
    by (metis bitlen_eq_zero_iff bitlen_nonneg int_one_le_iff_zero_less leD order_le_less)
  from bitlen_bounds [OF n]
  have "of_int (2 ^ nat (bitlen n - 1)) \<le> (of_int n :: rat)"
    "of_int n < (of_int (2 ^ nat (bitlen n)) :: rat)"
    by (simp_all only: of_int_le_iff of_int_less_iff)
  with pos show "(2::rat) powi (bitlen n - 1) \<le> of_int n" "of_int n < (2::rat) powi bitlen n"
    by (simp_all add: power_int_nonneg_exp)
qed

lemma lg_bounds:
  assumes "0 < q"
  shows "2 powi lg q \<le> q" "q < 2 powi (lg q + 1)"
proof -
  obtain n d where nd: "quotient_of q = (n, d)" by fastforce
  then have d: "0 < d" by (rule quotient_of_denom_pos)
  have q: "q = of_int n / of_int d" using nd by (rule quotient_of_div)
  with assms d have n: "0 < n" by (simp add: zero_less_divide_iff)
  let ?k = "bitlen n - bitlen d"
  have "2 powi (?k - 1) = (2::rat) powi (bitlen n - 1) / 2 powi bitlen d"
    by (simp add: power_int_diff)
  also have "\<dots> \<le> of_int n / of_int d"
    using bitlen_powi [OF n] bitlen_powi [OF d] d n by (intro frac_le) auto
  finally have lo: "2 powi (?k - 1) \<le> q" by (simp add: q)
  have "q < 2 powi bitlen n / 2 powi (bitlen d - 1)"
    unfolding q using bitlen_powi [OF n] bitlen_powi [OF d] d n by (intro frac_less) auto
  also have "\<dots> = 2 powi (?k + 1)"
    by (simp add: power_int_diff power_int_add field_simps)
  finally have hi: "q < 2 powi (?k + 1)" .
  show "2 powi lg q \<le> q" "q < 2 powi (lg q + 1)"
    using lo hi by (simp_all add: lg_def nd Let_def)
qed

lemma lg_mono:
  assumes "0 < x" "x \<le> y"
  shows "lg x \<le> lg y"
proof (rule ccontr)
  assume "\<not> lg x \<le> lg y"
  then have "(2::rat) powi (lg y + 1) \<le> 2 powi lg x"
    by (intro power_int_increasing) auto
  with lg_bounds [of x] lg_bounds [of y] assms show False by linarith
qed

section \<open>Rounding to 53 bits\<close>

definition b64 :: "rat \<Rightarrow> rat" where
  "b64 q = (if q = 0 then 0
            else let u = 2 powi (lg \<bar>q\<bar> - 52) in of_int (rne (\<bar>q\<bar> / u)) * u * sgn q)"

lemma b64_0 [simp]: "b64 0 = 0"
  by (simp add: b64_def)

lemma b64_pos: "0 < q \<Longrightarrow> b64 q = of_int (rne (q / 2 powi (lg q - 52))) * 2 powi (lg q - 52)"
  by (simp add: b64_def Let_def)

lemma b64_minus [simp]: "b64 (- q) = - b64 q"
  by (simp add: b64_def Let_def)

lemma b64_in_binade:
  assumes "0 < q"
  shows "2 powi lg q \<le> b64 q" "b64 q \<le> 2 powi (lg q + 1)"
proof -
  let ?u = "2 powi (lg q - 52) :: rat"
  have u: "0 < ?u" by simp
  have lo: "of_int (2 ^ 52) \<le> q / ?u" and hi: "q / ?u \<le> of_int (2 ^ 53)"
    using lg_bounds [OF assms] u
    by (simp_all add: power_int_diff power_int_add field_simps)
  have "2 ^ 52 \<le> rne (q / ?u)" "rne (q / ?u) \<le> 2 ^ 53"
    using rne_mono [OF lo] rne_mono [OF hi] by (simp_all only: rne_of_int)
  then have "of_int (2 ^ 52) \<le> (of_int (rne (q / ?u)) :: rat)"
    "(of_int (rne (q / ?u)) :: rat) \<le> of_int (2 ^ 53)"
    by (simp_all only: of_int_le_iff)
  then have "of_int (2 ^ 52) * ?u \<le> of_int (rne (q / ?u)) * ?u"
    "of_int (rne (q / ?u)) * ?u \<le> of_int (2 ^ 53) * ?u"
    using u by (auto intro: mult_right_mono)
  then show "2 powi lg q \<le> b64 q" "b64 q \<le> 2 powi (lg q + 1)"
    by (simp_all add: b64_pos [OF assms] power_int_diff power_int_add)
qed

lemma b64_pos_mono:
  assumes "0 < x" "x \<le> y"
  shows "b64 x \<le> b64 y"
proof (cases "lg x = lg y")
  case True
  let ?u = "2 powi (lg y - 52) :: rat"
  have "rne (x / ?u) \<le> rne (y / ?u)"
    using assms by (intro rne_mono divide_right_mono) auto
  with assms True show ?thesis by (simp add: b64_pos)
next
  case False
  with lg_mono [OF assms] have "(2::rat) powi (lg x + 1) \<le> 2 powi lg y"
    by (intro power_int_increasing) auto
  with b64_in_binade [of x] b64_in_binade [of y] assms show ?thesis by linarith
qed

lemma b64_pos_gt: "0 < q \<Longrightarrow> 0 < b64 q"
  using b64_in_binade(1) [of q] by (meson less_le_trans zero_less_power_int zero_less_numeral)

lemma b64_mono:
  assumes "x \<le> y"
  shows "b64 x \<le> b64 y"
proof -
  consider "0 < x" | "x = 0" | "x < 0" "0 \<le> y" | "y < 0" using assms by linarith
  then show ?thesis
  proof cases
    case 1
    then show ?thesis using assms by (rule b64_pos_mono)
  next
    case 2
    then show ?thesis using assms b64_pos_gt [of y] by (cases "y = 0") auto
  next
    case 3
    then show ?thesis
      using b64_pos_gt [of "- x"] b64_pos_gt [of y] by (cases "y = 0") auto
  next
    case 4
    then show ?thesis using b64_pos_mono [of "- y" "- x"] assms by simp
  qed
qed

lemma powi2_lessD: "(2::rat) powi a < 2 powi b \<Longrightarrow> a < b"
  using power_int_increasing [of b a "2 :: rat"] by force

lemma lg_unique:
  assumes "2 powi k \<le> q" "q < 2 powi (k + 1)"
  shows "lg q = k"
proof -
  have q: "0 < q" using assms(1) by (meson less_le_trans zero_less_power_int zero_less_numeral)
  have "(2::rat) powi (lg q) < 2 powi (k + 1)" "(2::rat) powi k < 2 powi (lg q + 1)"
    using lg_bounds [OF q] assms by linarith+
  then have "lg q < k + 1" "k < lg q + 1"
    by (auto dest!: powi2_lessD)
  then show ?thesis by simp
qed

lemma b64_integral:
  assumes "0 < q" "q / 2 powi (lg q - 52) = of_int m"
  shows "b64 q = q"
proof -
  have "q = of_int m * 2 powi (lg q - 52)"
    using assms(2) by (simp add: field_simps)
  with assms show ?thesis by (simp add: b64_pos)
qed

lemma b64_exact_pos:
  assumes "0 < n" "n \<le> 2 ^ 53"
  shows "b64 (of_int n * 2 powi k) = of_int n * 2 powi k"
proof -
  let ?q = "of_int n :: rat"
  have n: "0 < ?q" using assms by simp
  have "lg (?q * 2 powi k) = lg ?q + k"
    using lg_bounds [OF n] by (intro lg_unique) (simp_all add: power_int_add field_simps)
  then have eq: "?q * 2 powi k / 2 powi (lg (?q * 2 powi k) - 52) = ?q * 2 powi (52 - lg ?q)"
    by (simp add: power_int_diff power_int_add)
  have "\<exists>m. ?q * 2 powi (52 - lg ?q) = of_int m"
  proof (cases "n = 2 ^ 53")
    case True
    have "lg ?q = 53"
      by (rule lg_unique) (simp_all add: True power_int_def)
    then have "?q * 2 powi (52 - lg ?q) = of_int (2 ^ 52)"
      by (simp add: True)
    then show ?thesis ..
  next
    case False
    with assms have "?q < of_int (2 ^ 53)"
      by (simp only: of_int_less_iff)
    with lg_bounds(1) [OF n] have "(2::rat) powi lg ?q < 2 powi 53" by simp
    then have "lg ?q < 53" by (rule powi2_lessD)
    then have "lg ?q \<le> 52" by simp
    then have "?q * 2 powi (52 - lg ?q) = of_int (n * 2 ^ nat (52 - lg ?q))"
      by (simp add: power_int_nonneg_exp)
    then show ?thesis ..
  qed
  then obtain m where "?q * 2 powi (52 - lg ?q) = of_int m" ..
  with eq n show ?thesis by (intro b64_integral) auto
qed

lemma b64_exact:
  assumes "\<bar>n\<bar> \<le> 2 ^ 53"
  shows "b64 (of_int n * 2 powi k) = of_int n * 2 powi k"
  using b64_exact_pos [of n k] b64_exact_pos [of "- n" k] assms
  by (cases n "0 :: int" rule: linorder_cases) auto

lemma b64_of_int: "\<bar>n\<bar> \<le> 2 ^ 53 \<Longrightarrow> b64 (of_int n) = of_int n"
  using b64_exact [of n 0] by simp

section \<open>The operations of the code\<close>

text \<open>
  A conversion \<open>static_cast<double>\<close> of an integer and the four operations, each
  rounded once. Division is only modelled where the code has tested the divisor.
\<close>

definition d_of_int :: "int \<Rightarrow> rat" where
  "d_of_int n = b64 (of_int n)"

definition d_of_u64 :: "u64 \<Rightarrow> rat" where
  "d_of_u64 n = b64 (of_nat (unat n))"

definition dadd :: "rat \<Rightarrow> rat \<Rightarrow> rat" where
  "dadd a b = b64 (a + b)"

definition dsub :: "rat \<Rightarrow> rat \<Rightarrow> rat" where
  "dsub a b = b64 (a - b)"

definition dmul :: "rat \<Rightarrow> rat \<Rightarrow> rat" where
  "dmul a b = b64 (a * b)"

definition ddiv :: "rat \<Rightarrow> rat \<Rightarrow> rat" where
  "ddiv a b = b64 (a / b)"

text \<open>
  \<open>std::sqrt\<close>, correctly rounded: the integer square root of the argument scaled to
  108 or more bits gives more than 53 bits of the root, and a sticky bit records
  whether the root is exact.
\<close>

function isqrt :: "int \<Rightarrow> int" where
  "isqrt n = (if n \<le> 0 then 0
              else let r = 2 * isqrt (n div 4) in if (r + 1) * (r + 1) \<le> n then r + 1 else r)"
  by pat_completeness auto
termination
  by (relation "measure nat") auto

declare isqrt.simps [simp del]

lemma isqrt_bounds:
  "0 \<le> n \<Longrightarrow> 0 \<le> isqrt n \<and> isqrt n * isqrt n \<le> n \<and> n < (isqrt n + 1) * (isqrt n + 1)"
proof (induction n rule: isqrt.induct)
  case (1 n)
  show ?case
  proof (cases "n = 0")
    case True
    then show ?thesis by (simp add: isqrt.simps)
  next
    case False
    let ?s = "isqrt (n div 4)"
    from 1 False have s: "0 \<le> ?s" "?s * ?s \<le> n div 4" "n div 4 < (?s + 1) * (?s + 1)" by auto
    then have "4 * (?s * ?s) \<le> n" "n < 4 * ((?s + 1) * (?s + 1))" by linarith+
    then have "(2 * ?s) * (2 * ?s) \<le> n" "n < (2 * ?s + 2) * (2 * ?s + 2)"
      by (simp_all add: algebra_simps)
    with False s(1) "1.prems" show ?thesis
      by (simp add: isqrt.simps [of n] Let_def algebra_simps)
  qed
qed

definition dsqrt :: "rat \<Rightarrow> rat" where
  "dsqrt q = (if q \<le> 0 then 0
              else let k = 54 - lg q div 2;
                       r = isqrt \<lfloor>q * 4 powi k\<rfloor>;
                       sticky = (if of_int (r * r) = q * 4 powi k then 0 else 1)
                   in b64 (of_int (2 * r + sticky) / 2 powi (k + 1)))"

section \<open>The interface the metrics rely on\<close>

locale rounding =
  fixes rnd :: "rat \<Rightarrow> rat"
  assumes rnd_mono: "x \<le> y \<Longrightarrow> rnd x \<le> rnd y"
    and rnd_zero: "rnd 0 = 0"
    and rnd_small_int: "\<bar>n\<bar> \<le> 2 ^ 53 \<Longrightarrow> rnd (of_int n) = of_int n"
begin

lemma rnd_nonneg: "0 \<le> x \<Longrightarrow> 0 \<le> rnd x"
  using rnd_mono [of 0 x] by (simp add: rnd_zero)

lemma rnd_quotient_mono: "x \<le> y \<Longrightarrow> 0 < c \<Longrightarrow> rnd (x / c) \<le> rnd (y / c)"
  by (rule rnd_mono) (simp add: divide_right_mono)

lemma rnd_mean_ge:
  assumes "0 < n" "n * m \<le> s" "\<bar>m\<bar> \<le> 2 ^ 53" "\<bar>s\<bar> \<le> 2 ^ 53" "n \<le> 2 ^ 53"
  shows "rnd (of_int m) \<le> rnd (rnd (of_int s) / rnd (of_int n))"
proof -
  have "of_int (n * m) \<le> (of_int s :: rat)" using assms(2) by (simp only: of_int_le_iff)
  with assms(1) have "(of_int m :: rat) \<le> of_int s / of_int n"
    by (simp add: field_simps)
  then have "rnd (of_int m) \<le> rnd (of_int s / of_int n)" by (rule rnd_mono)
  with assms show ?thesis by (simp add: rnd_small_int)
qed

lemma rnd_mean_le:
  assumes "0 < n" "s \<le> n * m" "\<bar>m\<bar> \<le> 2 ^ 53" "\<bar>s\<bar> \<le> 2 ^ 53" "n \<le> 2 ^ 53"
  shows "rnd (rnd (of_int s) / rnd (of_int n)) \<le> rnd (of_int m)"
proof -
  have "(of_int s :: rat) \<le> of_int (n * m)" using assms(2) by (simp only: of_int_le_iff)
  with assms(1) have "of_int s / of_int n \<le> (of_int m :: rat)"
    by (simp add: field_simps)
  then have "rnd (of_int s / of_int n) \<le> rnd (of_int m)" by (rule rnd_mono)
  with assms show ?thesis by (simp add: rnd_small_int)
qed

end

interpretation ieee: rounding b64
  by unfold_locales (auto intro: b64_mono b64_of_int)

end
