(* ===== verification/Text_Format.thy ===== *)
theory Text_Format
  imports Doubles
begin

text \<open>
  The text the programs produce: \<open>std::to_string\<close> and \<open>operator<<\<close> of integers,
  \<open>std::fixed << std::setprecision(p)\<close> of doubles, and lines of comma-separated
  fields. Decimal printing is shown to be inverted by the obvious reader, and to
  contain neither a comma nor a line break, which is what makes the CSV files
  readable again.
\<close>

section \<open>Integers in decimal\<close>

definition digit :: "nat \<Rightarrow> char" where
  "digit d = char_of (48 + d)"

fun nat_to_dec :: "nat \<Rightarrow> string" where
  "nat_to_dec n = (if n < 10 then [digit n] else nat_to_dec (n div 10) @ [digit (n mod 10)])"

declare nat_to_dec.simps [simp del]

definition int_to_dec :: "int \<Rightarrow> string" where
  "int_to_dec i = (if i < 0 then CHR ''-'' # nat_to_dec (nat (- i)) else nat_to_dec (nat i))"

definition u64_to_dec :: "u64 \<Rightarrow> string" where
  "u64_to_dec w = nat_to_dec (unat w)"

definition dec_to_nat :: "string \<Rightarrow> nat" where
  "dec_to_nat s = foldl (\<lambda>acc c. 10 * acc + (of_char c - 48)) 0 s"

definition dec_to_int :: "string \<Rightarrow> int" where
  "dec_to_int s = (case s of c # s' \<Rightarrow> if c = CHR ''-'' then - int (dec_to_nat s')
                                        else int (dec_to_nat s) | [] \<Rightarrow> 0)"

lemma of_char_digit: "d < 10 \<Longrightarrow> of_char (digit d) = (48 + d :: nat)"
  by (simp add: digit_def of_char_of)

lemma dec_to_nat_snoc: "dec_to_nat (s @ [c]) = 10 * dec_to_nat s + (of_char c - 48)"
  by (simp add: dec_to_nat_def)

lemma dec_to_nat_to_dec [simp]: "dec_to_nat (nat_to_dec n) = n"
proof (induction n rule: nat_to_dec.induct)
  case (1 n)
  show ?case
  proof (cases "n < 10")
    case True
    then show ?thesis by (simp add: nat_to_dec.simps [of n] dec_to_nat_def of_char_digit)
  next
    case False
    with 1 show ?thesis
      by (simp add: nat_to_dec.simps [of n] dec_to_nat_snoc of_char_digit)
  qed
qed

lemma nat_to_dec_digits: "c \<in> set (nat_to_dec n) \<Longrightarrow> \<exists>d<10. c = digit d"
proof (induction n rule: nat_to_dec.induct)
  case (1 n)
  show ?case
  proof (cases "n < 10")
    case True
    with "1.prems" show ?thesis by (auto simp: nat_to_dec.simps [of n])
  next
    case False
    with "1.prems" have "c \<in> set (nat_to_dec (n div 10)) \<or> c = digit (n mod 10)"
      by (auto simp: nat_to_dec.simps [of n])
    moreover have "n mod 10 < 10" by simp
    ultimately show ?thesis using "1.IH" [OF False] by blast
  qed
qed

lemma nat_to_dec_not_Nil [simp]: "nat_to_dec n \<noteq> []"
  by (subst nat_to_dec.simps) simp

lemma digit_neq:
  assumes "d < 10" "of_char c < (48::nat) \<or> 57 < (of_char c :: nat)"
  shows "digit d \<noteq> c"
  using assms of_char_digit [of d] by auto

lemma nat_to_dec_no_sep:
  "CHR '','' \<notin> set (nat_to_dec n)" "CHR 0x0A \<notin> set (nat_to_dec n)" "CHR ''-'' \<notin> set (nat_to_dec n)"
  by (auto dest!: nat_to_dec_digits simp: digit_neq [symmetric])

lemma int_to_dec_no_sep [simp]:
  "CHR '','' \<notin> set (int_to_dec i)" "CHR 0x0A \<notin> set (int_to_dec i)"
  by (simp_all add: int_to_dec_def nat_to_dec_no_sep)

lemma u64_to_dec_no_sep [simp]:
  "CHR '','' \<notin> set (u64_to_dec w)" "CHR 0x0A \<notin> set (u64_to_dec w)"
  by (simp_all add: u64_to_dec_def nat_to_dec_no_sep)

lemma dec_to_int_to_dec [simp]: "dec_to_int (int_to_dec i) = i"
proof (cases "i < 0")
  case True
  then show ?thesis by (simp add: int_to_dec_def dec_to_int_def)
next
  case False
  obtain c s where cs: "nat_to_dec (nat i) = c # s"
    by (meson list.exhaust nat_to_dec_not_Nil)
  with nat_to_dec_no_sep(3) [of "nat i"] have "c \<noteq> CHR ''-''" by auto
  moreover have "dec_to_nat (c # s) = nat i"
    using dec_to_nat_to_dec [of "nat i"] by (simp only: cs)
  ultimately show ?thesis using False cs
    by (simp add: int_to_dec_def dec_to_int_def)
qed

section \<open>Doubles with a fixed number of decimals\<close>

definition pad_left :: "nat \<Rightarrow> string \<Rightarrow> string" where
  "pad_left p s = replicate (p - length s) (CHR ''0'') @ s"

definition fixed_dec :: "nat \<Rightarrow> rat \<Rightarrow> string" where
  "fixed_dec p q =
     (let m = nat (rne (\<bar>q\<bar> * 10 ^ p))
      in (if q < 0 then ''-'' else '''') @ nat_to_dec (m div 10 ^ p) @ ''.''
         @ pad_left p (nat_to_dec (m mod 10 ^ p)))"

section \<open>Lines and fields\<close>

fun join :: "char \<Rightarrow> string list \<Rightarrow> string" where
  "join c [] = []"
| "join c [f] = f"
| "join c (f # fs) = f @ c # join c fs"

definition csv_line :: "string list \<Rightarrow> string" where
  "csv_line fs = join (CHR '','') fs @ [CHR 0x0A]"

fun split_at :: "char \<Rightarrow> string \<Rightarrow> string list" where
  "split_at c [] = [[]]"
| "split_at c (x # xs) =
     (if x = c then [] # split_at c xs
      else case split_at c xs of [] \<Rightarrow> [[x]] | h # t \<Rightarrow> (x # h) # t)"

text \<open>Reading back: the fields of a line, and the lines of a file that ends in a line break.\<close>

definition csv_rows :: "string \<Rightarrow> string list list" where
  "csv_rows s = map (split_at (CHR '','')) (butlast (split_at (CHR 0x0A) s))"

lemma split_at_not_Nil [simp]: "split_at c s \<noteq> []"
  by (induction s) (auto split: list.splits)

lemma split_at_whole: "c \<notin> set f \<Longrightarrow> split_at c f = [f]"
  by (induction f) auto

lemma split_at_step: "c \<notin> set f \<Longrightarrow> split_at c (f @ c # r) = f # split_at c r"
  by (induction f) auto

lemma split_at_join:
  "fs \<noteq> [] \<Longrightarrow> (\<And>f. f \<in> set fs \<Longrightarrow> c \<notin> set f) \<Longrightarrow> split_at c (join c fs) = fs"
proof (induction c fs rule: join.induct)
  case (3 c f f' fs)
  then have "split_at c (join c (f' # fs)) = f' # fs" by auto
  with 3 show ?case by (simp add: split_at_step)
qed (auto simp: split_at_whole)

lemma set_join: "set (join c fs) \<subseteq> insert c (\<Union>(set ` set fs))"
  by (induction c fs rule: join.induct) auto

definition plain_field :: "string \<Rightarrow> bool" where
  "plain_field f \<longleftrightarrow> CHR '','' \<notin> set f \<and> CHR 0x0A \<notin> set f"

lemma plain_field_numbers [simp]:
  "plain_field (int_to_dec i)" "plain_field (u64_to_dec w)" "plain_field (nat_to_dec n)"
  by (simp_all add: plain_field_def nat_to_dec_no_sep)

lemma csv_rows_step:
  assumes "fs \<noteq> []" "list_all plain_field fs"
  shows "csv_rows (csv_line fs @ r) = fs # csv_rows r"
proof -
  have "CHR 0x0A \<notin> set (join (CHR '','') fs)"
    using assms(2) set_join [of "CHR '',''" fs] by (auto simp: list_all_iff plain_field_def)
  then have "split_at (CHR 0x0A) (csv_line fs @ r) = join (CHR '','') fs # split_at (CHR 0x0A) r"
    by (simp add: csv_line_def split_at_step)
  moreover have "split_at (CHR '','') (join (CHR '','') fs) = fs"
    using assms by (intro split_at_join) (auto simp: list_all_iff plain_field_def)
  ultimately show ?thesis by (simp add: csv_rows_def)
qed

lemma csv_rows_Nil [simp]: "csv_rows [] = []"
  by (simp add: csv_rows_def)

lemma csv_rows_lines:
  "(\<And>fs. fs \<in> set ls \<Longrightarrow> fs \<noteq> [] \<and> list_all plain_field fs) \<Longrightarrow>
   csv_rows (concat (map csv_line ls)) = ls"
  by (induction ls) (auto simp: csv_rows_step)

end
