(* ===== verification/Rtt_Stats.thy ===== *)
theory Rtt_Stats
  imports Doubles
begin

text \<open>
  The standard algorithms both metrics aggregators apply to their round-trip times:
  \<open>std::accumulate\<close>, \<open>std::min_element\<close> and \<open>std::max_element\<close>, and what the mean computed in
  \<open>double\<close> arithmetic keeps of the order between minimum, mean and maximum.
\<close>

definition accumulate :: "int list \<Rightarrow> int" where
  "accumulate xs = foldl (+) 0 xs"

definition min_element :: "int list \<Rightarrow> int" where
  "min_element xs = foldl (\<lambda>least x. if x < least then x else least) (hd xs) (tl xs)"

definition max_element :: "int list \<Rightarrow> int" where
  "max_element xs = foldl (\<lambda>greatest x. if greatest < x then x else greatest) (hd xs) (tl xs)"

lemma foldl_plus: "foldl (+) a xs = a + sum_list (xs :: int list)"
  by (induction xs arbitrary: a) simp_all

lemma accumulate_sum_list: "accumulate xs = sum_list xs"
  by (simp add: accumulate_def foldl_plus)

lemma foldl_least:
  "foldl (\<lambda>least x. if x < least then x else least) a xs = Min (insert (a :: int) (set xs))"
proof (induction xs arbitrary: a)
  case (Cons x xs)
  then show ?case
    by (cases "xs = []") (auto simp: Min.insert_remove insert_commute min_def)
qed simp

lemma foldl_greatest:
  "foldl (\<lambda>greatest x. if greatest < x then x else greatest) a xs = Max (insert (a :: int) (set xs))"
proof (induction xs arbitrary: a)
  case (Cons x xs)
  then show ?case
    by (cases "xs = []") (auto simp: Max.insert_remove insert_commute max_def)
qed simp

lemma min_element_Min: "xs \<noteq> [] \<Longrightarrow> min_element xs = Min (set xs)"
  by (cases xs) (simp_all add: min_element_def foldl_least)

lemma max_element_Max: "xs \<noteq> [] \<Longrightarrow> max_element xs = Max (set xs)"
  by (cases xs) (simp_all add: max_element_def foldl_greatest)

lemma sum_list_between:
  "(\<And>x. x \<in> set xs \<Longrightarrow> lo \<le> x \<and> x \<le> (hi :: int)) \<Longrightarrow>
   int (length xs) * lo \<le> sum_list xs \<and> sum_list xs \<le> int (length xs) * hi"
  by (induction xs) (auto simp: algebra_simps, fastforce+)

lemma accumulate_between:
  assumes "xs \<noteq> []"
  shows "int (length xs) * min_element xs \<le> accumulate xs"
    and "accumulate xs \<le> int (length xs) * max_element xs"
  using sum_list_between [of xs "Min (set xs)" "Max (set xs)"] assms
  by (simp_all add: accumulate_sum_list min_element_Min max_element_Max)

text \<open>Times that are exactly representable, and whose sum is.\<close>

definition rtt_range :: "int list \<Rightarrow> bool" where
  "rtt_range xs \<longleftrightarrow> length xs \<le> 2 ^ 53 \<and> \<bar>accumulate xs\<bar> \<le> 2 ^ 53 \<and>
     list_all (\<lambda>x. \<bar>x\<bar> \<le> 2 ^ 53) xs"

definition rtt_mean_ms :: "int list \<Rightarrow> rat" where
  "rtt_mean_ms xs = ddiv (ddiv (d_of_int (accumulate xs)) (d_of_u64 (sz xs))) 1000"

lemma mean_between:
  assumes "xs \<noteq> []" "rtt_range xs"
  shows "ddiv (d_of_int (min_element xs)) 1000 \<le> rtt_mean_ms xs"
    and "rtt_mean_ms xs \<le> ddiv (d_of_int (max_element xs)) 1000"
proof -
  let ?n = "int (length xs)"
  have n: "0 < ?n" "?n \<le> 2 ^ 53" and s: "\<bar>accumulate xs\<bar> \<le> 2 ^ 53"
    using assms by (auto simp: rtt_range_def)
  have "length xs < 2 ^ 64" using assms(2) by (simp add: rtt_range_def)
  then have dn: "d_of_u64 (sz xs) = b64 (of_int ?n)"
    by (simp add: d_of_u64_def unat_sz fits_def)
  have "min_element xs \<in> set xs" "max_element xs \<in> set xs"
    using assms(1) by (simp_all add: min_element_Min max_element_Max)
  then have m: "\<bar>min_element xs\<bar> \<le> 2 ^ 53" "\<bar>max_element xs\<bar> \<le> 2 ^ 53"
    using assms(2) by (simp_all add: rtt_range_def list_all_iff)
  from ieee.rnd_mean_ge [OF n(1) accumulate_between(1) [OF assms(1)] m(1) s n(2)]
    ieee.rnd_mean_le [OF n(1) accumulate_between(2) [OF assms(1)] m(2) s n(2)]
  have "d_of_int (min_element xs) \<le> ddiv (d_of_int (accumulate xs)) (d_of_u64 (sz xs))"
    "ddiv (d_of_int (accumulate xs)) (d_of_u64 (sz xs)) \<le> d_of_int (max_element xs)"
    by (simp_all add: d_of_int_def ddiv_def dn)
  then show "ddiv (d_of_int (min_element xs)) 1000 \<le> rtt_mean_ms xs"
    "rtt_mean_ms xs \<le> ddiv (d_of_int (max_element xs)) 1000"
    unfolding rtt_mean_ms_def by (auto simp: ddiv_def intro!: ieee.rnd_quotient_mono)
qed

end
