(* ===== verification/Tcp_Metrics.thy ===== *)
theory Tcp_Metrics
  imports File_Streams Text_Format Rtt_Stats
begin

text \<open>
  \<open>MetricsAggregator\<close> of the TCP benchmark
  (GO++PROJECT/src/cpp_tcp_benchmark/common/src/metrics_aggregator.cpp), Linux branch. Clock
  readings are arguments (nanoseconds of \<open>steady_clock\<close>, whose default time point is 0), and
  so is what \<open>/proc/self\<close> and \<open>sysconf\<close> say at that moment. The CSV files are
  modelled to the character.
\<close>

section \<open>State\<close>

record chunk_rtt_info =
  chunk_index :: u64
  rtt_us :: int
  chunk_size_bytes :: u64
  verified :: bool

record proc_stat_info =
  utime :: u64
  stime :: u64

record proc_env =
  proc_stat_text :: "string option"
  proc_status_text :: "string option"
  clk_tck :: int

record tcp_metrics =
  m_protocol_name :: string
  m_total_file_size_expected :: u64
  m_chunk_size_expected :: u64
  m_start_time :: int
  m_end_time :: int
  m_timer_running :: bool
  m_current_chunk_rtt_start_time :: int
  m_total_bytes_processed :: u64
  m_verified_chunks_count :: u64
  m_processed_chunks_count :: u64
  m_chunk_rtt_data :: "chunk_rtt_info list"
  m_resource_monitoring_enabled :: bool
  m_resource_monitor_start_time :: int
  m_cpu_stat_start :: proc_stat_info
  m_avg_cpu_usage_percent :: rat
  m_peak_memory_kb :: int
  m_resource_monitoring_active :: bool

definition ENABLE_CLIENT_RESOURCE_MONITORING :: bool where
  "ENABLE_CLIENT_RESOURCE_MONITORING = True"

definition tm_new :: "string \<Rightarrow> u64 \<Rightarrow> u64 \<Rightarrow> tcp_metrics" where
  "tm_new protocol_name total_file_size_expected chunk_size_expected =
     \<lparr>m_protocol_name = protocol_name,
      m_total_file_size_expected = total_file_size_expected,
      m_chunk_size_expected = chunk_size_expected,
      m_start_time = 0, m_end_time = 0, m_timer_running = False,
      m_current_chunk_rtt_start_time = 0,
      m_total_bytes_processed = 0, m_verified_chunks_count = 0, m_processed_chunks_count = 0,
      m_chunk_rtt_data = [],
      m_resource_monitoring_enabled = ENABLE_CLIENT_RESOURCE_MONITORING,
      m_resource_monitor_start_time = 0, m_cpu_stat_start = \<lparr>utime = 0, stime = 0\<rparr>,
      m_avg_cpu_usage_percent = 0, m_peak_memory_kb = 0,
      m_resource_monitoring_active = False\<rparr>"

section \<open>Extraction from a text stream\<close>

text \<open>
  \<open>ss >> word\<close> and \<open>ss >> n\<close> for an unsigned \<open>n\<close> on a string stream: leading white space
  is skipped; a number is an optional sign and the longest run of digits, clamped when it
  does not fit; \<open>None\<close> is a stream that has failed, which later extractions leave alone.
\<close>

definition is_ws :: "char \<Rightarrow> bool" where
  "is_ws c \<longleftrightarrow> c \<in> {CHR '' '', CHR 0x09, CHR 0x0A, CHR 0x0B, CHR 0x0C, CHR 0x0D}"

definition is_dec :: "char \<Rightarrow> bool" where
  "is_dec c \<longleftrightarrow> 48 \<le> (of_char c :: nat) \<and> (of_char c :: nat) \<le> 57"

definition extract_word :: "string \<Rightarrow> (string \<times> string) option" where
  "extract_word s =
     (let t = dropWhile is_ws s
      in if t = [] then None
         else Some (takeWhile (\<lambda>c. \<not> is_ws c) t, dropWhile (\<lambda>c. \<not> is_ws c) t))"

fun skip_words :: "nat \<Rightarrow> string \<Rightarrow> string option" where
  "skip_words 0 s = Some s"
| "skip_words (Suc n) s =
     (case extract_word s of None \<Rightarrow> None | Some (w, r) \<Rightarrow> skip_words n r)"

definition sign_digits :: "string \<Rightarrow> bool \<times> string \<times> string" where
  "sign_digits t =
     (let neg = (t \<noteq> [] \<and> hd t = CHR ''-'');
          u = (if t \<noteq> [] \<and> (hd t = CHR ''-'' \<or> hd t = CHR ''+'') then tl t else t)
      in (neg, takeWhile is_dec u, dropWhile is_dec u))"

text \<open>The value stored, and the rest of the stream unless the extraction failed.\<close>

definition extract_ull :: "string \<Rightarrow> u64 \<times> string option" where
  "extract_ull s =
     (case sign_digits (dropWhile is_ws s) of (neg, ds, r) \<Rightarrow>
        if ds = [] then (0, None)
        else if 2 ^ 64 \<le> dec_to_nat ds then (- 1, None)
        else (if neg then - of_nat (dec_to_nat ds) else of_nat (dec_to_nat ds), Some r))"

text \<open>\<open>std::stol\<close>: \<open>None\<close> when it throws.\<close>

definition stol :: "string \<Rightarrow> int option" where
  "stol s =
     (case sign_digits (dropWhile is_ws s) of (neg, ds, r) \<Rightarrow>
        let v = (if neg then - int (dec_to_nat ds) else int (dec_to_nat ds))
        in if ds = [] \<or> v < - (2 ^ 63) \<or> 2 ^ 63 \<le> v then None else Some v)"

section \<open>Resource readings\<close>

definition get_clk_tck :: "proc_env \<Rightarrow> int" where
  "get_clk_tck env = clk_tck env"

definition get_proc_stat :: "proc_env \<Rightarrow> proc_stat_info" where
  "get_proc_stat env =
     (let stat_info = \<lparr>utime = 0, stime = 0\<rparr>
      in case proc_stat_text env of
           None \<Rightarrow> stat_info
         | Some txt \<Rightarrow>
             let line = hd (split_at (CHR 0x0A) txt)
             in case skip_words 13 line of
                  None \<Rightarrow> stat_info
                | Some ss \<Rightarrow>
                    (case extract_ull ss of
                       (u, None) \<Rightarrow> stat_info\<lparr>utime := u\<rparr>
                     | (u, Some ss') \<Rightarrow> stat_info\<lparr>utime := u, stime := fst (extract_ull ss')\<rparr>))"

definition total_time :: "proc_stat_info \<Rightarrow> u64" where
  "total_time p = utime p + stime p"

fun peak_mem_of :: "string list \<Rightarrow> int" where
  "peak_mem_of [] = 0"
| "peak_mem_of (line # ls) =
     (if take 6 line = ''VmHWM:''
      then (let value = (case skip_words 1 line of
                           None \<Rightarrow> ''''
                         | Some r \<Rightarrow> (case extract_word r of None \<Rightarrow> '''' | Some (v, _) \<Rightarrow> v))
            in case stol value of None \<Rightarrow> 0 | Some n \<Rightarrow> n)
      else peak_mem_of ls)"

definition get_peak_memory_kb :: "proc_env \<Rightarrow> int" where
  "get_peak_memory_kb env =
     (case proc_status_text env of
        None \<Rightarrow> 0 | Some txt \<Rightarrow> peak_mem_of (split_at (CHR 0x0A) txt))"

definition start_resource_monitoring :: "proc_env \<Rightarrow> int \<Rightarrow> tcp_metrics \<Rightarrow> tcp_metrics" where
  "start_resource_monitoring env now m =
     (if \<not> m_resource_monitoring_enabled m \<or> m_resource_monitoring_active m then m
      else m\<lparr>m_resource_monitor_start_time := now, m_cpu_stat_start := get_proc_stat env,
             m_peak_memory_kb := 0, m_resource_monitoring_active := True\<rparr>)"

definition stop_resource_monitoring :: "proc_env \<Rightarrow> int \<Rightarrow> tcp_metrics \<Rightarrow> tcp_metrics" where
  "stop_resource_monitoring env now m =
     (if \<not> m_resource_monitoring_enabled m \<or> \<not> m_resource_monitoring_active m then m
      else let cpu_stat_end = get_proc_stat env;
               duration_sec = ddiv (d_of_int (now - m_resource_monitor_start_time m)) 1000000000;
               cpu_ticks_used = total_time cpu_stat_end - total_time (m_cpu_stat_start m);
               tck = get_clk_tck env;
               usage = (if 0 < duration_sec \<and> 0 < tck
                        then dmul (ddiv (ddiv (d_of_u64 cpu_ticks_used) (d_of_int tck)) duration_sec) 100
                        else 0)
           in m\<lparr>m_peak_memory_kb := get_peak_memory_kb env,
                m_avg_cpu_usage_percent := usage, m_resource_monitoring_active := False\<rparr>)"

section \<open>Recording\<close>

text \<open>\<open>start_timer\<close> and \<open>stop_timer\<close> read the clock once and once more in the monitoring.\<close>

definition start_timer :: "proc_env \<Rightarrow> int \<Rightarrow> int \<Rightarrow> tcp_metrics \<Rightarrow> tcp_metrics" where
  "start_timer env now now' m =
     (if \<not> m_timer_running m
      then let m = m\<lparr>m_start_time := now, m_timer_running := True\<rparr>
           in if m_resource_monitoring_enabled m then start_resource_monitoring env now' m else m
      else m)"

definition stop_timer :: "proc_env \<Rightarrow> int \<Rightarrow> int \<Rightarrow> tcp_metrics \<Rightarrow> tcp_metrics" where
  "stop_timer env now now' m =
     (if m_timer_running m
      then let m = m\<lparr>m_end_time := now, m_timer_running := False\<rparr>
           in if m_resource_monitoring_enabled m then stop_resource_monitoring env now' m else m
      else m)"

definition start_chunk_rtt_timer :: "int \<Rightarrow> tcp_metrics \<Rightarrow> tcp_metrics" where
  "start_chunk_rtt_timer now m = m\<lparr>m_current_chunk_rtt_start_time := now\<rparr>"

definition stop_and_record_chunk_rtt ::
  "int \<Rightarrow> u64 \<Rightarrow> bool \<Rightarrow> tcp_metrics \<Rightarrow> tcp_metrics" where
  "stop_and_record_chunk_rtt now bytes ok m =
     (let duration = tdiv (now - m_current_chunk_rtt_start_time m) 1000;
          m = m\<lparr>m_chunk_rtt_data := m_chunk_rtt_data m @
                  [\<lparr>chunk_index = m_processed_chunks_count m + 1, rtt_us = duration,
                    chunk_size_bytes = bytes, verified = ok\<rparr>]\<rparr>;
          m = m\<lparr>m_processed_chunks_count := m_processed_chunks_count m + 1\<rparr>;
          m = m\<lparr>m_total_bytes_processed := m_total_bytes_processed m + bytes\<rparr>
      in if ok then m\<lparr>m_verified_chunks_count := m_verified_chunks_count m + 1\<rparr> else m)"

definition record_chunk_processed :: "u64 \<Rightarrow> tcp_metrics \<Rightarrow> tcp_metrics" where
  "record_chunk_processed bytes_processed m =
     m\<lparr>m_total_bytes_processed := m_total_bytes_processed m + bytes_processed\<rparr>"

text \<open>A legacy entry point: both statements of its body are commented out.\<close>

definition record_chunk_verified :: "bool \<Rightarrow> tcp_metrics \<Rightarrow> tcp_metrics" where
  "record_chunk_verified success m = (if success then m else m)"

section \<open>Results\<close>

definition timer_ran :: "tcp_metrics \<Rightarrow> bool" where
  "timer_ran m \<longleftrightarrow> \<not> m_timer_running m \<and> m_start_time m \<noteq> 0"

definition duration_sec :: "tcp_metrics \<Rightarrow> rat" where
  "duration_sec m = ddiv (d_of_int (tdiv (m_end_time m - m_start_time m) 1000000)) 1000"

definition throughput_mbps :: "tcp_metrics \<Rightarrow> rat" where
  "throughput_mbps m =
     (if 0 < duration_sec m
      then ddiv (dmul (d_of_u64 (m_total_bytes_processed m)) 8)
                (dmul (dmul (duration_sec m) 1024) 1024)
      else 0)"

definition overall_header :: "string list" where
  "overall_header = [''Protocol'', ''TotalTime_s'', ''TotalBytesProcessed'', ''Throughput_Mbps'',
     ''TotalChunks'', ''VerifiedChunks'', ''ClientAvgCPU_percent'', ''ClientPeakMemory_KB'']"

definition overall_row :: "tcp_metrics \<Rightarrow> string list" where
  "overall_row m = [m_protocol_name m, fixed_dec 6 (duration_sec m),
     u64_to_dec (m_total_bytes_processed m), fixed_dec 6 (throughput_mbps m),
     u64_to_dec (m_processed_chunks_count m), u64_to_dec (m_verified_chunks_count m),
     fixed_dec 2 (m_avg_cpu_usage_percent m), int_to_dec (m_peak_memory_kb m)]"

definition rtt_header :: "string list" where
  "rtt_header = [''Protocol'', ''ChunkIndex'', ''RTT_us'', ''ChunkSizeBytes'', ''Verified'']"

definition rtt_row :: "tcp_metrics \<Rightarrow> chunk_rtt_info \<Rightarrow> string list" where
  "rtt_row m i = [m_protocol_name m, u64_to_dec (chunk_index i), int_to_dec (rtt_us i),
     u64_to_dec (chunk_size_bytes i), if verified i then ''true'' else ''false'']"

definition overall_text :: "tcp_metrics \<Rightarrow> string" where
  "overall_text m =
     csv_line overall_header @ (if timer_ran m then csv_line (overall_row m) else [])"

definition rtt_text :: "tcp_metrics \<Rightarrow> string" where
  "rtt_text m = csv_line rtt_header @ concat (map (\<lambda>i. csv_line (rtt_row m i)) (m_chunk_rtt_data m))"

definition save_to_csv :: "tcp_metrics \<Rightarrow> string \<Rightarrow> string \<Rightarrow> fsys \<Rightarrow> fsys" where
  "save_to_csv m overall_path rtt_path fs =
     (case ofs_open fs overall_path of
        None \<Rightarrow> fs
      | Some fs \<Rightarrow>
          let fs = ofs_put_text overall_path (overall_text m) fs
          in case ofs_open fs rtt_path of
               None \<Rightarrow> fs
             | Some fs \<Rightarrow> ofs_put_text rtt_path (rtt_text m) fs)"

text \<open>What \<open>print_summary\<close> writes to the console, on Linux.\<close>

abbreviation endl :: string where
  "endl \<equiv> [CHR 0x0A]"

definition rtt_stats_text :: "chunk_rtt_info list \<Rightarrow> string" where
  "rtt_stats_text data =
     (if data = [] then ''''
      else let rtts = map rtt_us data;
               avg_rtt_ms = ddiv (ddiv (d_of_int (accumulate rtts)) (d_of_u64 (sz data))) 1000;
               min_rtt_ms = ddiv (d_of_int (min_element rtts)) 1000;
               max_rtt_ms = ddiv (d_of_int (max_element rtts)) 1000
           in ''Chunk RTT (ms) - Avg: '' @ fixed_dec 3 avg_rtt_ms @ '', Min: ''
              @ fixed_dec 3 min_rtt_ms @ '', Max: '' @ fixed_dec 3 max_rtt_ms @ endl)"

definition print_summary :: "tcp_metrics \<Rightarrow> string" where
  "print_summary m =
     endl @ ''--- '' @ m_protocol_name m @ '' Benchmark Summary ---'' @ endl
     @ (if timer_ran m
        then ''Total time: '' @ fixed_dec 3 (duration_sec m) @ '' s'' @ endl
             @ ''Total bytes processed: '' @ u64_to_dec (m_total_bytes_processed m) @ '' bytes (''
             @ fixed_dec 2 (ddiv (d_of_u64 (m_total_bytes_processed m)) (dmul 1024 1024)) @ '' MB)'' @ endl
             @ (if 0 < duration_sec m
                then ''Throughput: '' @ fixed_dec 2 (throughput_mbps m) @ '' Mbps'' @ endl
                else ''Throughput: N/A (duration is zero)'' @ endl)
             @ ''Total chunks processed: '' @ u64_to_dec (m_processed_chunks_count m) @ endl
             @ ''Chunks verified successfully: '' @ u64_to_dec (m_verified_chunks_count m) @ endl
             @ (if 0 < m_processed_chunks_count m \<and>
                   m_verified_chunks_count m < m_processed_chunks_count m
                then ''WARNING: ''
                     @ u64_to_dec (m_processed_chunks_count m - m_verified_chunks_count m)
                     @ '' chunks failed verification!'' @ endl
                else '''')
             @ (if ENABLE_CLIENT_RESOURCE_MONITORING
                then ''Client Avg CPU Usage: '' @ fixed_dec 2 (m_avg_cpu_usage_percent m) @ '' %'' @ endl
                     @ ''Client Peak Memory (RSS): '' @ int_to_dec (m_peak_memory_kb m) @ '' KB (''
                     @ fixed_dec 2 (ddiv (d_of_int (m_peak_memory_kb m)) 1024) @ '' MB)'' @ endl
                else '''')
        else ''Timer was not run or is still running. No summary available.'' @ endl)
     @ rtt_stats_text (m_chunk_rtt_data m)
     @ ''--- End of Summary ---'' @ endl"

section \<open>The counters agree with the recorded chunks\<close>

definition tm_wf :: "tcp_metrics \<Rightarrow> bool" where
  "tm_wf m \<longleftrightarrow>
     m_processed_chunks_count m = sz (m_chunk_rtt_data m) \<and>
     m_verified_chunks_count m = sz (filter verified (m_chunk_rtt_data m)) \<and>
     map chunk_index (m_chunk_rtt_data m) = map (\<lambda>i. of_nat (Suc i)) [0..<length (m_chunk_rtt_data m)]"

text \<open>What was processed, as the sum over the recorded chunks.\<close>

definition tm_bytes :: "tcp_metrics \<Rightarrow> u64" where
  "tm_bytes m = sum_list (map chunk_size_bytes (m_chunk_rtt_data m))"

lemma tm_new_wf [simp]: "tm_wf (tm_new p n c)"
  by (simp add: tm_wf_def tm_new_def)

lemma stop_and_record_data:
  "m_chunk_rtt_data (stop_and_record_chunk_rtt now b ok m) =
   m_chunk_rtt_data m @ [\<lparr>chunk_index = m_processed_chunks_count m + 1,
     rtt_us = tdiv (now - m_current_chunk_rtt_start_time m) 1000, chunk_size_bytes = b, verified = ok\<rparr>]"
  "m_processed_chunks_count (stop_and_record_chunk_rtt now b ok m) = m_processed_chunks_count m + 1"
  "m_total_bytes_processed (stop_and_record_chunk_rtt now b ok m) = m_total_bytes_processed m + b"
  "m_verified_chunks_count (stop_and_record_chunk_rtt now b ok m) =
     m_verified_chunks_count m + (if ok then 1 else 0)"
  "m_timer_running (stop_and_record_chunk_rtt now b ok m) = m_timer_running m"
  "m_start_time (stop_and_record_chunk_rtt now b ok m) = m_start_time m"
  by (simp_all add: stop_and_record_chunk_rtt_def Let_def)

lemma stop_and_record_wf [inv_intros]:
  "tm_wf m \<Longrightarrow> tm_wf (stop_and_record_chunk_rtt now b ok m)"
  by (simp add: tm_wf_def stop_and_record_data sz_def)

text \<open>The other operations leave the recorded chunks and their counters alone.\<close>

definition same_chunks :: "tcp_metrics \<Rightarrow> tcp_metrics \<Rightarrow> bool" where
  "same_chunks m m' \<longleftrightarrow> m_chunk_rtt_data m' = m_chunk_rtt_data m \<and>
     m_processed_chunks_count m' = m_processed_chunks_count m \<and>
     m_verified_chunks_count m' = m_verified_chunks_count m"

lemma resource_same [simp]:
  "same_chunks m (start_resource_monitoring env now m)"
  "same_chunks m (stop_resource_monitoring env now m)"
  by (simp_all add: same_chunks_def start_resource_monitoring_def stop_resource_monitoring_def Let_def)

lemma timers_same [simp]:
  "same_chunks m (start_timer env now now' m)"
  "same_chunks m (stop_timer env now now' m)"
  "same_chunks m (start_chunk_rtt_timer now m)"
  "same_chunks m (record_chunk_processed b m)"
  "same_chunks m (record_chunk_verified ok m)"
  by (simp_all add: same_chunks_def start_timer_def stop_timer_def start_chunk_rtt_timer_def
      record_chunk_processed_def record_chunk_verified_def start_resource_monitoring_def
      stop_resource_monitoring_def Let_def)

lemma same_chunks_wf: "same_chunks m m' \<Longrightarrow> tm_wf m \<Longrightarrow> tm_wf m'"
  by (simp add: same_chunks_def tm_wf_def)

lemmas timers_wf [inv_intros] =
  timers_same(1) [THEN same_chunks_wf] timers_same(2) [THEN same_chunks_wf]
  timers_same(3) [THEN same_chunks_wf] timers_same(4) [THEN same_chunks_wf]
  timers_same(5) [THEN same_chunks_wf]

section \<open>Reading the RTT file back\<close>

definition read_rtt_row :: "string list \<Rightarrow> chunk_rtt_info" where
  "read_rtt_row fs = \<lparr>chunk_index = of_nat (dec_to_nat (fs ! 1)), rtt_us = dec_to_int (fs ! 2),
     chunk_size_bytes = of_nat (dec_to_nat (fs ! 3)), verified = (fs ! 4 = ''true'')\<rparr>"

lemma read_rtt_row [simp]: "read_rtt_row (rtt_row m i) = i"
  by (cases i) (simp add: read_rtt_row_def rtt_row_def u64_to_dec_def)

lemma rtt_text_rows:
  assumes "plain_field (m_protocol_name m)"
  shows "csv_rows (rtt_text m) = rtt_header # map (rtt_row m) (m_chunk_rtt_data m)"
proof -
  have eq: "rtt_text m = concat (map csv_line (rtt_header # map (rtt_row m) (m_chunk_rtt_data m)))"
    by (simp add: rtt_text_def comp_def)
  have "rtt_header \<noteq> [] \<and> list_all plain_field rtt_header"
    by (simp add: rtt_header_def plain_field_def)
  moreover have "rtt_row m i \<noteq> [] \<and> list_all plain_field (rtt_row m i)" for i
    using assms by (simp add: rtt_row_def plain_field_def)
  ultimately show ?thesis
    unfolding eq by (intro csv_rows_lines) auto
qed

section \<open>Reading /proc/self/stat\<close>

definition plain_word :: "string \<Rightarrow> bool" where
  "plain_word w \<longleftrightarrow> w \<noteq> [] \<and> list_all (\<lambda>c. \<not> is_ws c) w"

lemma takeWhile_word:
  assumes "list_all P w"
  shows "takeWhile P (w @ r) = w @ takeWhile P r" "dropWhile P (w @ r) = dropWhile P r"
  using assms by (induction w) simp_all

lemma space_ws [simp]: "is_ws (CHR '' '')"
  by (simp add: is_ws_def)

lemma dropWhile_ws_word: "plain_word w \<Longrightarrow> dropWhile is_ws (w @ r) = w @ r"
  by (cases w) (simp_all add: plain_word_def)

lemma extract_plain_word:
  "plain_word w \<Longrightarrow> extract_word (w @ CHR '' '' # r) = Some (w, CHR '' '' # r)"
  "plain_word w \<Longrightarrow> extract_word (CHR '' '' # w @ CHR '' '' # r) = Some (w, CHR '' '' # r)"
  using takeWhile_word [of "\<lambda>c. \<not> is_ws c" w "CHR '' '' # r"]
  by (simp_all add: extract_word_def dropWhile_ws_word plain_word_def)

text \<open>Fields, each followed by a space.\<close>

definition spaced :: "string list \<Rightarrow> string" where
  "spaced ws = concat (map (\<lambda>w. w @ [CHR '' '']) ws)"

lemma spaced_simps [simp]:
  "spaced [] = []" "spaced (w # ws) = w @ CHR '' '' # spaced ws"
  by (simp_all add: spaced_def)

lemma skip_plain_words:
  "list_all plain_word ws \<Longrightarrow> skip_words (length ws) (CHR '' '' # spaced ws @ r) = Some (CHR '' '' # r)"
proof (induction ws)
  case (Cons w ws)
  then show ?case using extract_plain_word(2) [of w "spaced ws @ r"] by simp
qed simp

lemma skip_fields:
  assumes "list_all plain_word ws" "ws \<noteq> []"
  shows "skip_words (length ws) (spaced ws @ r) = Some (CHR '' '' # r)"
proof (cases ws)
  case (Cons w vs)
  then show ?thesis
    using assms skip_plain_words [of vs r] extract_plain_word(1) [of w "spaced vs @ r"] by simp
qed (use assms in simp)

lemma digit_is_dec: "d < 10 \<Longrightarrow> is_dec (digit d)"
  by (simp add: is_dec_def of_char_digit)

lemma u64_to_dec_digits: "list_all is_dec (u64_to_dec u)"
  using digit_is_dec by (auto simp: u64_to_dec_def list_all_iff dest!: nat_to_dec_digits)

lemma is_dec_not_ws: "is_dec c \<Longrightarrow> \<not> is_ws c"
  by (auto simp: is_dec_def is_ws_def)

lemma u64_word: "plain_word (u64_to_dec u)"
  using u64_to_dec_digits [of u] is_dec_not_ws
  by (auto simp: plain_word_def u64_to_dec_def list_all_iff)

lemma extract_ull_field:
  "extract_ull (CHR '' '' # u64_to_dec u @ CHR '' '' # r) = (u, Some (CHR '' '' # r))"
proof -
  let ?t = "u64_to_dec u @ CHR '' '' # r"
  have "dropWhile is_ws (CHR '' '' # ?t) = ?t" by (simp add: dropWhile_ws_word [OF u64_word])
  moreover have "hd ?t \<noteq> CHR ''-''" "hd ?t \<noteq> CHR ''+''" "?t \<noteq> []"
  proof -
    have "is_dec (hd (u64_to_dec u))" "u64_to_dec u \<noteq> []"
      using u64_to_dec_digits [of u] by (cases "u64_to_dec u"; simp add: u64_to_dec_def)+
    then show "hd ?t \<noteq> CHR ''-''" "hd ?t \<noteq> CHR ''+''" "?t \<noteq> []" by (auto simp: is_dec_def)
  qed
  moreover have "takeWhile is_dec ?t = u64_to_dec u" "dropWhile is_dec ?t = CHR '' '' # r"
    using takeWhile_word [OF u64_to_dec_digits] by (simp_all add: is_dec_def)
  ultimately have "sign_digits (dropWhile is_ws (CHR '' '' # ?t)) = (False, u64_to_dec u, CHR '' '' # r)"
    by (simp add: sign_digits_def)
  moreover have "u64_to_dec u \<noteq> []" by (simp add: u64_to_dec_def)
  ultimately show ?thesis
    using unat_u64_less [of u] by (simp add: extract_ull_def u64_to_dec_def del: unat_u64_less)
qed

lemma spaced_no_newline: "list_all plain_word ws \<Longrightarrow> CHR 0x0A \<notin> set (spaced ws)"
  by (induction ws) (auto simp: plain_word_def list_all_iff is_ws_def)

lemma proc_stat_at:
  assumes "length ws = 13" "list_all plain_word ws" "list_all plain_word later"
    and "proc_stat_text env = Some (spaced (ws @ [u64_to_dec u, u64_to_dec s] @ later) @ [CHR 0x0A])"
  shows "get_proc_stat env = \<lparr>utime = u, stime = s\<rparr>"
proof -
  let ?line = "spaced (ws @ [u64_to_dec u, u64_to_dec s] @ later)"
  have "list_all plain_word (ws @ [u64_to_dec u, u64_to_dec s] @ later)"
    using assms(2,3) u64_word by simp
  then have "split_at (CHR 0x0A) (?line @ [CHR 0x0A]) = [?line, []]"
    using split_at_step [OF spaced_no_newline] by simp
  moreover have "?line = spaced ws @ u64_to_dec u @ CHR '' '' # u64_to_dec s @ CHR '' '' # spaced later"
    by (simp add: spaced_def)
  moreover have "ws \<noteq> []" using assms(1) by auto
  note skip = skip_fields [OF assms(2) this, unfolded assms(1)]
  ultimately show ?thesis
    using assms(4) skip [of "u64_to_dec u @ CHR '' '' # u64_to_dec s @ CHR '' '' # spaced later"]
      extract_ull_field [of u "u64_to_dec s @ CHR '' '' # spaced later"]
      extract_ull_field [of s "spaced later"]
    by (simp add: get_proc_stat_def Let_def)
qed

section \<open>Properties\<close>

text \<open>
  \<open>get_proc_stat\<close> takes the times from the 14th and 15th field of the first line of
  \<open>/proc/self/stat\<close>, counted by white space. The fields before are arbitrary words.
\<close>

theorem proc_stat_fields:
  assumes "length ws = 13" "list_all plain_word ws" "list_all plain_word later"
    and "proc_stat_text env = Some (spaced (ws @ [u64_to_dec u, u64_to_dec s] @ later) @ [CHR 0x0A])"
  shows "get_proc_stat env = \<lparr>utime = u, stime = s\<rparr>"
  using assms by (rule proc_stat_at)

lemma proc_stat_fields_witness:
  "get_proc_stat \<lparr>proc_stat_text = Some (spaced (replicate 13 ''x'' @ [u64_to_dec 12, u64_to_dec 34] @ [])
      @ [CHR 0x0A]), proc_status_text = None, clk_tck = 100\<rparr> = \<lparr>utime = 12, stime = 34\<rparr>"
  by (rule proc_stat_fields [of "replicate 13 ''x''" "[]"]) (simp_all add: plain_word_def is_ws_def list_all_iff)

text \<open>
  Consequently a program name with a space in it, which \<open>/proc/self/stat\<close> shows as
  two words in parentheses, shifts the fields: the number of the field before (\<open>cmajflt\<close>) is taken
  for the user time, and the user time for the system time.
\<close>

theorem proc_stat_shifted_by_space:
  assumes "list_all plain_word [pid, name1, name2]" "length mid = 10" "list_all plain_word mid"
    and "proc_stat_text env =
      Some (spaced ([pid, name1, name2] @ mid @ [u64_to_dec cmajflt, u64_to_dec u, u64_to_dec s])
            @ [CHR 0x0A])"
  shows "get_proc_stat env = \<lparr>utime = cmajflt, stime = u\<rparr>"
proof (rule proc_stat_at)
  show "length ([pid, name1, name2] @ mid) = 13" "list_all plain_word ([pid, name1, name2] @ mid)"
    "list_all plain_word [u64_to_dec s]"
    using assms(1-3) u64_word by simp_all
  show "proc_stat_text env = Some (spaced (([pid, name1, name2] @ mid) @
      [u64_to_dec cmajflt, u64_to_dec u] @ [u64_to_dec s]) @ [CHR 0x0A])"
    using assms(4) by simp
qed

lemma proc_stat_shifted_by_space_witness:
  "utime (get_proc_stat \<lparr>proc_stat_text = Some (spaced ([''1'', ''(a'', ''b)''] @ replicate 10 ''0''
      @ [u64_to_dec 7, u64_to_dec 500, u64_to_dec 20]) @ [CHR 0x0A]),
      proc_status_text = None, clk_tck = 100\<rparr>) = 7"
  by (subst proc_stat_shifted_by_space [of "''1''" "''(a''" "''b)''" "replicate 10 ''0''" _ 7 500 20])
     (simp_all add: plain_word_def is_ws_def list_all_iff)

text \<open>
  Over any sequence of chunks (clock at the start, clock at the end, size, verdict) the
  recorded data, the three counters and the indices agree with the sequence.
\<close>

theorem chunk_records:
  "let m = foldl (\<lambda>m (t0, t1, b, ok). stop_and_record_chunk_rtt t1 b ok (start_chunk_rtt_timer t0 m))
             (tm_new name file_size csz) es
   in tm_wf m \<and>
      map rtt_us (m_chunk_rtt_data m) = map (\<lambda>(t0, t1, b, ok). tdiv (t1 - t0) 1000) es \<and>
      map chunk_size_bytes (m_chunk_rtt_data m) = map (\<lambda>(t0, t1, b, ok). b) es \<and>
      map verified (m_chunk_rtt_data m) = map (\<lambda>(t0, t1, b, ok). ok) es \<and>
      m_total_bytes_processed m = sum_list (map (\<lambda>(t0, t1, b, ok). b) es)"
proof (induction es rule: rev_induct)
  case Nil
  show ?case by (simp add: tm_new_def tm_wf_def)
next
  case (snoc e es)
  obtain t0 t1 b ok where e: "e = (t0, t1, b, ok)" by (cases e)
  from snoc show ?case
    by (simp add: e Let_def stop_and_record_data stop_and_record_wf timers_wf(3))
       (simp add: start_chunk_rtt_timer_def)
qed

text \<open>
  The RTT file written by \<open>save_to_csv\<close> can be read back: splitting it into lines and fields
  and reading the numbers gives exactly the recorded chunks.
\<close>

theorem rtt_csv_roundtrip:
  assumes "fs_can_write fs overall" "fs_can_write fs rtt" "\<not> fs_write_fault fs overall 0"
    "\<not> fs_write_fault fs rtt 0" "plain_field (m_protocol_name m)"
  shows "\<exists>bs. fs_files (save_to_csv m overall rtt fs) rtt = Some bs \<and>
           map read_rtt_row (tl (csv_rows (bytes_text bs))) = m_chunk_rtt_data m"
proof -
  obtain fs1 where 1: "ofs_open fs overall = Some fs1"
    "ofs_put_text overall (overall_text m) fs1 = fs_put overall (text_bytes (overall_text m)) fs"
    (is "_ = ?fs")
    using ofs_text_file [OF assms(1,3)] by blast
  have "fs_can_write ?fs rtt" "\<not> fs_write_fault ?fs rtt 0" using assms(2,4) by simp_all
  from ofs_text_file [OF this] obtain fs2 where 2: "ofs_open ?fs rtt = Some fs2"
    "ofs_put_text rtt (rtt_text m) fs2 = fs_put rtt (text_bytes (rtt_text m)) ?fs" by blast
  from 1 2 have "fs_files (save_to_csv m overall rtt fs) rtt = Some (text_bytes (rtt_text m))"
    by (simp add: save_to_csv_def)
  moreover have "map read_rtt_row (tl (csv_rows (rtt_text m))) = m_chunk_rtt_data m"
    by (simp add: rtt_text_rows [OF assms(5)] comp_def)
  ultimately show ?thesis by simp
qed

lemma rtt_csv_roundtrip_witness:
  "\<exists>bs. fs_files (save_to_csv (stop_and_record_chunk_rtt 5000 64 True (tm_new ''CPP_TCP'' 64 64)) ''a'' ''b''
            (plain_fs ''x'' [])) ''b'' = Some bs \<and>
     map read_rtt_row (tl (csv_rows (bytes_text bs))) =
       [\<lparr>chunk_index = 1, rtt_us = 5, chunk_size_bytes = 64, verified = True\<rparr>]"
  using rtt_csv_roundtrip [of "plain_fs ''x'' []" "''a''" "''b''"
      "stop_and_record_chunk_rtt 5000 64 True (tm_new ''CPP_TCP'' 64 64)"]
  by (simp add: tm_new_def stop_and_record_chunk_rtt_def plain_field_def tdiv_def Let_def)

end
