(* ===== verification/Tcp_Client.thy ===== *)
theory Tcp_Client
  imports Tcp_Server Tcp_Chunk_Reader Tcp_Metrics
begin

text \<open>
  The TCP client (GO++PROJECT/src/cpp_tcp_benchmark/client/tcp_client.cpp). Like the server
  session, \<open>TCPClient\<close> is driven by completions: resolve, connect, and then for every
  chunk a write, a header read and a body read. An event carries the environment of its
  handler: \<open>e_now env i\<close> is the \<open>i\<close>-th clock reading the handler makes. Console output is
  left out, except that \<open>tc_reported\<close> records the argument of the call of
  \<open>stop_client_operations\<close> that took effect, which decides between the two closing
  messages.
\<close>

section \<open>State\<close>

record client_env =
  e_now :: "nat \<Rightarrow> int"
  e_proc :: proc_env

datatype client_pending =
    C_none | C_resolve | C_connect | C_write "bytes list" | C_read_header | C_read_body nat

record tcp_client =
  tc_chunk_reader :: tcp_chunk_reader
  tc_metrics :: tcp_metrics
  tc_current_chunk_data :: bytes
  tc_expected_reversed_chunk :: bytes
  tc_write_header_buffer :: bytes
  tc_read_header_buffer :: bytes
  tc_read_body_buffer :: bytes
  tc_chunks_sent :: u64
  tc_total_chunks_to_send :: u64
  tc_timer_stopped_flag :: bool
  tc_operations_stopped :: bool
  tc_socket_open :: bool
  tc_io_stopped :: bool
  tc_pending :: client_pending
  tc_reported :: "bool option"

definition TEST_FILE_NAME :: string where
  "TEST_FILE_NAME = ''test_file.dat''"

definition tc_new :: "fsys \<Rightarrow> tcp_metrics \<Rightarrow> exn + tcp_client" where
  "tc_new fs metrics =
     (case tcr_new fs TEST_FILE_NAME CHUNK_SIZE of
        Inl e \<Rightarrow> Inl e
      | Inr r \<Rightarrow>
          let chunks = m_total_chunks r;
              chunks = (if 0 < m_file_size r \<and> chunks = 0 \<and> m_chunks_read_count r = 0 then 1
                        else if m_file_size r = 0 then 0 else chunks)
          in Inr \<lparr>tc_chunk_reader = r, tc_metrics = metrics, tc_current_chunk_data = [],
                  tc_expected_reversed_chunk = [],
                  tc_write_header_buffer = replicate HEADER_SIZE 0,
                  tc_read_header_buffer = replicate HEADER_SIZE 0, tc_read_body_buffer = [],
                  tc_chunks_sent = 0, tc_total_chunks_to_send = chunks,
                  tc_timer_stopped_flag = False, tc_operations_stopped = False,
                  tc_socket_open = False, tc_io_stopped = False, tc_pending = C_none,
                  tc_reported = None\<rparr>)"

section \<open>Operations and handlers\<close>

definition stop_client_operations ::
  "client_env \<Rightarrow> nat \<Rightarrow> bool \<Rightarrow> tcp_client \<Rightarrow> tcp_client" where
  "stop_client_operations env i error_occurred c =
     (if \<not> tc_operations_stopped c
      then let c = c\<lparr>tc_operations_stopped := True\<rparr>;
               c = (if \<not> tc_timer_stopped_flag c
                    then c\<lparr>tc_metrics := stop_timer (e_proc env) (e_now env i) (e_now env (i + 1)) (tc_metrics c),
                           tc_timer_stopped_flag := True\<rparr>
                    else c);
               c = (if tc_socket_open c then c\<lparr>tc_socket_open := False\<rparr> else c);
               c = (if \<not> tc_io_stopped c then c\<lparr>tc_io_stopped := True\<rparr> else c)
           in c\<lparr>tc_reported := Some error_occurred\<rparr>
      else c)"

definition tc_start :: "tcp_client \<Rightarrow> tcp_client" where
  "tc_start c = c\<lparr>tc_pending := C_resolve\<rparr>"

definition tc_do_connect :: "tcp_client \<Rightarrow> tcp_client" where
  "tc_do_connect c = c\<lparr>tc_pending := C_connect\<rparr>"

definition on_resolved :: "client_env \<Rightarrow> error_code \<Rightarrow> tcp_client \<Rightarrow> tcp_client" where
  "on_resolved env ec c =
     (let c = c\<lparr>tc_pending := C_none\<rparr>
      in if ec = Success then tc_do_connect c else stop_client_operations env 0 True c)"

definition send_next_chunk :: "client_env \<Rightarrow> nat \<Rightarrow> tcp_client \<Rightarrow> tcp_client" where
  "send_next_chunk env i c =
     (if tc_operations_stopped c then c
      else if tc_total_chunks_to_send c \<le> tc_chunks_sent c \<or> m_eof (tc_chunk_reader c)
      then stop_client_operations env i False c
      else case read_next_chunk (tc_chunk_reader c) of (data, r) \<Rightarrow>
        let c = c\<lparr>tc_chunk_reader := r, tc_current_chunk_data := data\<rparr>
        in if data = [] \<and> \<not> m_eof r
           then stop_client_operations env i True
                  (c\<lparr>tc_metrics := record_chunk_verified False (tc_metrics c)\<rparr>)
           else if data = [] \<and> m_eof r then stop_client_operations env i False c
           else case prepare_message data of (header, buffers) \<Rightarrow>
             c\<lparr>tc_expected_reversed_chunk := get_reversed_vector_content data,
               tc_metrics := start_chunk_rtt_timer (e_now env i) (tc_metrics c),
               tc_write_header_buffer := header,
               tc_pending := C_write buffers\<rparr>)"

definition on_connected :: "client_env \<Rightarrow> error_code \<Rightarrow> tcp_client \<Rightarrow> tcp_client" where
  "on_connected env ec c =
     (let c = c\<lparr>tc_pending := C_none\<rparr>
      in if ec = Success
         then send_next_chunk env 2
                (c\<lparr>tc_socket_open := True,
                   tc_metrics := start_timer (e_proc env) (e_now env 0) (e_now env 1) (tc_metrics c)\<rparr>)
         else stop_client_operations env 0 True c)"

definition tc_do_read_header :: "tcp_client \<Rightarrow> tcp_client" where
  "tc_do_read_header c =
     (if tc_operations_stopped c then c else c\<lparr>tc_pending := C_read_header\<rparr>)"

definition on_sent :: "client_env \<Rightarrow> error_code \<Rightarrow> tcp_client \<Rightarrow> tcp_client" where
  "on_sent env ec c =
     (let c = c\<lparr>tc_pending := C_none\<rparr>
      in if tc_operations_stopped c then c
         else if ec = Success then tc_do_read_header c
         else stop_client_operations env 0 True c)"

definition tc_do_read_body :: "tcp_client \<Rightarrow> tcp_client" where
  "tc_do_read_body c =
     (if tc_operations_stopped c then c
      else c\<lparr>tc_pending := C_read_body (length (tc_read_body_buffer c))\<rparr>)"

definition handle_received_chunk_data :: "client_env \<Rightarrow> tcp_client \<Rightarrow> tcp_client" where
  "handle_received_chunk_data env c =
     (if tc_operations_stopped c then c
      else let ok = (tc_read_body_buffer c = tc_expected_reversed_chunk c);
               c = c\<lparr>tc_metrics := stop_and_record_chunk_rtt (e_now env 0)
                      (sz (tc_current_chunk_data c)) ok (tc_metrics c)\<rparr>
           in if \<not> ok then stop_client_operations env 1 True c
              else let c = c\<lparr>tc_chunks_sent := tc_chunks_sent c + 1\<rparr>
                   in if tc_total_chunks_to_send c \<le> tc_chunks_sent c \<or> m_eof (tc_chunk_reader c)
                      then stop_client_operations env 1 False c
                      else send_next_chunk env 1 c)"

definition on_header :: "client_env \<Rightarrow> error_code \<Rightarrow> bytes \<Rightarrow> tcp_client \<Rightarrow> tcp_client" where
  "on_header env ec data c =
     (let c = c\<lparr>tc_pending := C_none,
                tc_read_header_buffer := overwrite (tc_read_header_buffer c) data\<rparr>
      in if tc_operations_stopped c then c
         else if ec = Success
         then let body_length = parse_header (tc_read_header_buffer c)
              in if ucast body_length > CHUNK_SIZE * 2 then stop_client_operations env 0 True c
                 else let c = c\<lparr>tc_read_body_buffer :=
                                 resize_bytes (tc_read_body_buffer c) (unat body_length)\<rparr>
                      in if body_length = 0 then handle_received_chunk_data env c
                         else tc_do_read_body c
         else if ec = Eof
         then if tc_total_chunks_to_send c \<le> tc_chunks_sent c
              then stop_client_operations env 0 False c
              else stop_client_operations env 0 True c
         else stop_client_operations env 0 True c)"

definition on_body :: "client_env \<Rightarrow> error_code \<Rightarrow> bytes \<Rightarrow> tcp_client \<Rightarrow> tcp_client" where
  "on_body env ec data c =
     (let c = c\<lparr>tc_pending := C_none,
                tc_read_body_buffer := overwrite (tc_read_body_buffer c) data\<rparr>
      in if tc_operations_stopped c then c
         else if ec = Success
         then if length data \<noteq> length (tc_read_body_buffer c) then stop_client_operations env 0 True c
              else handle_received_chunk_data env c
         else stop_client_operations env 0 True c)"

section \<open>Events\<close>

datatype client_event =
    Cv_resolved error_code | Cv_connected error_code | Cv_written error_code
  | Cv_read error_code bytes

text \<open>Once the \<open>io_context\<close> is stopped no handler runs; before, only the pending operation completes.\<close>

fun client_accepts :: "tcp_client \<Rightarrow> client_event \<Rightarrow> bool" where
  "client_accepts c (Cv_resolved ec) \<longleftrightarrow> \<not> tc_io_stopped c \<and> tc_pending c = C_resolve"
| "client_accepts c (Cv_connected ec) \<longleftrightarrow> \<not> tc_io_stopped c \<and> tc_pending c = C_connect"
| "client_accepts c (Cv_written ec) \<longleftrightarrow>
     \<not> tc_io_stopped c \<and> (case tc_pending c of C_write b \<Rightarrow> True | _ \<Rightarrow> False)"
| "client_accepts c (Cv_read ec data) \<longleftrightarrow>
     \<not> tc_io_stopped c \<and>
     (case tc_pending c of C_read_header \<Rightarrow> length data \<le> HEADER_SIZE
      | C_read_body n \<Rightarrow> length data \<le> n | _ \<Rightarrow> False)"

fun client_step :: "client_env \<Rightarrow> tcp_client \<Rightarrow> client_event \<Rightarrow> tcp_client" where
  "client_step env c (Cv_resolved ec) = on_resolved env ec c"
| "client_step env c (Cv_connected ec) = on_connected env ec c"
| "client_step env c (Cv_written ec) = on_sent env ec c"
| "client_step env c (Cv_read ec data) =
     (if tc_pending c = C_read_header then on_header env ec data c else on_body env ec data c)"

inductive client_reachable :: "tcp_client \<Rightarrow> tcp_client \<Rightarrow> bool" for c0 where
  start: "client_reachable c0 (tc_start c0)"
| event: "client_reachable c0 c \<Longrightarrow> client_accepts c e \<Longrightarrow> client_reachable c0 (client_step env c e)"

section \<open>The invariant\<close>

text \<open>
  For a client of any file on any device. \<open>cs\<close> are the chunks the reader delivers, which on a
  device without errors are the chunks of the file. The first \<open>tc_chunks_sent\<close> of them have come back reversed; while
  one is under way it is the next, and the reader stands behind it; the metrics have a
  record for each chunk that was answered; and success is only reported at the end.
\<close>

definition sending :: "tcp_client \<Rightarrow> bool" where
  "sending c \<longleftrightarrow> (case tc_pending c of C_write b \<Rightarrow> True | C_read_header \<Rightarrow> True
                    | C_read_body k \<Rightarrow> True | _ \<Rightarrow> False)"

definition idle_inv :: "bytes list \<Rightarrow> tcp_client \<Rightarrow> bool" where
  "idle_inv cs c \<longleftrightarrow>
     length cs \<le> unat (tc_total_chunks_to_send c) \<and>
     unat (tc_chunks_sent c) \<le> length cs \<and>
     length (tc_read_header_buffer c) = HEADER_SIZE \<and>
     tm_wf (tc_metrics c) \<and> m_verified_chunks_count (tc_metrics c) = tc_chunks_sent c \<and>
     map chunk_size_bytes (m_chunk_rtt_data (tc_metrics c)) =
       map sz (take (length (m_chunk_rtt_data (tc_metrics c))) cs)"

definition running_inv :: "bytes list \<Rightarrow> tcp_client \<Rightarrow> bool" where
  "running_inv cs c \<longleftrightarrow>
     idle_inv cs c \<and> \<not> tc_operations_stopped c \<and> \<not> tc_io_stopped c \<and> tc_reported c = None \<and>
     m_processed_chunks_count (tc_metrics c) = tc_chunks_sent c"

definition between_inv :: "bytes list \<Rightarrow> tcp_client \<Rightarrow> bool" where
  "between_inv cs c \<longleftrightarrow>
     running_inv cs c \<and>
     tcr_delivered (tc_chunk_reader c) = drop (unat (tc_chunks_sent c)) cs"

definition sending_inv :: "bytes list \<Rightarrow> tcp_client \<Rightarrow> bool" where
  "sending_inv cs c \<longleftrightarrow>
     running_inv cs c \<and> unat (tc_chunks_sent c) < length cs \<and>
     tc_current_chunk_data c = cs ! unat (tc_chunks_sent c) \<and>
     tc_expected_reversed_chunk c = rev (tc_current_chunk_data c) \<and>
     tcr_delivered (tc_chunk_reader c) = drop (Suc (unat (tc_chunks_sent c))) cs"

definition stopped_inv :: "bytes list \<Rightarrow> tcp_client \<Rightarrow> bool" where
  "stopped_inv cs c \<longleftrightarrow>
     idle_inv cs c \<and> tc_operations_stopped c \<and> tc_io_stopped c \<and> \<not> tc_socket_open c \<and>
     (case tc_reported c of
        None \<Rightarrow> False
      | Some False \<Rightarrow> unat (tc_chunks_sent c) = length cs \<and>
          m_processed_chunks_count (tc_metrics c) = tc_chunks_sent c
      | Some True \<Rightarrow> m_processed_chunks_count (tc_metrics c) \<in> {tc_chunks_sent c, tc_chunks_sent c + 1})"

definition client_inv :: "bytes list \<Rightarrow> tcp_client \<Rightarrow> bool" where
  "client_inv cs c \<longleftrightarrow>
     (if tc_operations_stopped c then stopped_inv cs c
      else if sending c then sending_inv cs c \<and>
             (case tc_pending c of C_write bs \<Rightarrow> concat bs = frame (tc_current_chunk_data c)
              | C_read_body k \<Rightarrow> k = length (tc_read_body_buffer c) | _ \<Rightarrow> True)
      else between_inv cs c)"

lemmas client_inv_defs =
  idle_inv_def running_inv_def between_inv_def sending_inv_def stopped_inv_def

text \<open>\<open>same_transfer c d\<close>: nothing \<open>idle_inv\<close> looks at has changed between \<open>c\<close> and \<open>d\<close>.\<close>

definition same_transfer :: "tcp_client \<Rightarrow> tcp_client \<Rightarrow> bool" where
  "same_transfer c d \<longleftrightarrow>
     tc_chunk_reader d = tc_chunk_reader c \<and> tc_chunks_sent d = tc_chunks_sent c \<and>
     tc_total_chunks_to_send d = tc_total_chunks_to_send c \<and>
     length (tc_read_header_buffer d) = length (tc_read_header_buffer c) \<and>
     same_chunks (tc_metrics c) (tc_metrics d)"

lemma idle_same: "same_transfer c d \<Longrightarrow> idle_inv cs d \<longleftrightarrow> idle_inv cs c"
  by (auto simp: same_transfer_def idle_inv_def same_chunks_def tm_wf_def)

lemma same_chunks_refl [simp]: "same_chunks m m"
  by (simp add: same_chunks_def)

lemma stop_same: "same_transfer c (stop_client_operations env i err c)"
  by (simp add: same_transfer_def stop_client_operations_def Let_def)

lemma stop_stopped:
  assumes "\<not> tc_operations_stopped c"
  shows "tc_operations_stopped (stop_client_operations env i err c)"
    "tc_io_stopped (stop_client_operations env i err c)"
    "\<not> tc_socket_open (stop_client_operations env i err c)"
    "tc_reported (stop_client_operations env i err c) = Some err"
  using assms by (simp_all add: stop_client_operations_def Let_def)

lemma stop_idle_inv:
  assumes "idle_inv cs c" "\<not> tc_operations_stopped c"
    and "m_processed_chunks_count (tc_metrics c) \<in> {tc_chunks_sent c, tc_chunks_sent c + 1}"
    and "\<not> err \<Longrightarrow> unat (tc_chunks_sent c) = length cs \<and>
                m_processed_chunks_count (tc_metrics c) = tc_chunks_sent c"
  shows "client_inv cs (stop_client_operations env i err c)"
proof -
  let ?d = "stop_client_operations env i err c"
  have "idle_inv cs ?d" using assms(1) idle_same [OF stop_same] by blast
  moreover have "tc_chunks_sent ?d = tc_chunks_sent c"
    "m_processed_chunks_count (tc_metrics ?d) = m_processed_chunks_count (tc_metrics c)"
    using stop_same [of c env i err] by (simp_all add: same_transfer_def same_chunks_def)
  ultimately show ?thesis
    using assms(3,4) stop_stopped [OF assms(2), of env i err]
    by (cases err) (auto simp: client_inv_def stopped_inv_def)
qed

lemma stop_inv:
  assumes "running_inv cs c" "\<not> err \<Longrightarrow> unat (tc_chunks_sent c) = length cs"
  shows "client_inv cs (stop_client_operations env i err c)"
  using assms by (intro stop_idle_inv) (auto simp: running_inv_def)

lemma running_same:
  assumes "same_transfer c d" "tc_operations_stopped d = tc_operations_stopped c"
    "tc_io_stopped d = tc_io_stopped c" "tc_reported d = tc_reported c"
  shows "running_inv cs d \<longleftrightarrow> running_inv cs c"
  using assms by (auto simp: running_inv_def idle_same) (auto simp: same_transfer_def same_chunks_def)

text \<open>What the invariant says about the reader: it reports the end only when all was delivered.\<close>

lemma idle_fits: "idle_inv cs c \<Longrightarrow> length cs < 2 ^ 64"
  using unat_u64_less [of "tc_total_chunks_to_send c"] by (simp add: idle_inv_def)

lemma between_eof:
  assumes "between_inv cs c" "m_eof (tc_chunk_reader c) \<or> tc_total_chunks_to_send c \<le> tc_chunks_sent c"
  shows "unat (tc_chunks_sent c) = length cs"
proof -
  have idle: "length cs \<le> unat (tc_total_chunks_to_send c)" "unat (tc_chunks_sent c) \<le> length cs"
    and left: "tcr_delivered (tc_chunk_reader c) = drop (unat (tc_chunks_sent c)) cs"
    using assms(1) by (simp_all add: between_inv_def running_inv_def idle_inv_def)
  show ?thesis
  proof (cases "m_eof (tc_chunk_reader c)")
    case True
    from tcr_delivered_eof [OF this] left idle show ?thesis by simp
  next
    case False
    with assms(2) idle show ?thesis by (simp add: word_le_nat_alt)
  qed
qed

text \<open>What the next read delivers while the client is between two chunks.\<close>

lemma between_next:
  assumes "between_inv cs c" "read_next_chunk (tc_chunk_reader c) = (data, r)"
  shows "data = [] \<Longrightarrow> m_eof r \<and> unat (tc_chunks_sent c) = length cs"
    and "data \<noteq> [] \<Longrightarrow> unat (tc_chunks_sent c) < length cs \<and> data = cs ! unat (tc_chunks_sent c) \<and>
           tcr_delivered r = drop (Suc (unat (tc_chunks_sent c))) cs"
proof -
  let ?k = "unat (tc_chunks_sent c)"
  have left: "drop ?k cs = (if data = [] then [] else data # tcr_delivered r)" and k: "?k \<le> length cs"
    using assms(1) tcr_delivered_step [OF assms(2)]
    by (simp_all add: between_inv_def running_inv_def idle_inv_def)
  show "m_eof r \<and> ?k = length cs" if "data = []"
    using that left k read_next_chunk_nothing assms(2) by auto
  assume "data \<noteq> []"
  with left have d: "drop ?k cs = data # tcr_delivered r" by simp
  then have "?k < length cs" by (metis drop_all list.discI not_le)
  with d show "?k < length cs \<and> data = cs ! ?k \<and> tcr_delivered r = drop (Suc ?k) cs"
    by (metis Cons_nth_drop_Suc list.inject)
qed

lemma send_next_chunk_inv:
  assumes "between_inv cs c" "tc_pending c = C_none"
  shows "client_inv cs (send_next_chunk env i c)"
proof -
  let ?r = "tc_chunk_reader c"
  from assms(1) have inv: "running_inv cs c" by (simp add: between_inv_def)
  from inv have run: "\<not> tc_operations_stopped c" by (simp add: running_inv_def)
  obtain data r where dr: "read_next_chunk ?r = (data, r)" by fastforce
  let ?c = "c\<lparr>tc_chunk_reader := r, tc_current_chunk_data := data\<rparr>"
  have inv': "running_inv cs ?c" using inv by (simp add: running_inv_def idle_inv_def)
  show ?thesis
  proof (cases "tc_total_chunks_to_send c \<le> tc_chunks_sent c \<or> m_eof ?r")
    case True
    with between_eof [OF assms(1)] stop_inv [OF inv, of False env i] run show ?thesis
      by (auto simp: send_next_chunk_def)
  next
    case False
    show ?thesis
    proof (cases "data = []")
      case True
      with between_next(1) [OF assms(1) dr] stop_inv [OF inv', of False env i] run False dr
      show ?thesis by (simp add: send_next_chunk_def Let_def)
    next
      case data: False
      have "running_inv cs (send_next_chunk env i c)"
        using inv' False run dr data
        by (subst running_same [of ?c])
           (auto simp: send_next_chunk_def same_transfer_def Let_def split: prod.splits)
      with False run dr data between_next(2) [OF assms(1) dr] show ?thesis
        by (auto simp: client_inv_def sending_inv_def running_inv_def sending_def send_next_chunk_def
            Let_def frame_def split: prod.splits)
    qed
  qed
qed

lemma idle_records:
  assumes "idle_inv cs c"
  shows "unat (sz (m_chunk_rtt_data (tc_metrics c))) = length (m_chunk_rtt_data (tc_metrics c))"
    and "length (m_chunk_rtt_data (tc_metrics c)) \<le> length cs"
proof -
  let ?d = "m_chunk_rtt_data (tc_metrics c)"
  have "map chunk_size_bytes ?d = map sz (take (length ?d) cs)"
    using assms by (simp add: idle_inv_def)
  then have "length ?d = length (take (length ?d) cs)"
    by (metis length_map)
  then show le: "length ?d \<le> length cs" by simp
  with assms show "unat (sz ?d) = length ?d"
    using idle_fits [OF assms] by (intro unat_sz) (simp add: fits_def)
qed

text \<open>The record of an answered chunk, and the step to the next one.\<close>

abbreviation answered :: "client_env \<Rightarrow> bool \<Rightarrow> tcp_client \<Rightarrow> tcp_metrics" where
  "answered env ok c \<equiv>
     stop_and_record_chunk_rtt (e_now env 0) (sz (tc_current_chunk_data c)) ok (tc_metrics c)"

lemma answered_records:
  assumes "sending_inv cs c"
  shows "map chunk_size_bytes (m_chunk_rtt_data (answered env ok c)) =
      map sz (take (length (m_chunk_rtt_data (answered env ok c))) cs)"
    and "tm_wf (answered env ok c)"
proof -
  from assms have idle: "idle_inv cs c" and k: "unat (tc_chunks_sent c) < length cs"
    and cur: "tc_current_chunk_data c = cs ! unat (tc_chunks_sent c)"
    and proc: "m_processed_chunks_count (tc_metrics c) = tc_chunks_sent c"
    by (simp_all add: sending_inv_def running_inv_def)
  have "length (m_chunk_rtt_data (tc_metrics c)) = unat (tc_chunks_sent c)"
    using idle_records [OF idle] proc idle by (simp add: idle_inv_def tm_wf_def)
  with idle k cur show "map chunk_size_bytes (m_chunk_rtt_data (answered env ok c)) =
      map sz (take (length (m_chunk_rtt_data (answered env ok c))) cs)"
    by (simp add: stop_and_record_data idle_inv_def take_Suc_conv_app_nth)
  show "tm_wf (answered env ok c)"
    using idle by (auto simp: idle_inv_def intro: inv_intros)
qed

lemma verified_between:
  assumes "sending_inv cs c"
  shows "between_inv cs
           (c\<lparr>tc_metrics := answered env True c, tc_chunks_sent := tc_chunks_sent c + 1\<rparr>)"
proof -
  from assms have "unat (tc_chunks_sent c) < length cs" "length cs < 2 ^ 64"
    using idle_fits by (auto simp: client_inv_defs)
  then have "unat (tc_chunks_sent c + 1) = Suc (unat (tc_chunks_sent c))"
    by (intro unat_Suc_u64) simp
  with assms answered_records [OF assms, of env True] show ?thesis
    by (simp add: client_inv_defs stop_and_record_data)
qed

lemma handle_received_inv:
  assumes "sending_inv cs c" "tc_pending c = C_none"
  shows "client_inv cs (handle_received_chunk_data env c)"
proof -
  from assms(1) have run: "\<not> tc_operations_stopped c" and idle: "idle_inv cs c"
    and proc: "m_processed_chunks_count (tc_metrics c) = tc_chunks_sent c"
    by (simp_all add: sending_inv_def running_inv_def)
  show ?thesis
  proof (cases "tc_read_body_buffer c = tc_expected_reversed_chunk c")
    case False
    let ?d = "c\<lparr>tc_metrics := answered env False c\<rparr>"
    have "idle_inv cs ?d"
      using idle answered_records [OF assms(1), of env False]
      by (simp add: idle_inv_def stop_and_record_data)
    then have "client_inv cs (stop_client_operations env 1 True ?d)"
      using run proc by (intro stop_idle_inv) (auto simp: stop_and_record_data)
    then show ?thesis
      using run False by (simp add: handle_received_chunk_data_def Let_def)
  next
    case True
    let ?e = "c\<lparr>tc_metrics := answered env True c, tc_chunks_sent := tc_chunks_sent c + 1\<rparr>"
    have between: "between_inv cs ?e" using assms(1) by (rule verified_between)
    then have "running_inv cs ?e" by (simp add: between_inv_def)
    then have "client_inv cs (if tc_total_chunks_to_send ?e \<le> tc_chunks_sent ?e \<or> m_eof (tc_chunk_reader ?e)
        then stop_client_operations env 1 False ?e else send_next_chunk env 1 ?e)"
      using between_eof [OF between] stop_inv [of cs ?e False env 1]
        send_next_chunk_inv [OF between, of env 1] assms(2)
      by auto
    moreover have "handle_received_chunk_data env c =
        (if tc_total_chunks_to_send ?e \<le> tc_chunks_sent ?e \<or> m_eof (tc_chunk_reader ?e)
         then stop_client_operations env 1 False ?e else send_next_chunk env 1 ?e)"
      using run True by (simp add: handle_received_chunk_data_def Let_def)
    ultimately show ?thesis by simp
  qed
qed

section \<open>Every handler keeps it\<close>

lemma running_pending [simp]:
  "idle_inv cs (c\<lparr>tc_pending := p\<rparr>) = idle_inv cs c"
  "running_inv cs (c\<lparr>tc_pending := p\<rparr>) = running_inv cs c"
  "between_inv cs (c\<lparr>tc_pending := p\<rparr>) = between_inv cs c"
  "sending_inv cs (c\<lparr>tc_pending := p\<rparr>) = sending_inv cs c"
  by (simp_all add: client_inv_defs)

lemma on_resolved_inv:
  assumes "between_inv cs c"
  shows "client_inv cs (on_resolved env ec c)"
proof -
  let ?c = "c\<lparr>tc_pending := C_none\<rparr>"
  have run: "running_inv cs ?c" "\<not> tc_operations_stopped c"
    using assms by (simp_all add: between_inv_def running_inv_def)
  have "client_inv cs (tc_do_connect ?c)"
    using assms run(2) by (simp add: client_inv_def tc_do_connect_def sending_def)
  with stop_inv [OF run(1), of True env 0] show ?thesis
    by (simp add: on_resolved_def Let_def)
qed

lemma on_connected_inv:
  assumes "between_inv cs c"
  shows "client_inv cs (on_connected env ec c)"
proof -
  let ?c = "c\<lparr>tc_pending := C_none\<rparr>"
  let ?d = "?c\<lparr>tc_socket_open := True,
    tc_metrics := start_timer (e_proc env) (e_now env 0) (e_now env 1) (tc_metrics c)\<rparr>"
  have run: "running_inv cs ?c"
    using assms by (simp add: between_inv_def)
  have "running_inv cs ?d"
    using run by (subst running_same [of ?c]) (simp_all add: same_transfer_def)
  with assms have "between_inv cs ?d" by (simp add: between_inv_def)
  from send_next_chunk_inv [OF this, of env 2] stop_inv [OF run, of True env 0]
  show ?thesis by (simp add: on_connected_def Let_def)
qed

lemma on_sent_inv:
  assumes "sending_inv cs c"
  shows "client_inv cs (on_sent env ec c)"
proof -
  let ?c = "c\<lparr>tc_pending := C_none\<rparr>"
  have run: "running_inv cs ?c" "\<not> tc_operations_stopped c"
    using assms by (simp_all add: sending_inv_def running_inv_def)
  have "client_inv cs (tc_do_read_header ?c)"
    using assms run(2) by (simp add: client_inv_def tc_do_read_header_def sending_def)
  with stop_inv [OF run(1), of True env 0] run(2) show ?thesis
    by (simp add: on_sent_def Let_def)
qed

lemma sending_buffers:
  assumes "sending_inv cs c"
  shows "sending_inv cs (c\<lparr>tc_read_body_buffer := b\<rparr>)"
    and "length h = HEADER_SIZE \<Longrightarrow> sending_inv cs (c\<lparr>tc_read_header_buffer := h\<rparr>)"
  using assms by (simp_all add: sending_inv_def running_inv_def idle_inv_def)

lemma on_header_inv:
  assumes "sending_inv cs c" "length data \<le> HEADER_SIZE"
  shows "client_inv cs (on_header env ec data c)"
proof -
  define d where "d = c\<lparr>tc_pending := C_none,
    tc_read_header_buffer := overwrite (tc_read_header_buffer c) data\<rparr>"
  let ?n = "parse_header (tc_read_header_buffer d)"
  let ?e = "d\<lparr>tc_read_body_buffer := resize_bytes (tc_read_body_buffer d) (unat ?n)\<rparr>"
  have hdr: "length (tc_read_header_buffer c) = HEADER_SIZE"
    using assms(1) by (simp add: client_inv_defs)
  have d: "sending_inv cs d" "tc_pending d = C_none"
    using sending_buffers(2) [of cs "c\<lparr>tc_pending := C_none\<rparr>"] assms hdr by (simp_all add: d_def)
  then have run: "running_inv cs d" "\<not> tc_operations_stopped d"
    and pos: "\<not> tc_total_chunks_to_send d \<le> tc_chunks_sent d"
    by (auto simp: client_inv_defs word_le_nat_alt unat_sz fits_def)
  have stop: "client_inv cs (stop_client_operations env 0 True d)"
    using run(1) by (rule stop_inv) simp
  have e: "sending_inv cs ?e" using d(1) by (rule sending_buffers)
  have "client_inv cs (handle_received_chunk_data env ?e)"
    using e by (rule handle_received_inv) (simp add: d(2))
  moreover have "client_inv cs (tc_do_read_body ?e)"
    using e run(2) by (simp add: client_inv_def tc_do_read_body_def sending_def)
  ultimately show ?thesis
    using stop run(2) pos
    by (cases "?n = 0") (simp_all add: on_header_def d_def [symmetric] Let_def)
qed

lemma on_body_inv:
  assumes "sending_inv cs c"
  shows "client_inv cs (on_body env ec data c)"
proof -
  define d where "d = c\<lparr>tc_pending := C_none,
    tc_read_body_buffer := overwrite (tc_read_body_buffer c) data\<rparr>"
  have d: "sending_inv cs d" "tc_pending d = C_none"
    using sending_buffers(1) [of cs "c\<lparr>tc_pending := C_none\<rparr>"] assms by (simp_all add: d_def)
  then have run: "running_inv cs d" "\<not> tc_operations_stopped d"
    by (simp_all add: client_inv_defs)
  have "client_inv cs (stop_client_operations env 0 True d)"
    using run(1) by (rule stop_inv) simp
  with handle_received_inv [OF d] run(2) show ?thesis
    by (simp add: on_body_def d_def [symmetric] Let_def)
qed

lemma client_step_inv:
  assumes "client_inv cs c" "client_accepts c e"
  shows "client_inv cs (client_step env c e)"
proof (cases "tc_operations_stopped c")
  case True
  with assms show ?thesis by (cases e) (auto simp: client_inv_def stopped_inv_def)
next
  case False
  with assms have inv: "if sending c then sending_inv cs c else between_inv cs c"
    by (auto simp: client_inv_def)
  from assms(2) inv show ?thesis
    by (cases e) (auto simp: sending_def split: client_pending.splits
        intro: on_resolved_inv on_connected_inv on_sent_inv on_header_inv on_body_inv)
qed

section \<open>The start\<close>

lemma CHUNK_SIZE_bounds [simp]: "0 < unat CHUNK_SIZE" "unat CHUNK_SIZE < 2 ^ 63"
  by (simp_all add: CHUNK_SIZE_def)

text \<open>The client of any file that opens starts in the invariant for the chunks its reader will deliver.\<close>

lemma tc_new_any:
  assumes "tc_new fs m = Inr c" "fs_files fs TEST_FILE_NAME = Some content" "length content < 2 ^ 63"
    and "tm_wf m" "m_chunk_rtt_data m = []"
  shows "client_inv (tcr_delivered (tc_chunk_reader c)) (tc_start c)"
    "tc_chunks_sent c = 0" "tc_metrics c = m" "tc_reported c = None" "\<not> tc_operations_stopped c"
    "tcr_left (tc_chunk_reader c) = content" "tcr_csize (tc_chunk_reader c) = unat CHUNK_SIZE"
    "readable fs TEST_FILE_NAME content \<Longrightarrow>
       tcr_delivered (tc_chunk_reader c) = chunks_of (unat CHUNK_SIZE) content"
proof -
  obtain r where r: "tcr_new fs TEST_FILE_NAME CHUNK_SIZE = Inr r"
    using assms(1) by (auto simp: tc_new_def split: sum.splits)
  note any = tcr_new_any [OF r assms(2,3) CHUNK_SIZE_bounds]
  have le: "length (tcr_delivered r) \<le> unat (tc_total_chunks_to_send c)"
  proof (cases "m_file_size r = 0")
    case True
    then have "content = []" using any(4) assms(3) sz_eq_0_iff [of content] by (simp add: fits_def)
    with any(5,6) show ?thesis by (metis chunks_of.simps length_0_conv le0 le_zero_eq)
  next
    case False
    with assms(1) r any(3,6) show ?thesis
      by (auto simp: tc_new_def Let_def unat_eq_zero word_gt_0 split: if_splits)
  qed
  have c: "tc_chunk_reader c = r" "tc_metrics c = m" "tc_chunks_sent c = 0"
    "length (tc_read_header_buffer c) = HEADER_SIZE" "\<not> tc_operations_stopped c"
    "\<not> tc_io_stopped c" "tc_reported c = None"
    using assms(1) by (auto simp: tc_new_def r Let_def)
  have "m_processed_chunks_count m = 0" "m_verified_chunks_count m = 0"
    using assms(4,5) by (simp_all add: tm_wf_def)
  with c le show "client_inv (tcr_delivered (tc_chunk_reader c)) (tc_start c)"
    using assms(4,5)
    by (simp add: client_inv_def sending_def tc_start_def between_inv_def running_inv_def idle_inv_def)
  show "tc_chunks_sent c = 0" "tc_metrics c = m" "tc_reported c = None" "\<not> tc_operations_stopped c"
    "tcr_left (tc_chunk_reader c) = content" "tcr_csize (tc_chunk_reader c) = unat CHUNK_SIZE"
    "readable fs TEST_FILE_NAME content \<Longrightarrow>
       tcr_delivered (tc_chunk_reader c) = chunks_of (unat CHUNK_SIZE) content"
    using c any(1,2,7) by simp_all
qed

text \<open>The client of a readable file can be built.\<close>

lemma tc_new_readable:
  assumes "readable fs TEST_FILE_NAME content" "length content < 2 ^ 63"
  obtains c where "tc_new fs m = Inr c"
proof -
  obtain r where "tcr_new fs TEST_FILE_NAME CHUNK_SIZE = Inr r"
    using tcr_new_readable [OF assms CHUNK_SIZE_bounds] by blast
  with that show ?thesis by (simp add: tc_new_def Let_def)
qed

text \<open>The part of the test file the device at hand gives the client, from the beginning.\<close>

definition device_part :: "tcp_client \<Rightarrow> bytes" where
  "device_part c = concat (tcr_delivered (tc_chunk_reader c))"

lemma device_part_new:
  assumes "tc_new fs (tm_new name expected csz) = Inr c" "fs_files fs TEST_FILE_NAME = Some content"
    and "length content < 2 ^ 63"
  shows "client_inv (chunks_of (unat CHUNK_SIZE) (device_part c)) (tc_start c)"
    "tc_chunks_sent c = 0" "tc_reported c = None" "\<not> tc_operations_stopped c"
    "\<exists>q. content = device_part c @ q \<and> (readable fs TEST_FILE_NAME content \<longrightarrow> q = [])"
proof -
  let ?r = "tc_chunk_reader c"
  have "m_chunk_rtt_data (tm_new name expected csz) = []" by (simp add: tm_new_def)
  note any = tc_new_any [OF assms tm_new_wf this]
  have "tcr_delivered ?r = chunks_of (unat CHUNK_SIZE) (device_part c)"
    using tcr_delivered_chunks [of ?r] any(7) by (simp add: device_part_def)
  with any show "client_inv (chunks_of (unat CHUNK_SIZE) (device_part c)) (tc_start c)"
    "tc_chunks_sent c = 0" "tc_reported c = None" "\<not> tc_operations_stopped c" by simp_all
  obtain q where q: "content = device_part c @ q"
    using tcr_delivered_prefix [of ?r] any(6) by (auto simp: device_part_def)
  moreover have "device_part c = content" if "readable fs TEST_FILE_NAME content"
    using any(8) [OF that] by (simp add: device_part_def concat_chunks_of)
  ultimately show "\<exists>q. content = device_part c @ q \<and> (readable fs TEST_FILE_NAME content \<longrightarrow> q = [])"
    by (metis append_Nil2 same_append_eq)
qed

lemma client_reachable_inv:
  assumes "client_inv cs (tc_start c0)" "client_reachable c0 c"
  shows "client_inv cs c"
  using assms(2,1) by (induction rule: client_reachable.induct) (auto intro: client_step_inv)

text \<open>What the metrics hold when success has been reported.\<close>

lemma success_records:
  assumes "stopped_inv cs c" "tc_reported c = Some False"
  shows "tc_chunks_sent c = sz cs"
    and "map chunk_size_bytes (m_chunk_rtt_data (tc_metrics c)) = map sz cs"
    and "list_all verified (m_chunk_rtt_data (tc_metrics c))"
proof -
  let ?m = "tc_metrics c" and ?d = "m_chunk_rtt_data (tc_metrics c)"
  have idle: "idle_inv cs c" and all: "unat (tc_chunks_sent c) = length cs"
    and proc: "m_processed_chunks_count ?m = tc_chunks_sent c"
    using assms by (simp_all add: stopped_inv_def)
  have cs: "length cs < 2 ^ 64" and wf: "tm_wf ?m"
    using idle idle_fits by (auto simp: idle_inv_def)
  show "tc_chunks_sent c = sz cs"
    using all cs by (metis sz_def unat_of_nat_u64 word_unat_eq_iff)
  have len: "length ?d = length cs"
    using idle_records [OF idle] all proc wf by (simp add: tm_wf_def)
  with idle show "map chunk_size_bytes ?d = map sz cs" by (simp add: idle_inv_def)
  have "sz (filter verified ?d) = sz ?d"
    using idle proc wf by (auto simp: idle_inv_def tm_wf_def)
  moreover have "fits ?d" "fits (filter verified ?d)"
    using len cs length_filter_le [of verified ?d] by (simp_all add: fits_def)
  ultimately have "length (filter verified ?d) = length ?d" by (metis unat_sz)
  then show "list_all verified ?d"
    by (metis Ball_set length_filter_less less_irrefl)
qed

section \<open>Properties\<close>

lemma reachable_verified:
  assumes "client_inv cs (tc_start c0)" "client_reachable c0 c" "tc_reported c = Some False"
  shows "stopped_inv cs c"
  using client_reachable_inv [OF assms(1,2)] assms(3)
  by (auto simp: client_inv_def sending_inv_def between_inv_def running_inv_def split: if_splits)

text \<open>
  C6: soundness of success. Whatever the device, the server and the network do, a client
  that reports success has one record for each chunk of what the device gave it of the file, in order, with its
  size, and every one of them is marked as verified. That part is a prefix of the file, and all of it
  when the device has no read errors.
\<close>

theorem client_success_sound:
  assumes "tc_new fs (tm_new name expected csz) = Inr c0" "fs_files fs TEST_FILE_NAME = Some content"
    and "length content < 2 ^ 63" "client_reachable c0 c" "tc_reported c = Some False"
  shows "tc_chunks_sent c = sz (chunks_of (unat CHUNK_SIZE) (device_part c0)) \<and>
         map chunk_size_bytes (m_chunk_rtt_data (tc_metrics c)) =
           map sz (chunks_of (unat CHUNK_SIZE) (device_part c0)) \<and>
         list_all verified (m_chunk_rtt_data (tc_metrics c)) \<and>
         (\<exists>q. content = device_part c0 @ q \<and> (readable fs TEST_FILE_NAME content \<longrightarrow> q = []))"
  using success_records [OF reachable_verified [OF device_part_new(1) [OF assms(1-3)] assms(4,5)] assms(5)]
    device_part_new(5) [OF assms(1-3)]
  by simp

text \<open>A client of an empty file, connected at once.\<close>

lemma empty_file_client:
  obtains c0 c where "tc_new (plain_fs TEST_FILE_NAME []) (tm_new ''t'' 0 CHUNK_SIZE) = Inr c0"
    "client_reachable c0 c" "tc_reported c = Some False"
proof -
  obtain c0 where c0: "tc_new (plain_fs TEST_FILE_NAME []) (tm_new ''t'' 0 CHUNK_SIZE) = Inr c0"
    using tc_new_readable [of "plain_fs TEST_FILE_NAME []" "[]"] by auto
  define env where "env = \<lparr>e_now = (\<lambda>_. 0), e_proc =
    \<lparr>proc_stat_text = None, proc_status_text = None, clk_tck = 100\<rparr>\<rparr>"
  let ?c1 = "client_step env (tc_start c0) (Cv_resolved Success)"
  let ?c2 = "client_step env ?c1 (Cv_connected Success)"
  have run: "\<not> tc_operations_stopped c0" "\<not> tc_io_stopped c0" "m_eof (tc_chunk_reader c0)"
    using c0
    by (auto simp: tc_new_def tcr_new_def ifs_open_def ifs_closed_def ifs_fail_def ifs_size_def Let_def)
  have "client_reachable c0 ?c1"
    using run by (intro client_reachable.event client_reachable.start) (simp add: tc_start_def)
  from client_reachable.event [OF this, of "Cv_connected Success" env] run
  have "client_reachable c0 ?c2" by (simp add: tc_start_def on_resolved_def tc_do_connect_def)
  moreover have "tc_reported ?c2 = Some False"
    using run
    by (simp add: tc_start_def on_resolved_def tc_do_connect_def on_connected_def send_next_chunk_def
        stop_stopped Let_def)
  ultimately show ?thesis using c0 that by blast
qed

lemma client_success_sound_witness:
  "\<exists>c0 c. tc_new (plain_fs TEST_FILE_NAME []) (tm_new ''t'' 0 CHUNK_SIZE) = Inr c0 \<and>
     client_reachable c0 c \<and> tc_reported c = Some False \<and> tc_chunks_sent c = 0"
proof -
  obtain c0 c where c: "tc_new (plain_fs TEST_FILE_NAME []) (tm_new ''t'' 0 CHUNK_SIZE) = Inr c0"
    "client_reachable c0 c" "tc_reported c = Some False"
    by (rule empty_file_client)
  from client_success_sound [OF c(1) _ _ c(2,3)] c show ?thesis by auto
qed

lemma stop_keeps:
  "tc_read_body_buffer (stop_client_operations env i err c) = tc_read_body_buffer c"
  "tc_chunks_sent (stop_client_operations env i err c) = tc_chunks_sent c"
  by (simp_all add: stop_client_operations_def Let_def)

lemma send_keeps:
  "tc_read_body_buffer (send_next_chunk env i c) = tc_read_body_buffer c"
  "tc_chunks_sent (send_next_chunk env i c) = tc_chunks_sent c"
  by (simp_all add: send_next_chunk_def stop_keeps Let_def split: prod.split)

lemma handle_counts:
  "tc_read_body_buffer (handle_received_chunk_data env c) = tc_read_body_buffer c"
  "tc_chunks_sent (handle_received_chunk_data env c) \<noteq> tc_chunks_sent c \<Longrightarrow>
   tc_read_body_buffer c = tc_expected_reversed_chunk c \<and>
   tc_chunks_sent (handle_received_chunk_data env c) = tc_chunks_sent c + 1"
  by (auto simp: handle_received_chunk_data_def stop_keeps send_keeps Let_def split: if_splits)

lemma handle_received_sent:
  assumes "\<not> tc_operations_stopped c" "tc_read_body_buffer c = tc_expected_reversed_chunk c"
  shows "tc_chunks_sent (handle_received_chunk_data env c) = tc_chunks_sent c + 1"
  using assms by (simp add: handle_received_chunk_data_def send_keeps stop_keeps Let_def)

lemma counts_via_handle:
  assumes "r = handle_received_chunk_data env d" "tc_chunks_sent d = tc_chunks_sent c"
    and "tc_expected_reversed_chunk d = tc_expected_reversed_chunk c"
    and "tc_chunks_sent r \<noteq> tc_chunks_sent c"
  shows "tc_read_body_buffer r = tc_expected_reversed_chunk c \<and>
         tc_chunks_sent r = tc_chunks_sent c + 1"
  using handle_counts [of env d] assms by metis

lemma on_header_counts:
  assumes "tc_chunks_sent (on_header env ec data c) \<noteq> tc_chunks_sent c"
  shows "\<not> tc_operations_stopped c"
    "tc_read_body_buffer (on_header env ec data c) = tc_expected_reversed_chunk c"
    "tc_chunks_sent (on_header env ec data c) = tc_chunks_sent c + 1"
proof -
  let ?h = "overwrite (tc_read_header_buffer c) data"
  let ?d = "c\<lparr>tc_pending := C_none, tc_read_header_buffer := ?h,
    tc_read_body_buffer := resize_bytes (tc_read_body_buffer c) (unat (parse_header ?h))\<rparr>"
  have eq: "on_header env ec data c = handle_received_chunk_data env ?d"
    and run: "\<not> tc_operations_stopped c"
    using assms by (auto simp: on_header_def tc_do_read_body_def stop_keeps Let_def split: if_splits)
  show "\<not> tc_operations_stopped c" by (rule run)
  have "tc_chunks_sent ?d = tc_chunks_sent c"
    "tc_expected_reversed_chunk ?d = tc_expected_reversed_chunk c" by simp_all
  from counts_via_handle [OF eq this assms]
  show "tc_read_body_buffer (on_header env ec data c) = tc_expected_reversed_chunk c"
    "tc_chunks_sent (on_header env ec data c) = tc_chunks_sent c + 1" by blast+
qed

lemma on_body_counts:
  assumes "tc_chunks_sent (on_body env ec data c) \<noteq> tc_chunks_sent c"
  shows "\<not> tc_operations_stopped c"
    "tc_read_body_buffer (on_body env ec data c) = tc_expected_reversed_chunk c"
    "tc_chunks_sent (on_body env ec data c) = tc_chunks_sent c + 1"
proof -
  let ?d = "c\<lparr>tc_pending := C_none,
    tc_read_body_buffer := overwrite (tc_read_body_buffer c) data\<rparr>"
  define l where "l = length (tc_read_body_buffer ?d)"
  have shape: "on_body env ec data c =
      (if tc_operations_stopped ?d then ?d
       else if ec = Success
       then if length data \<noteq> l then stop_client_operations env 0 True ?d
            else handle_received_chunk_data env ?d
       else stop_client_operations env 0 True ?d)"
    by (simp only: on_body_def Let_def l_def)
  have eq: "on_body env ec data c = handle_received_chunk_data env ?d"
    and run: "\<not> tc_operations_stopped c"
    using assms by (auto simp: shape stop_keeps split: if_splits)
  show "\<not> tc_operations_stopped c" by (rule run)
  have "tc_chunks_sent ?d = tc_chunks_sent c"
    "tc_expected_reversed_chunk ?d = tc_expected_reversed_chunk c" by simp_all
  from counts_via_handle [OF eq this assms]
  show "tc_read_body_buffer (on_body env ec data c) = tc_expected_reversed_chunk c"
    "tc_chunks_sent (on_body env ec data c) = tc_chunks_sent c + 1" by blast+
qed

text \<open>
  C21: what verifying means. In every reachable state of a client, on any device, an event
  after which another chunk counts as sent and verified leaves the reverse of exactly that chunk of what the
  device gives of the file in the body buffer, and counts it once.
\<close>

theorem client_counts_reversed_chunks:
  assumes "tc_new fs (tm_new name expected csz) = Inr c0" "fs_files fs TEST_FILE_NAME = Some content"
    and "length content < 2 ^ 63" "client_reachable c0 c" "client_accepts c e"
    and "tc_chunks_sent (client_step env c e) \<noteq> tc_chunks_sent c"
  shows "unat (tc_chunks_sent c) < length (chunks_of (unat CHUNK_SIZE) (device_part c0)) \<and>
         tc_read_body_buffer (client_step env c e) =
           rev (chunks_of (unat CHUNK_SIZE) (device_part c0) ! unat (tc_chunks_sent c)) \<and>
         tc_chunks_sent (client_step env c e) = tc_chunks_sent c + 1"
proof -
  have inv: "client_inv (chunks_of (unat CHUNK_SIZE) (device_part c0)) c"
    using device_part_new(1) [OF assms(1-3)] assms(4) by (rule client_reachable_inv)
  obtain ec data where e: "e = Cv_read ec data"
    using assms(6)
    by (cases e) (auto simp: on_resolved_def on_connected_def on_sent_def tc_do_connect_def
        tc_do_read_header_def stop_keeps send_keeps Let_def split: if_splits)
  have sending: "sending c" using assms(5) e by (auto simp: sending_def split: client_pending.splits)
  have "\<not> tc_operations_stopped c \<and>
      tc_read_body_buffer (client_step env c e) = tc_expected_reversed_chunk c \<and>
      tc_chunks_sent (client_step env c e) = tc_chunks_sent c + 1"
    using assms(6) on_header_counts [of env ec data c] on_body_counts [of env ec data c]
    by (auto simp: e)
  with inv sending show ?thesis by (simp add: client_inv_def sending_inv_def)
qed

text \<open>A client of a file of two bytes, on the way to its first verified chunk.\<close>

lemma two_byte_new:
  assumes "tc_new (plain_fs TEST_FILE_NAME [5, 6]) (tm_new ''t'' 2 CHUNK_SIZE) = Inr c0"
  shows "\<not> tc_operations_stopped c0" "\<not> tc_io_stopped c0" "tc_chunks_sent c0 = 0"
    "length (tc_read_header_buffer c0) = 4" "tc_total_chunks_to_send c0 = 1"
    "\<not> m_eof (tc_chunk_reader c0)" "fst (read_next_chunk (tc_chunk_reader c0)) = [5, 6]"
  using assms
  by (auto simp: tc_new_def tcr_new_def ifs_open_def ifs_closed_def ifs_fail_def ifs_size_def
      read_next_chunk_def ifs_read_def ifs_good_def HEADER_SIZE_def CHUNK_SIZE_def sz_def Let_def)

lemma two_byte_client:
  obtains env c0 c where "tc_new (plain_fs TEST_FILE_NAME [5, 6]) (tm_new ''t'' 2 CHUNK_SIZE) = Inr c0"
    "client_reachable c0 c" "client_accepts c (Cv_read Success [6, 5])"
    "tc_chunks_sent (client_step env c (Cv_read Success [6, 5])) \<noteq> tc_chunks_sent c"
    "tc_chunks_sent c = 0"
proof -
  obtain c0 where c0: "tc_new (plain_fs TEST_FILE_NAME [5, 6]) (tm_new ''t'' 2 CHUNK_SIZE) = Inr c0"
    by (simp add: tc_new_def tcr_new_def ifs_open_def ifs_closed_def ifs_fail_def ifs_size_def
        CHUNK_SIZE_def sz_def Let_def)
  define env where "env = \<lparr>e_now = (\<lambda>_. 0), e_proc =
    \<lparr>proc_stat_text = None, proc_status_text = None, clk_tck = 100\<rparr>\<rparr>"
  note r0 = two_byte_new [OF c0]
  obtain r where r: "read_next_chunk (tc_chunk_reader c0) = ([5, 6], r)"
    using r0(7) by (metis prod.collapse)
  define c1 where "c1 = client_step env (tc_start c0) (Cv_resolved Success)"
  define c2 where "c2 = client_step env c1 (Cv_connected Success)"
  define c3 where "c3 = client_step env c2 (Cv_written Success)"
  define c4 where "c4 = client_step env c3 (Cv_read Success [0, 0, 0, 2])"
  have s1: "c1 = c0\<lparr>tc_pending := C_connect\<rparr>"
    using r0 by (simp add: c1_def on_resolved_def tc_do_connect_def tc_start_def Let_def)
  have a1: "client_reachable c0 c1"
    unfolding c1_def using r0
    by (intro client_reachable.event client_reachable.start) (simp add: tc_start_def)
  have a2: "client_reachable c0 c2"
    unfolding c2_def using r0 a1 by (intro client_reachable.event) (simp_all add: s1)
  have s2: "\<not> tc_operations_stopped c2" "\<not> tc_io_stopped c2" "tc_chunks_sent c2 = 0"
    "length (tc_read_header_buffer c2) = 4" "\<exists>b. tc_pending c2 = C_write b"
    "tc_expected_reversed_chunk c2 = [6, 5]"
    using r0 r by (simp_all add: c2_def s1 on_connected_def send_next_chunk_def Let_def case_prod_beta)
  have s3: "c3 = c2\<lparr>tc_pending := C_read_header\<rparr>"
    using s2 by (simp add: c3_def on_sent_def tc_do_read_header_def Let_def)
  have a3: "client_reachable c0 c3"
    unfolding c3_def using s2 a2 by (intro client_reachable.event) auto
  have h: "parse_header [0, 0, 0, 2] = 2"
    by (simp add: parse_header_def ntohl_def htonl_def le_bytes32_def le_word32_def)
  have s4: "tc_pending c4 = C_read_body 2" "\<not> tc_operations_stopped c4" "\<not> tc_io_stopped c4"
    "tc_chunks_sent c4 = 0" "length (tc_read_body_buffer c4) = 2"
    "tc_expected_reversed_chunk c4 = [6, 5]"
    using s2 by (simp_all add: c4_def s3 on_header_def tc_do_read_body_def h CHUNK_SIZE_def Let_def)
  have a4: "client_reachable c0 c4"
    unfolding c4_def using s2 a3
    by (intro client_reachable.event) (simp_all add: s3 HEADER_SIZE_def)
  have "tc_chunks_sent (client_step env c4 (Cv_read Success [6, 5])) = 1"
    using s4 by (simp add: on_body_def handle_received_sent Let_def)
  then have "tc_chunks_sent (client_step env c4 (Cv_read Success [6, 5])) \<noteq> tc_chunks_sent c4"
    by (simp only: s4(4)) simp
  moreover have "client_accepts c4 (Cv_read Success [6, 5])" using s4 by simp
  ultimately show ?thesis using c0 a4 s4(4) by (intro that)
qed

lemma client_counts_reversed_chunks_witness:
  "\<exists>env c0 c. client_reachable c0 c \<and>
     tc_read_body_buffer (client_step env c (Cv_read Success [6, 5])) =
       rev (chunks_of (unat CHUNK_SIZE) [5, 6] ! 0)"
proof -
  obtain env c0 c where c: "tc_new (plain_fs TEST_FILE_NAME [5, 6]) (tm_new ''t'' 2 CHUNK_SIZE) = Inr c0"
    "client_reachable c0 c" "client_accepts c (Cv_read Success [6, 5])"
    "tc_chunks_sent (client_step env c (Cv_read Success [6, 5])) \<noteq> tc_chunks_sent c"
    "tc_chunks_sent c = 0"
    by (rule two_byte_client)
  have "tc_read_body_buffer (client_step env c (Cv_read Success [6, 5])) =
        rev (chunks_of (unat CHUNK_SIZE) [5, 6] ! 0)"
    using client_counts_reversed_chunks [OF c(1) _ _ c(2-4)] device_part_new(5) [OF c(1)]
    by (simp only: c(5)) simp
  with c(2) show ?thesis by blast
qed

end
