(* ===== verification/Tcp_System.thy ===== *)
theory Tcp_System
  imports Tcp_Client
begin

text \<open>
  The TCP client and a server session joined by a reliable connection: two byte queues,
  one for each direction. A step is the completion of one pending operation of one side.
  A write completes at once and queues its bytes; a read completes when enough bytes are
  queued, which is the contract of \<open>async_read\<close>. The environment of each client handler (its
  clock readings and \<open>/proc\<close>) is arbitrary.

  The transfer is stop-and-wait, so the whole system goes through a small number of
  phases for each chunk. \<open>sys_inv\<close> lists them, \<open>sys_measure\<close> decreases from phase to phase.
\<close>

section \<open>The joint system\<close>

record tcp_sys =
  y_client :: tcp_client
  y_server :: session
  y_c2s :: bytes
  y_s2c :: bytes

definition sys_start :: "tcp_client \<Rightarrow> tcp_sys" where
  "sys_start c = \<lparr>y_client = tc_start c, y_server = session_new, y_c2s = [], y_s2c = []\<rparr>"

inductive sys_step :: "tcp_sys \<Rightarrow> tcp_sys \<Rightarrow> bool" where
  resolve: "\<not> tc_io_stopped (y_client s) \<Longrightarrow> tc_pending (y_client s) = C_resolve \<Longrightarrow>
    sys_step s (s\<lparr>y_client := client_step env (y_client s) (Cv_resolved Success)\<rparr>)"
| connect: "\<not> tc_io_stopped (y_client s) \<Longrightarrow> tc_pending (y_client s) = C_connect \<Longrightarrow>
    sys_step s (s\<lparr>y_client := client_step env (y_client s) (Cv_connected Success),
                  y_server := session_start (y_server s)\<rparr>)"
| client_write: "\<not> tc_io_stopped (y_client s) \<Longrightarrow> tc_pending (y_client s) = C_write bs \<Longrightarrow>
    sys_step s (s\<lparr>y_client := client_step env (y_client s) (Cv_written Success),
                  y_c2s := y_c2s s @ concat bs\<rparr>)"
| client_header: "\<not> tc_io_stopped (y_client s) \<Longrightarrow> tc_pending (y_client s) = C_read_header \<Longrightarrow>
    HEADER_SIZE \<le> length (y_s2c s) \<Longrightarrow>
    sys_step s (s\<lparr>y_client := client_step env (y_client s) (Cv_read Success (take HEADER_SIZE (y_s2c s))),
                  y_s2c := drop HEADER_SIZE (y_s2c s)\<rparr>)"
| client_body: "\<not> tc_io_stopped (y_client s) \<Longrightarrow> tc_pending (y_client s) = C_read_body n \<Longrightarrow>
    n \<le> length (y_s2c s) \<Longrightarrow>
    sys_step s (s\<lparr>y_client := client_step env (y_client s) (Cv_read Success (take n (y_s2c s))),
                  y_s2c := drop n (y_s2c s)\<rparr>)"
| server_header: "s_pending (y_server s) = Read_header \<Longrightarrow> HEADER_SIZE \<le> length (y_c2s s) \<Longrightarrow>
    sys_step s (s\<lparr>y_server := session_step (y_server s) (Ev_read Success (take HEADER_SIZE (y_c2s s))),
                  y_c2s := drop HEADER_SIZE (y_c2s s)\<rparr>)"
| server_body: "s_pending (y_server s) = Read_body n \<Longrightarrow> n \<le> length (y_c2s s) \<Longrightarrow>
    sys_step s (s\<lparr>y_server := session_step (y_server s) (Ev_read Success (take n (y_c2s s))),
                  y_c2s := drop n (y_c2s s)\<rparr>)"
| server_write: "s_pending (y_server s) = Write_buffers bs \<Longrightarrow>
    sys_step s (s\<lparr>y_server := session_step (y_server s) (Ev_written Success),
                  y_s2c := y_s2c s @ concat bs\<rparr>)"

section \<open>What the handlers do when all goes well\<close>

lemma send_next_ok:
  assumes "between_inv cs c" "tc_pending c = C_none"
  shows "let d = send_next_chunk env i c in
    tc_operations_stopped d \<and> tc_reported d = Some False \<or>
    \<not> tc_operations_stopped d \<and> (\<exists>bs. tc_pending d = C_write bs)"
proof -
  have run: "\<not> tc_operations_stopped c"
    using assms(1) by (simp add: client_inv_defs)
  obtain data r where dr: "read_next_chunk (tc_chunk_reader c) = (data, r)" by fastforce
  with read_next_chunk_nothing have "data = [] \<Longrightarrow> m_eof r" by blast
  then show ?thesis
    using run dr
    by (auto simp: send_next_chunk_def Let_def stop_stopped split: prod.splits)
qed

lemma handle_received_ok:
  assumes "sending_inv cs c" "tc_pending c = C_none"
    and "tc_read_body_buffer c = tc_expected_reversed_chunk c"
  shows "let d = handle_received_chunk_data env c in
    tc_operations_stopped d \<and> tc_reported d = Some False \<or>
    \<not> tc_operations_stopped d \<and> (\<exists>bs. tc_pending d = C_write bs)"
proof -
  let ?m = "stop_and_record_chunk_rtt (e_now env 0) (sz (tc_current_chunk_data c)) True (tc_metrics c)"
  let ?e = "c\<lparr>tc_metrics := ?m, tc_chunks_sent := tc_chunks_sent c + 1\<rparr>"
  have run: "\<not> tc_operations_stopped c" using assms(1) by (simp add: client_inv_defs)
  have "between_inv cs ?e" using verified_between [OF assms(1)] by simp
  from send_next_ok [OF this, of env 1] assms(2,3) run show ?thesis
    by (auto simp: handle_received_chunk_data_def Let_def stop_stopped)
qed

lemma client_header_step:
  assumes "sending_inv cs c" "tc_current_chunk_data c = p" "acceptable p" "p \<noteq> []"
  shows "let d = on_header env Success (take HEADER_SIZE (frame (rev p))) c in
    \<not> tc_operations_stopped d \<and> tc_pending d = C_read_body (length p) \<and>
    tc_current_chunk_data d = p \<and> tc_chunks_sent d = tc_chunks_sent c"
proof -
  let ?h = "take HEADER_SIZE (frame (rev p))"
  have run: "\<not> tc_operations_stopped c" and hdr: "length (tc_read_header_buffer c) = HEADER_SIZE"
    using assms(1) by (simp_all add: client_inv_defs)
  have len: "unat (parse_header ?h) = length p"
    using acceptable_announced [of "rev p" "[]"] assms(3) by (simp add: acceptable_def)
  have "unat (ucast (parse_header ?h) :: u64) \<le> unat (CHUNK_SIZE * 2)"
    using assms(3) len by (simp add: acceptable_def)
  then have "\<not> CHUNK_SIZE * 2 < ucast (parse_header ?h)" by (simp only: word_le_nat_alt not_less)
  moreover have "parse_header ?h \<noteq> 0" using len assms(4) by (metis length_0_conv unat_0)
  ultimately show ?thesis
    using run hdr len assms(2) by (simp add: on_header_def tc_do_read_body_def Let_def)
qed

lemma client_body_step:
  assumes "sending_inv cs c" "tc_current_chunk_data c = p"
    and "length (tc_read_body_buffer c) = length p"
  shows "let d = on_body env Success (rev p) c in
    tc_chunks_sent d = tc_chunks_sent c + 1 \<and>
    (tc_operations_stopped d \<and> tc_reported d = Some False \<or>
     \<not> tc_operations_stopped d \<and> (\<exists>bs. tc_pending d = C_write bs))"
proof -
  let ?c = "c\<lparr>tc_pending := C_none, tc_read_body_buffer := rev p\<rparr>"
  have run: "\<not> tc_operations_stopped c" and ex: "tc_expected_reversed_chunk c = rev p"
    using assms(1,2) by (simp_all add: client_inv_defs)
  have "sending_inv cs ?c"
    using sending_buffers(1) [of cs "c\<lparr>tc_pending := C_none\<rparr>" "rev p"] assms(1) by simp
  from handle_received_ok [OF this, of env] handle_received_sent [of ?c env] run ex
  show ?thesis using assms(3) by (simp add: on_body_def Let_def)
qed

section \<open>The phases of a transfer\<close>

definition idle_link :: "tcp_sys \<Rightarrow> bool" where
  "idle_link s \<longleftrightarrow> s_pending (y_server s) = Read_header \<and> y_c2s s = [] \<and> y_s2c s = []"

definition waiting_phase :: "tcp_sys \<Rightarrow> nat" where
  "waiting_phase s =
     (case s_pending (y_server s) of
        Read_body k \<Rightarrow> 4
      | Write_buffers b \<Rightarrow> 3
      | _ \<Rightarrow> if y_c2s s \<noteq> [] then 5 else 2)"

definition waiting_ok :: "bytes \<Rightarrow> tcp_sys \<Rightarrow> bool" where
  "waiting_ok p s \<longleftrightarrow>
     (case s_pending (y_server s) of
        Read_header \<Rightarrow> y_c2s s = frame p \<and> y_s2c s = [] \<or> y_c2s s = [] \<and> y_s2c s = frame (rev p)
      | Read_body k \<Rightarrow> k = length p \<and> length (m_read_body_buffer (y_server s)) = k \<and>
                       y_c2s s = p \<and> y_s2c s = []
      | Write_buffers bs \<Rightarrow> concat bs = frame (rev p) \<and> y_c2s s = [] \<and> y_s2c s = []
      | No_op \<Rightarrow> False)"

definition sys_phase :: "tcp_sys \<Rightarrow> bool" where
  "sys_phase s \<longleftrightarrow>
     (let c = y_client s; p = tc_current_chunk_data c
      in if tc_operations_stopped c then tc_reported c = Some False \<and> idle_link s
         else case tc_pending c of
             C_none \<Rightarrow> False
           | C_resolve \<Rightarrow> s_pending (y_server s) = No_op \<and> y_c2s s = [] \<and> y_s2c s = []
           | C_connect \<Rightarrow> s_pending (y_server s) = No_op \<and> y_c2s s = [] \<and> y_s2c s = []
           | C_write bs \<Rightarrow> idle_link s
           | C_read_header \<Rightarrow> waiting_ok p s
           | C_read_body k \<Rightarrow> k = length p \<and> s_pending (y_server s) = Read_header \<and>
                              y_c2s s = [] \<and> y_s2c s = rev p)"

definition sys_inv :: "bytes list \<Rightarrow> tcp_sys \<Rightarrow> bool" where
  "sys_inv cs s \<longleftrightarrow> client_inv cs (y_client s) \<and>
     length (m_read_header_buffer (y_server s)) = HEADER_SIZE \<and> sys_phase s"

definition sys_measure :: "bytes list \<Rightarrow> tcp_sys \<Rightarrow> nat" where
  "sys_measure cs s =
     (let c = y_client s
      in if tc_operations_stopped c then 0
         else 8 * (length cs - unat (tc_chunks_sent c)) +
           (case tc_pending c of C_resolve \<Rightarrow> 8 | C_connect \<Rightarrow> 7 | C_write b \<Rightarrow> 6
            | C_read_header \<Rightarrow> waiting_phase s | C_read_body k \<Rightarrow> 1 | C_none \<Rightarrow> 0))"

text \<open>The chunks the client sends are ones the server takes.\<close>

definition sendable :: "bytes list \<Rightarrow> bool" where
  "sendable cs \<longleftrightarrow> list_all (\<lambda>p. acceptable p \<and> p \<noteq> []) cs"

lemma sendable_chunks: "0 < n \<Longrightarrow> n \<le> unat (CHUNK_SIZE * 2) \<Longrightarrow> sendable (chunks_of n xs)"
  using chunks_of_lengths [of _ n xs] by (fastforce simp: sendable_def list_all_iff acceptable_def)

lemma sending_chunk:
  assumes "client_inv cs c" "\<not> tc_operations_stopped c" "sending c" "sendable cs"
  shows "sending_inv cs c" "acceptable (tc_current_chunk_data c)" "tc_current_chunk_data c \<noteq> []"
  using assms by (auto simp: client_inv_def sending_inv_def sendable_def list_all_length)

text \<open>Every step leads from phase to phase, and the measure goes down.\<close>

definition good_step :: "bytes list \<Rightarrow> tcp_sys \<Rightarrow> tcp_sys \<Rightarrow> bool" where
  "good_step cs s t \<longleftrightarrow> sys_inv cs t \<and> sys_measure cs t < sys_measure cs s"

lemma not_stopped:
  assumes "client_inv cs c" "\<not> tc_io_stopped c"
  shows "\<not> tc_operations_stopped c"
  using assms by (auto simp: client_inv_def stopped_inv_def)

lemma length_frame_pos [simp]: "frame p \<noteq> []" "HEADER_SIZE \<le> length (frame p)"
  using tcp.encode_not_Nil [of p] by (simp_all add: HEADER_SIZE_def)

lemma drop_frame [simp]: "drop HEADER_SIZE (frame p) = p"
  by (rule tcp.encode_payload)

lemma client_start_steps:
  assumes "sys_inv cs s" "\<not> tc_io_stopped (y_client s)"
  shows "tc_pending (y_client s) = C_resolve \<Longrightarrow>
      good_step cs s (s\<lparr>y_client := client_step env (y_client s) (Cv_resolved Success)\<rparr>)"
    and "tc_pending (y_client s) = C_connect \<Longrightarrow>
      good_step cs s (s\<lparr>y_client := client_step env (y_client s) (Cv_connected Success),
                          y_server := session_start (y_server s)\<rparr>)"
proof -
  let ?c = "y_client s"
  have inv: "client_inv cs ?c" using assms(1) by (simp add: sys_inv_def)
  have run: "\<not> tc_operations_stopped ?c" using not_stopped [OF inv assms(2)] .
  show "good_step cs s (s\<lparr>y_client := client_step env ?c (Cv_resolved Success)\<rparr>)"
    if "tc_pending ?c = C_resolve"
    using client_step_inv [OF inv, of "Cv_resolved Success" env] assms run that
    by (simp add: good_step_def sys_inv_def sys_phase_def sys_measure_def on_resolved_def
        tc_do_connect_def Let_def)
  assume p: "tc_pending ?c = C_connect"
  let ?d = "?c\<lparr>tc_pending := C_none, tc_socket_open := True,
    tc_metrics := start_timer (e_proc env) (e_now env 0) (e_now env 1) (tc_metrics ?c)\<rparr>"
  have "between_inv cs ?c" using inv run p by (simp add: client_inv_def sending_def)
  then have "between_inv cs (?c\<lparr>tc_pending := C_none\<rparr>)" by simp
  then have "between_inv cs ?d"
    unfolding between_inv_def
    by (subst running_same [of "?c\<lparr>tc_pending := C_none\<rparr>"]) (simp_all add: same_transfer_def)
  from send_next_ok [OF this, of env 2] client_step_inv [OF inv, of "Cv_connected Success" env] assms p
  show "good_step cs s (s\<lparr>y_client := client_step env ?c (Cv_connected Success),
                            y_server := session_start (y_server s)\<rparr>)"
    using run
    by (auto simp: good_step_def sys_inv_def sys_phase_def sys_measure_def on_connected_def
        session_start_def do_read_header_def idle_link_def send_keeps(2) Let_def)
qed

lemma client_write_good:
  assumes "sys_inv cs s" "\<not> tc_io_stopped (y_client s)" "tc_pending (y_client s) = C_write bs"
  shows "good_step cs s (s\<lparr>y_client := client_step env (y_client s) (Cv_written Success),
                             y_c2s := y_c2s s @ concat bs\<rparr>)"
proof -
  have inv: "client_inv cs (y_client s)" using assms(1) by (simp add: sys_inv_def)
  have run: "\<not> tc_operations_stopped (y_client s)" using not_stopped [OF inv assms(2)] .
  have "concat bs = frame (tc_current_chunk_data (y_client s))"
    using inv run assms(3) by (simp add: client_inv_def sending_def)
  with client_step_inv [OF inv, of "Cv_written Success" env] assms run show ?thesis
    by (simp add: good_step_def sys_inv_def sys_phase_def sys_measure_def on_sent_def idle_link_def
        tc_do_read_header_def waiting_ok_def waiting_phase_def Let_def)
qed

lemma client_header_good:
  assumes "sys_inv cs s" "sendable cs" "\<not> tc_io_stopped (y_client s)"
    and "tc_pending (y_client s) = C_read_header" "HEADER_SIZE \<le> length (y_s2c s)"
  shows "good_step cs s
    (s\<lparr>y_client := client_step env (y_client s) (Cv_read Success (take HEADER_SIZE (y_s2c s))),
       y_s2c := drop HEADER_SIZE (y_s2c s)\<rparr>)"
proof -
  let ?c = "y_client s" and ?p = "tc_current_chunk_data (y_client s)"
  have inv: "client_inv cs ?c" using assms(1) by (simp add: sys_inv_def)
  have run: "\<not> tc_operations_stopped ?c" using not_stopped [OF inv assms(3)] .
  have "sending ?c" using assms(4) by (simp add: sending_def)
  note snd = sending_chunk [OF inv run this assms(2)]
  have link: "s_pending (y_server s) = Read_header" "y_c2s s = []" "y_s2c s = frame (rev ?p)"
    using assms(1,4,5) run
    by (auto simp: sys_inv_def sys_phase_def waiting_ok_def HEADER_SIZE_def Let_def
        split: pending.splits)
  from client_header_step [OF snd(1) refl snd(2,3), of env]
    client_step_inv [OF inv, of "Cv_read Success (take HEADER_SIZE (y_s2c s))" env] assms(1,3,4) run link
  show ?thesis
    by (simp add: good_step_def sys_inv_def sys_phase_def sys_measure_def waiting_phase_def Let_def)
qed

lemma client_body_good:
  assumes "sys_inv cs s" "sendable cs" "\<not> tc_io_stopped (y_client s)"
    and "tc_pending (y_client s) = C_read_body k" "k \<le> length (y_s2c s)"
  shows "good_step cs s
    (s\<lparr>y_client := client_step env (y_client s) (Cv_read Success (take k (y_s2c s))),
       y_s2c := drop k (y_s2c s)\<rparr>)"
proof -
  let ?c = "y_client s" and ?p = "tc_current_chunk_data (y_client s)"
  have inv: "client_inv cs ?c" using assms(1) by (simp add: sys_inv_def)
  have run: "\<not> tc_operations_stopped ?c" using not_stopped [OF inv assms(3)] .
  have "sending ?c" using assms(4) by (simp add: sending_def)
  note snd = sending_chunk [OF inv run this assms(2)]
  have link: "k = length ?p" "s_pending (y_server s) = Read_header" "y_c2s s = []" "y_s2c s = rev ?p"
    using assms(1,4) run by (simp_all add: sys_inv_def sys_phase_def Let_def)
  have body: "length (tc_read_body_buffer ?c) = length ?p"
    using inv run assms(4) link(1) by (simp add: client_inv_def sending_def)
  have bound: "unat (tc_chunks_sent ?c) < length cs" "length cs < 2 ^ 64"
    using snd(1) idle_fits by (auto simp: client_inv_defs)
  then have "unat (tc_chunks_sent ?c + 1) = Suc (unat (tc_chunks_sent ?c))"
    by (intro unat_Suc_u64) simp
  with client_body_step [OF snd(1) refl body, of env] bound
    client_step_inv [OF inv, of "Cv_read Success (take k (y_s2c s))" env] assms(1,3,4) run link
  show ?thesis
    by (auto simp: good_step_def sys_inv_def sys_phase_def sys_measure_def idle_link_def Let_def)
qed

text \<open>The server moves only while the client waits for its answer.\<close>

lemma server_moves:
  assumes "sys_inv cs s" "sendable cs"
    and "(s_pending (y_server s) = Read_header \<and> HEADER_SIZE \<le> length (y_c2s s)) \<or>
         (\<exists>k. s_pending (y_server s) = Read_body k) \<or>
         (\<exists>bs. s_pending (y_server s) = Write_buffers bs)"
  shows "\<not> tc_operations_stopped (y_client s)" "tc_pending (y_client s) = C_read_header"
    "waiting_ok (tc_current_chunk_data (y_client s)) s"
    "acceptable (tc_current_chunk_data (y_client s))" "tc_current_chunk_data (y_client s) \<noteq> []"
proof -
  let ?c = "y_client s"
  have ph: "sys_phase s" and inv: "client_inv cs ?c" using assms(1) by (simp_all add: sys_inv_def)
  have busy: "\<not> idle_link s" "s_pending (y_server s) = Read_header \<Longrightarrow> y_c2s s \<noteq> []"
    using assms(3) by (auto simp: idle_link_def HEADER_SIZE_def)
  show run: "\<not> tc_operations_stopped ?c" using ph busy by (auto simp: sys_phase_def Let_def)
  show wait: "tc_pending ?c = C_read_header"
    using ph busy run assms(3)
    by (cases "tc_pending ?c") (auto simp: sys_phase_def Let_def)
  show "waiting_ok (tc_current_chunk_data ?c) s"
    using ph run wait by (simp add: sys_phase_def Let_def)
  have "sending ?c" using wait by (simp add: sending_def)
  from sending_chunk [OF inv run this assms(2)]
  show "acceptable (tc_current_chunk_data ?c)" "tc_current_chunk_data ?c \<noteq> []" by simp_all
qed

lemma server_header_good:
  assumes "sys_inv cs s" "sendable cs"
    and "s_pending (y_server s) = Read_header" "HEADER_SIZE \<le> length (y_c2s s)"
  shows "good_step cs s
    (s\<lparr>y_server := session_step (y_server s) (Ev_read Success (take HEADER_SIZE (y_c2s s))),
       y_c2s := drop HEADER_SIZE (y_c2s s)\<rparr>)"
proof -
  let ?p = "tc_current_chunk_data (y_client s)"
  note mv = server_moves [OF assms(1,2) disjI1 [OF conjI [OF assms(3,4)]]]
  have link: "y_c2s s = frame ?p" "y_s2c s = []"
    using mv(3) assms(3,4) by (auto simp: waiting_ok_def HEADER_SIZE_def)
  from server_header_step [OF assms(3) _ mv(4,5)] assms(1,3) mv(1,2) link show ?thesis
    by (simp add: good_step_def sys_inv_def sys_phase_def sys_measure_def waiting_ok_def
        waiting_phase_def Let_def)
qed

lemma server_body_good:
  assumes "sys_inv cs s" "sendable cs"
    and "s_pending (y_server s) = Read_body k" "k \<le> length (y_c2s s)"
  shows "good_step cs s
    (s\<lparr>y_server := session_step (y_server s) (Ev_read Success (take k (y_c2s s))),
       y_c2s := drop k (y_c2s s)\<rparr>)"
proof -
  let ?p = "tc_current_chunk_data (y_client s)"
  have "(\<exists>k. s_pending (y_server s) = Read_body k)" using assms(3) by blast
  note mv = server_moves [OF assms(1,2) disjI2 [OF disjI1 [OF this]]]
  have link: "k = length ?p" "length (m_read_body_buffer (y_server s)) = length ?p"
    "y_c2s s = ?p" "y_s2c s = []"
    using mv(3) assms(3) by (auto simp: waiting_ok_def)
  from server_body_step [OF link(2)]
  obtain bs where "s_pending (on_read_body Success ?p (y_server s)) = Write_buffers bs"
    "concat bs = frame (rev ?p)"
    "m_read_header_buffer (on_read_body Success ?p (y_server s)) = m_read_header_buffer (y_server s)"
    by auto
  with assms(1,3) mv(1,2) link show ?thesis
    by (simp add: good_step_def sys_inv_def sys_phase_def sys_measure_def waiting_ok_def
        waiting_phase_def Let_def)
qed

lemma server_write_good:
  assumes "sys_inv cs s" "sendable cs" "s_pending (y_server s) = Write_buffers bs"
  shows "good_step cs s
    (s\<lparr>y_server := session_step (y_server s) (Ev_written Success), y_s2c := y_s2c s @ concat bs\<rparr>)"
proof -
  have "(\<exists>bs. s_pending (y_server s) = Write_buffers bs)" using assms(3) by blast
  note mv = server_moves [OF assms(1,2) disjI2 [OF disjI2 [OF this]]]
  from mv(1-3) assms(1,3) server_write_step [of "y_server s"] show ?thesis
    by (simp add: good_step_def sys_inv_def sys_phase_def sys_measure_def waiting_ok_def
        waiting_phase_def Let_def)
qed

lemma sys_step_good:
  assumes "sys_step s t" "sys_inv cs s" "sendable cs"
  shows "good_step cs s t"
  using assms
proof (cases rule: sys_step.cases)
  case (resolve env)
  then show ?thesis using client_start_steps(1) assms(2) by simp
next
  case (connect env)
  then show ?thesis using client_start_steps(2) assms(2) by simp
next
  case (client_write bs env)
  then show ?thesis using client_write_good assms(2) by simp
next
  case (client_header env)
  then show ?thesis using client_header_good assms(2,3) by simp
next
  case (client_body k env)
  then show ?thesis using client_body_good assms(2,3) by simp
next
  case server_header
  then show ?thesis using server_header_good assms(2,3) by simp
next
  case (server_body k)
  then show ?thesis using server_body_good assms(2,3) by simp
next
  case (server_write bs)
  then show ?thesis using server_write_good assms(2,3) by simp
qed

section \<open>Runs of the joint system\<close>

text \<open>
  A finished transfer: the client has stopped and reports success, the link is empty, and
  the metrics hold one verified record for each chunk, in order and with its size.
\<close>

definition finished :: "bytes list \<Rightarrow> tcp_sys \<Rightarrow> bool" where
  "finished cs s \<longleftrightarrow>
     tc_operations_stopped (y_client s) \<and> tc_reported (y_client s) = Some False \<and> idle_link s \<and>
     tc_chunks_sent (y_client s) = sz cs \<and>
     map chunk_size_bytes (m_chunk_rtt_data (tc_metrics (y_client s))) = map sz cs \<and>
     list_all verified (m_chunk_rtt_data (tc_metrics (y_client s)))"

lemma sys_progress:
  assumes "sys_inv cs s"
  shows "finished cs s \<or> (\<exists>t. sys_step s t)"
proof (cases "tc_operations_stopped (y_client s)")
  case True
  then have st: "stopped_inv cs (y_client s)" and rep: "tc_reported (y_client s) = Some False"
    "idle_link s"
    using assms by (simp_all add: sys_inv_def sys_phase_def client_inv_def Let_def)
  with True success_records [OF st rep(1)] show ?thesis by (simp add: finished_def)
next
  case False
  let ?c = "y_client s"
  have io: "\<not> tc_io_stopped ?c"
    using assms False
    by (auto simp: sys_inv_def client_inv_def sending_inv_def between_inv_def running_inv_def
        split: if_splits)
  have ph: "sys_phase s" using assms by (simp add: sys_inv_def)
  show ?thesis
  proof (cases "tc_pending ?c")
    case C_none
    then show ?thesis using ph False by (simp add: sys_phase_def Let_def)
  next
    case C_read_header
    then have "waiting_ok (tc_current_chunk_data ?c) s"
      using ph False by (simp add: sys_phase_def Let_def)
    then show ?thesis
      using io C_read_header sys_step.client_header [OF io C_read_header]
        sys_step.server_header [of s] sys_step.server_body [of s] sys_step.server_write [of s]
      by (cases "s_pending (y_server s)") (auto simp: waiting_ok_def)
  next
    case (C_read_body k)
    then show ?thesis
      using ph False sys_step.client_body [OF io C_read_body] by (auto simp: sys_phase_def Let_def)
  qed (use io sys_step.intros(1-3) in blast)+
qed

text \<open>A run of the system: it cannot go on for ever, and where it stops it has finished.\<close>

lemma sys_run_inv:
  assumes "(sys_step ^^ k) s t" "sys_inv cs s" "sendable cs"
  shows "sys_inv cs t \<and> k + sys_measure cs t \<le> sys_measure cs s"
  using assms(1)
proof (induction k arbitrary: t)
  case 0
  then show ?case using assms(2) by simp
next
  case (Suc k)
  from Suc.prems obtain u where u: "(sys_step ^^ k) s u" "sys_step u t" by auto
  from Suc.IH [OF u(1)] sys_step_good [OF u(2) _ assms(3)] show ?case
    by (fastforce simp: good_step_def)
qed

lemma sys_run_finishes:
  assumes "sys_inv cs s" "sendable cs"
  shows "\<exists>t. sys_step\<^sup>*\<^sup>* s t \<and> finished cs t \<and> sys_inv cs t"
  using assms(1)
proof (induction "sys_measure cs s" arbitrary: s rule: less_induct)
  case less
  show ?case
  proof (cases "finished cs s")
    case True
    then show ?thesis using less.prems by blast
  next
    case False
    then obtain u where u: "sys_step s u" using sys_progress [OF less.prems] by blast
    from sys_step_good [OF u less.prems assms(2)]
    have "sys_inv cs u" "sys_measure cs u < sys_measure cs s" by (simp_all add: good_step_def)
    with less.hyps obtain t where "sys_step\<^sup>*\<^sup>* u t" "finished cs t" "sys_inv cs t" by blast
    with u show ?thesis by (meson converse_rtranclp_into_rtranclp)
  qed
qed

text \<open>The client the constructor makes, at the start of the run.\<close>

lemma sys_start_inv:
  assumes "client_inv cs (tc_start c)" "\<not> tc_operations_stopped c" "tc_chunks_sent c = 0"
  shows "sys_inv cs (sys_start c)" "sys_measure cs (sys_start c) \<le> 8 * length cs + 8"
  using assms
  by (simp_all add: sys_inv_def sys_start_def sys_phase_def sys_measure_def session_new_def
      tc_start_def HEADER_SIZE_def)

section \<open>Properties\<close>

lemma system_transfer:
  assumes "tc_new fs (tm_new name expected csz) = Inr c" "fs_files fs TEST_FILE_NAME = Some content"
    and "length content < 2 ^ 63"
  shows "(\<exists>t. sys_step\<^sup>*\<^sup>* (sys_start c) t \<and> finished (chunks_of (unat CHUNK_SIZE) (device_part c)) t)"
    and "(sys_step ^^ k) (sys_start c) t \<Longrightarrow>
         k \<le> 8 * length (chunks_of (unat CHUNK_SIZE) (device_part c)) + 8 \<and>
         (finished (chunks_of (unat CHUNK_SIZE) (device_part c)) t \<or> (\<exists>u. sys_step t u))"
proof -
  let ?cs = "chunks_of (unat CHUNK_SIZE) (device_part c)"
  note new = device_part_new [OF assms]
  note start = sys_start_inv [OF new(1,4,2)]
  have ok: "sendable ?cs" by (rule sendable_chunks) (simp_all add: CHUNK_SIZE_def)
  show "\<exists>t. sys_step\<^sup>*\<^sup>* (sys_start c) t \<and> finished ?cs t"
    using sys_run_finishes [OF start(1) ok] by blast
  assume "(sys_step ^^ k) (sys_start c) t"
  from sys_run_inv [OF this start(1) ok] start(2) sys_progress
  show "k \<le> 8 * length ?cs + 8 \<and> (finished ?cs t \<or> (\<exists>u. sys_step t u))" by fastforce
qed

text \<open>
  C9: the TCP transfer as a whole. On any device, a client and a server session, joined by a
  reliable connection, always bring the transfer to its end: there is a run to a finished state (the client
  reports success, every chunk the device gave has a verified record, nothing is left on the link), every run can be
  continued until it is finished, and no run takes more than eight steps for each chunk and eight more. When
  the device has no read errors, the chunks are those of the whole file.
\<close>

theorem tcp_transfer_completes:
  assumes "tc_new fs (tm_new name expected csz) = Inr c" "fs_files fs TEST_FILE_NAME = Some content"
    and "length content < 2 ^ 63"
  shows "(\<exists>t. sys_step\<^sup>*\<^sup>* (sys_start c) t \<and> finished (chunks_of (unat CHUNK_SIZE) (device_part c)) t) \<and>
         (\<forall>k t. (sys_step ^^ k) (sys_start c) t \<longrightarrow>
            k \<le> 8 * length (chunks_of (unat CHUNK_SIZE) (device_part c)) + 8 \<and>
            (finished (chunks_of (unat CHUNK_SIZE) (device_part c)) t \<or> (\<exists>u. sys_step t u))) \<and>
         (\<exists>q. content = device_part c @ q \<and> (readable fs TEST_FILE_NAME content \<longrightarrow> q = []))"
  using system_transfer [OF assms] device_part_new(5) [OF assms] by blast

lemma tcp_transfer_completes_witness:
  "\<exists>c t. tc_new (plain_fs TEST_FILE_NAME [5, 6]) (tm_new ''t'' 2 CHUNK_SIZE) = Inr c \<and>
     sys_step\<^sup>*\<^sup>* (sys_start c) t \<and> finished (chunks_of (unat CHUNK_SIZE) [5, 6]) t"
proof -
  obtain c where c: "tc_new (plain_fs TEST_FILE_NAME [5, 6]) (tm_new ''t'' 2 CHUNK_SIZE) = Inr c"
    by (rule two_byte_client)
  from tcp_transfer_completes [OF c] have "device_part c = [5, 6]" by auto
  with tcp_transfer_completes [OF c] c show ?thesis by auto
qed

text \<open>
  C36: a read error is reported as success. When a read of the test file breaks off with a device
  error, which can be the first read, in the middle of a chunk or between two, the transfer still runs to
  its end: every run can be continued until the client reports success, and it has then sent and verified
  exactly the bytes before the error, fewer than the file has.
\<close>

theorem tcp_read_error_reported_as_success:
  assumes "tc_new fs (tm_new name expected csz) = Inr c" "fs_files fs TEST_FILE_NAME = Some content"
    and "length content < 2 ^ 63" "\<forall>j<i. fs_read_fault fs TEST_FILE_NAME (j * unat CHUNK_SIZE) = None"
    and "fs_read_fault fs TEST_FILE_NAME (i * unat CHUNK_SIZE) = Some k" "k < unat CHUNK_SIZE"
    and "i * unat CHUNK_SIZE + k < length content"
  shows "(\<exists>t. sys_step\<^sup>*\<^sup>* (sys_start c) t \<and> tc_reported (y_client t) = Some False \<and>
            finished (chunks_of (unat CHUNK_SIZE) (take (i * unat CHUNK_SIZE + k) content)) t) \<and>
         (\<forall>m t. (sys_step ^^ m) (sys_start c) t \<longrightarrow> (\<exists>u. sys_step t u) \<or>
            tc_reported (y_client t) = Some False \<and>
            finished (chunks_of (unat CHUNK_SIZE) (take (i * unat CHUNK_SIZE + k) content)) t)"
proof -
  obtain r where r: "tcr_new fs TEST_FILE_NAME CHUNK_SIZE = Inr r" "tc_chunk_reader c = r"
    using assms(1) by (auto simp: tc_new_def Let_def split: sum.splits)
  have part: "device_part c = take (i * unat CHUNK_SIZE + k) content"
    using tcr_new_until_fault [OF r(1) assms(2,3) CHUNK_SIZE_bounds(1) assms(4-7)] r(2)
    by (simp add: device_part_def)
  have "tc_reported (y_client t) = Some False" if "finished cs t" for cs t
    using that by (simp add: finished_def)
  with system_transfer [OF assms(1-3), unfolded part] show ?thesis by blast
qed

lemma tcp_read_error_reported_as_success_witness:
  "\<exists>c t. tc_new ((plain_fs TEST_FILE_NAME [5, 6, 7])\<lparr>fs_read_fault := (\<lambda>_ p. if p = 0 then Some 1 else None)\<rparr>)
       (tm_new ''t'' 3 CHUNK_SIZE) = Inr c \<and>
     sys_step\<^sup>*\<^sup>* (sys_start c) t \<and> tc_reported (y_client t) = Some False \<and>
     finished (chunks_of (unat CHUNK_SIZE) [5]) t"
proof -
  let ?fs = "(plain_fs TEST_FILE_NAME [5, 6, 7])\<lparr>fs_read_fault := (\<lambda>_ p. if p = 0 then Some 1 else None)\<rparr>"
  obtain c where c: "tc_new ?fs (tm_new ''t'' 3 CHUNK_SIZE) = Inr c"
    by (simp add: tc_new_def tcr_new_def ifs_open_def ifs_closed_def ifs_fail_def ifs_size_def
        CHUNK_SIZE_def sz_def Let_def)
  from tcp_read_error_reported_as_success [OF c, of "[5, 6, 7]" 0 1] c show ?thesis
    by (auto simp: CHUNK_SIZE_def)
qed

end
