(* ===== verification/File_Gen.thy ===== *)
theory File_Gen
  imports File_Streams
begin

text \<open>
  The two generators of the random test file. \<open>generate_test_file\<close>
  (src/common/src/file_utils.cpp) fills one megabyte once and writes it again and again;
  \<open>generate_test_file_if_not_exists\<close>
  (GO++PROJECT/src/cpp_tcp_benchmark/common/src/file_utils.cpp) draws fresh bytes for every
  write, keeps a file that already has the right size, and removes what it wrote when a
  write fails. The random generator is a parameter: \<open>rng k\<close> is its \<open>k\<close>-th draw.
\<close>

section \<open>One megabyte written repeatedly\<close>

definition gen_buffer_size :: u64 where
  "gen_buffer_size = 1 * 1024 * 1024"

lemma min_buffer_pos: "0 < (n :: u64) \<Longrightarrow> 0 < min gen_buffer_size n"
  by (simp add: gen_buffer_size_def min_def)

lemma unat_buffer_size [simp]: "unat gen_buffer_size = 1048576"
  by (simp add: gen_buffer_size_def)

lemma write_step:
  assumes "w < (target :: u64)"
  shows "unat (w + min gen_buffer_size (target - w)) = unat w + min 1048576 (unat target - unat w)"
    and "unat (min gen_buffer_size (target - w)) = min 1048576 (unat target - unat w)"
    and "w + min gen_buffer_size (target - w) \<le> target"
    and "unat (target - (w + min gen_buffer_size (target - w))) < unat (target - w)"
proof -
  have d: "unat (target - w) = unat target - unat w"
    using assms by (simp add: unat_sub word_less_nat_alt word_le_nat_alt)
  show t: "unat (min gen_buffer_size (target - w)) = min 1048576 (unat target - unat w)"
    by (simp add: min_def word_le_nat_alt d)
  have lt: "unat w < unat target" using assms by (simp add: word_less_nat_alt)
  have le: "unat w + min 1048576 (unat target - unat w) \<le> unat target" using lt by simp
  then have b: "unat w + min 1048576 (unat target - unat w) < 2 ^ 64"
    using unat_u64_less [of target] by (rule order_le_less_trans)
  show s: "unat (w + min gen_buffer_size (target - w)) = unat w + min 1048576 (unat target - unat w)"
    using b by (simp add: unat_add_u64 t)
  show le': "w + min gen_buffer_size (target - w) \<le> target"
    using le by (simp add: word_le_nat_alt s)
  then show "unat (target - (w + min gen_buffer_size (target - w))) < unat (target - w)"
    using lt by (simp add: unat_sub s d)
qed

function gen_write_loop :: "string \<Rightarrow> bytes \<Rightarrow> u64 \<Rightarrow> u64 \<Rightarrow> fsys \<Rightarrow> bool \<times> fsys" where
  "gen_write_loop f buffer size_bytes bytes_written fs =
     (if bytes_written < size_bytes
      then let to_write = min gen_buffer_size (size_bytes - bytes_written)
           in case ofs_write f (take (unat to_write) buffer) fs of
                None \<Rightarrow> (False, fs)
              | Some fs' \<Rightarrow> gen_write_loop f buffer size_bytes (bytes_written + to_write) fs'
      else (True, fs))"
  by pat_completeness auto
termination
  by (relation "measure (\<lambda>(f, b, target, w, fs). unat (target - w))") (auto simp: write_step)

declare gen_write_loop.simps [simp del]

definition generate_test_file :: "(nat \<Rightarrow> byte) \<Rightarrow> fsys \<Rightarrow> string \<Rightarrow> u64 \<Rightarrow> bool \<times> fsys" where
  "generate_test_file rng fs filename size_bytes =
     (case ofs_open fs filename of
        None \<Rightarrow> (False, fs)
      | Some fs' \<Rightarrow>
          let buffer = map rng [0..<unat gen_buffer_size]
          in gen_write_loop filename buffer size_bytes 0 fs')"

text \<open>The first \<open>n\<close> bytes of the file: the megabyte repeated.\<close>

definition repeated :: "(nat \<Rightarrow> byte) \<Rightarrow> nat \<Rightarrow> bytes" where
  "repeated rng n = map (\<lambda>i. rng (i mod 1048576)) [0..<n]"

lemma repeated_step:
  assumes "1048576 dvd w" "t \<le> 1048576"
  shows "repeated rng w @ take t (map rng [0..<1048576]) = repeated rng (w + t)"
proof -
  have "map (\<lambda>i. rng (i mod 1048576)) [w..<w + t] = map rng [0..<t]"
    using assms by (intro nth_equalityI) (auto simp: mod_add_left_eq [symmetric] elim!: dvdE)
  with assms(2) show ?thesis
    by (simp add: repeated_def upt_add_eq_append [of 0 w t] take_map min_def)
qed

text \<open>
  However the writes turn out, the file holds a prefix of the repeated megabyte, all of
  it exactly when the generator reports success.
\<close>

lemma write_aligned:
  assumes "w < target" "1048576 dvd unat w"
  shows "1048576 dvd unat (w + min gen_buffer_size (target - w)) \<or>
         w + min gen_buffer_size (target - w) = target"
proof (cases "unat target - unat w < 1048576")
  case True
  then have "unat (w + min gen_buffer_size (target - w)) = unat target"
    using write_step(1) [OF assms(1)] assms(1) by (simp add: word_less_nat_alt)
  then show ?thesis by (simp add: word_unat_eq_iff)
next
  case False
  then have "unat (w + min gen_buffer_size (target - w)) = unat w + 1048576"
    using write_step(1) [OF assms(1)] by simp
  with assms(2) show ?thesis by simp
qed

lemma gen_write_loop_spec:
  assumes "fs_files fs f = Some (repeated rng (unat w))" "w \<le> target"
    and "1048576 dvd unat w \<or> w = target"
    and "gen_write_loop f (map rng [0..<1048576]) target w fs = (ok, fs')"
  shows "\<exists>n \<le> unat target. fs' = fs_put f (repeated rng n) fs \<and> (ok \<longrightarrow> n = unat target) \<and>
           ((\<forall>p. \<not> fs_write_fault fs f p) \<longrightarrow> ok) \<and> (\<not> ok \<longrightarrow> n < unat target)"
  using assms
proof (induction f "map rng [0..<1048576]" target w fs rule: gen_write_loop.induct)
  case (1 f target w fs)
  have same: "fs_put f (repeated rng (unat w)) fs = fs"
    using "1.prems"(1) by (cases fs) (auto simp: fs_put_def fun_eq_iff)
  show ?case
  proof (cases "w < target")
    case False
    then have "gen_write_loop f (map rng [0..<1048576]) target w fs = (True, fs)"
      by (simp add: gen_write_loop.simps [of f _ target w fs])
    with False "1.prems" have "w = target" "ok" "fs' = fs" by auto
    with same show ?thesis by (intro exI [of _ "unat target"]) auto
  next
    case True
    let ?t = "min gen_buffer_size (target - w)"
    have dvd: "1048576 dvd unat w" using "1.prems"(3) True by auto
    have t: "unat ?t \<le> 1048576" "unat (w + ?t) = unat w + unat ?t"
      using write_step(1,2) [OF True] by simp_all
    have data: "repeated rng (unat w) @ take (unat ?t) (map rng [0..<1048576])
                = repeated rng (unat (w + ?t))"
      using repeated_step [OF dvd t(1), of rng] t(2) by simp
    show ?thesis
    proof (cases "fs_write_fault fs f (length (repeated rng (unat w)))")
      case fault: True
      with "1.prems" True have "\<not> ok" "fs' = fs"
        by (auto simp: gen_write_loop.simps [of f _ target w fs] ofs_write_def Let_def)
      with same True fault show ?thesis
        by (intro exI [of _ "unat w"]) (auto simp: word_less_nat_alt)
    next
      case ok_write: False
      let ?fs = "fs_put f (repeated rng (unat (w + ?t))) fs"
      have wrote: "ofs_write f (take (unat ?t) (map rng [0..<1048576])) fs = Some ?fs"
        using "1.prems"(1) ok_write by (simp add: ofs_write_def data del: map_map)
      have loop: "gen_write_loop f (map rng [0..<1048576]) target (w + ?t) ?fs = (ok, fs')"
        using "1.prems"(4) True wrote by (simp add: gen_write_loop.simps [of f _ target w fs] Let_def)
      from "1.hyps" [OF True refl wrote _ write_step(3) [OF True] write_aligned [OF True dvd] loop]
      show ?thesis by simp
    qed
  qed
qed

lemma generate_test_file_outcome:
  assumes "generate_test_file rng fs f target = (ok, fs')"
  shows "if fs_can_write fs f
         then \<exists>n \<le> unat target. fs' = fs_put f (repeated rng n) fs \<and> (ok \<longleftrightarrow> n = unat target) \<and>
                ((\<forall>p. \<not> fs_write_fault fs f p) \<longrightarrow> ok)
         else \<not> ok \<and> fs' = fs"
proof (cases "fs_can_write fs f")
  case True
  let ?fs = "fs_put f [] fs"
  have "gen_write_loop f (map rng [0..<1048576]) target 0 ?fs = (ok, fs')"
    using assms True by (simp add: generate_test_file_def ofs_open_def)
  then have "\<exists>n \<le> unat target. fs' = fs_put f (repeated rng n) ?fs \<and> (ok \<longrightarrow> n = unat target) \<and>
      ((\<forall>p. \<not> fs_write_fault ?fs f p) \<longrightarrow> ok) \<and> (\<not> ok \<longrightarrow> n < unat target)"
    by (intro gen_write_loop_spec [where w = 0]) (auto simp: repeated_def)
  with True show ?thesis by (auto; force)
next
  case False
  with assms show ?thesis by (simp add: generate_test_file_def ofs_open_def)
qed

section \<open>Fresh bytes for every write\<close>

text \<open>
  The loop of the TCP benchmark. The draws are numbered through, so the buffer of a
  write that starts at offset \<open>w\<close> holds draws \<open>w\<close>, \<open>w + 1\<close>, ... On a failed write the
  file is removed and an exception is thrown.
\<close>

function tgen_loop ::
  "(nat \<Rightarrow> byte) \<Rightarrow> string \<Rightarrow> u64 \<Rightarrow> u64 \<Rightarrow> fsys \<Rightarrow> exn option \<times> fsys" where
  "tgen_loop rng f target bytes_written fs =
     (if bytes_written < target
      then let bytes_to_write = min gen_buffer_size (target - bytes_written);
               buffer = map (\<lambda>i. rng (unat bytes_written + i)) [0..<unat bytes_to_write]
           in case ofs_write f buffer fs of
                None \<Rightarrow> (Some (Runtime_error ''Failed to write to test file.''), fs_remove f fs)
              | Some fs' \<Rightarrow> tgen_loop rng f target (bytes_written + bytes_to_write) fs'
      else (None, fs))"
  by pat_completeness auto
termination
  by (relation "measure (\<lambda>(r, f, n, w, fs). unat (n - w))") (auto simp: write_step)

declare tgen_loop.simps [simp del]

definition generate_test_file_if_not_exists ::
  "(nat \<Rightarrow> byte) \<Rightarrow> fsys \<Rightarrow> string \<Rightarrow> u64 \<Rightarrow> exn option \<times> fsys" where
  "generate_test_file_if_not_exists rng fs filename target =
     (let (regenerate, fs) =
            (case fs_files fs filename of
               None \<Rightarrow> (True, fs)
             | Some bs \<Rightarrow> let current_size = sz bs
                          in if current_size \<noteq> target then (True, fs_remove filename fs)
                             else (False, fs))
      in if regenerate
         then (case ofs_open fs filename of
                 None \<Rightarrow> (Some (Runtime_error ''Failed to open test file for writing.''), fs)
               | Some fs' \<Rightarrow> tgen_loop rng filename target 0 fs')
         else (None, fs))"

lemma draws_step: "map rng [0..<w] @ map (\<lambda>i. rng (w + i)) [0..<t] = map rng [0..<w + t]"
  by (intro nth_equalityI) (auto simp: nth_append)

lemma tgen_loop_spec:
  assumes "fs_files fs f = Some (map rng [0..<unat w])" "w \<le> target"
    and "tgen_loop rng f target w fs = (ex, fs')"
  shows "(if ex = None then fs' = fs_put f (map rng [0..<unat target]) fs else fs' = fs_remove f fs) \<and>
         ((\<forall>p. \<not> fs_write_fault fs f p) \<longrightarrow> ex = None)"
  using assms
proof (induction rng f target w fs rule: tgen_loop.induct)
  case (1 rng f target w fs)
  show ?case
  proof (cases "w < target")
    case False
    then have "tgen_loop rng f target w fs = (None, fs)"
      by (simp add: tgen_loop.simps [of rng f target w fs])
    moreover have "fs_put f (map rng [0..<unat w]) fs = fs"
      using "1.prems"(1) by (cases fs) (auto simp: fs_put_def fun_eq_iff)
    ultimately show ?thesis using False "1.prems" by auto
  next
    case True
    let ?t = "min gen_buffer_size (target - w)"
    let ?buf = "map (\<lambda>i. rng (unat w + i)) [0..<unat ?t]"
    let ?fs = "fs_put f (map rng [0..<unat (w + ?t)]) fs"
    have data: "map rng [0..<unat w] @ ?buf = map rng [0..<unat (w + ?t)]"
      using write_step(1,2) [OF True] by (simp add: draws_step)
    show ?thesis
    proof (cases "fs_write_fault fs f (unat w)")
      case fault: True
      with "1.prems" True show ?thesis
        by (auto simp: tgen_loop.simps [of rng f target w fs] ofs_write_def Let_def)
    next
      case ok_write: False
      have wrote: "ofs_write f ?buf fs = Some ?fs"
        using "1.prems"(1) ok_write by (simp add: ofs_write_def data)
      have loop: "tgen_loop rng f target (w + ?t) ?fs = (ex, fs')"
        using "1.prems"(3) True wrote by (simp add: tgen_loop.simps [of rng f target w fs] Let_def)
      from "1.IH" [OF True refl refl wrote _ write_step(3) [OF True] loop]
      show ?thesis by (simp add: fs_put_def fs_remove_def split: if_splits)
    qed
  qed
qed

lemma generate_if_not_exists_outcome:
  assumes "generate_test_file_if_not_exists rng fs f target = (ex, fs')"
  shows "case fs_files fs f of
           Some bs \<Rightarrow> if sz bs = target then ex = None \<and> fs' = fs
                      else if ex = None then fs' = fs_put f (map rng [0..<unat target]) fs
                      else fs' = fs_remove f fs
         | None \<Rightarrow> if ex = None then fs' = fs_put f (map rng [0..<unat target]) fs else fs' = fs"
proof -
  have gen: "(if ex = None then fs' = fs_put f (map rng [0..<unat target]) fs0
              else fs' = fs_remove f fs0)"
    if "fs_can_write fs0 f" "tgen_loop rng f target 0 (fs_put f [] fs0) = (ex, fs')" for fs0
    using tgen_loop_spec [of "fs_put f [] fs0" f rng 0 target ex fs'] that
    by (auto simp: fs_put_def fs_remove_def split: if_splits)
  have gone: "fs_remove f fs = fs" if "fs_files fs f = None"
    using that by (cases fs) (auto simp: fs_remove_def fun_eq_iff)
  show ?thesis
  proof (cases "fs_files fs f")
    case None
    with assms gen [of fs] gone show ?thesis
      by (auto simp: generate_test_file_if_not_exists_def ofs_open_def split: if_splits)
  next
    case (Some bs)
    with assms gen [of "fs_remove f fs"] show ?thesis
      by (auto simp: generate_test_file_if_not_exists_def ofs_open_def Let_def
          fs_remove_def fs_put_def split: if_splits)
  qed
qed

section \<open>Keeping a file of the right size\<close>

text \<open>
  What the main programs of \<open>src\<close> do before they start: a readable file of the wanted size is
  kept, any other is generated anew.
\<close>

definition ensured :: "(nat \<Rightarrow> byte) \<Rightarrow> fsys \<Rightarrow> string \<Rightarrow> u64 \<Rightarrow> bool \<times> fsys" where
  "ensured rng fs f target =
     (if fs_can_read fs f \<and> map_option sz (fs_files fs f) = Some target then (True, fs)
      else generate_test_file rng fs f target)"

lemma ensured_open:
  "(is_opened (ifs_open fs f) \<and> ifs_size (ifs_open fs f) = target) \<longleftrightarrow>
   fs_can_read fs f \<and> map_option sz (fs_files fs f) = Some target"
  by (auto simp: ifs_open_def ifs_size_def ifs_closed_def split: option.split)

text \<open>A device on which nothing fails, whatever files it holds.\<close>

definition healthy :: "fsys \<Rightarrow> bool" where
  "healthy fs \<longleftrightarrow> (\<forall>f. fs_can_read fs f \<and> fs_can_write fs f) \<and>
     (\<forall>f p. fs_read_fault fs f p = None \<and> \<not> fs_write_fault fs f p) \<and>
     (\<forall>f bs. fs_files fs f = Some bs \<longrightarrow> fits bs)"

lemma healthy_plain: "healthy (plain_fs f [])"
  by (auto simp: healthy_def split: if_splits)

lemma healthy_ensured:
  assumes "healthy fs"
  obtains fs' bs where "ensured rng fs f target = (True, fs')" "readable fs' f bs"
    "length bs = unat target" "healthy fs'"
proof (cases "\<exists>bs. fs_files fs f = Some bs \<and> sz bs = target")
  case True
  then obtain bs where bs: "fs_files fs f = Some bs" "sz bs = target" by blast
  then have "fits bs" "readable fs f bs" "ensured rng fs f target = (True, fs)"
    using assms by (auto simp: readable_def healthy_def ensured_def)
  moreover from this(1) bs(2) have "length bs = unat target" by (auto simp: unat_sz)
  ultimately show ?thesis using that assms by blast
next
  case False
  then have gen: "ensured rng fs f target = generate_test_file rng fs f target"
    by (auto simp: ensured_def)
  obtain ok fs' where g: "generate_test_file rng fs f target = (ok, fs')" by fastforce
  have p: "ok" "fs' = fs_put f (repeated rng (unat target)) fs"
    using generate_test_file_outcome [OF g] assms by (auto simp: healthy_def)
  have "fits (repeated rng (unat target))"
    using unat_u64_less [of target] by (simp add: fits_def repeated_def)
  with p(2) assms have "healthy fs'" by (auto simp: healthy_def)
  with g gen p assms show ?thesis
    by (intro that [of fs' "repeated rng (unat target)"]) (auto simp: readable_def repeated_def healthy_def)
qed

section \<open>Properties\<close>

text \<open>
  \<open>generate_test_file\<close> leaves a prefix of the repeated megabyte in the file, however the
  writes turn out; it reports success exactly when that prefix has the requested size, which it
  has whenever no write fails; a file that cannot be opened leaves everything as it was.
\<close>

theorem generated_file_prefix:
  "case generate_test_file rng fs f target of
     (ok, fs') \<Rightarrow>
       if fs_can_write fs f
       then \<exists>n \<le> unat target. fs' = fs_put f (repeated rng n) fs \<and> (ok \<longleftrightarrow> n = unat target) \<and>
              ((\<forall>p. \<not> fs_write_fault fs f p) \<longrightarrow> ok)
       else \<not> ok \<and> fs' = fs"
  using generate_test_file_outcome [of rng fs f target]
  by (cases "generate_test_file rng fs f target") auto

lemma generated_file_prefix_witness:
  "fst (generate_test_file (\<lambda>i. of_nat i) (plain_fs ''g'' []) ''f'' 5)"
  using generated_file_prefix [where rng = "\<lambda>i. of_nat i" and fs = "plain_fs ''g'' []" and f = "''f''"
      and target = 5]
  by (auto split: prod.splits)


end
