(* ===== verification/Tcp_Main.thy ===== *)
theory Tcp_Main
  imports Tcp_System File_Gen
begin

text \<open>
  The main program of the TCP client (GO++PROJECT/src/cpp_tcp_benchmark/client/tcp_client.cpp,
  \<open>main\<close>) around the client object: the test file is generated if needed and checked, the
  client is built and run, the summary is printed and the CSV files are saved. The first
  part ends with the exit code or the client that is then started; the event loop between
  the two parts is \<open>sys_step\<close>.
\<close>

definition TOTAL_FILE_SIZE :: u64 where
  "TOTAL_FILE_SIZE = 10 * 1024 * 1024 * 1024"

definition CPP_OVERALL_METRICS_FILE :: string where
  "CPP_OVERALL_METRICS_FILE = ''results/cpp_overall_metrics.csv''"

definition CPP_CHUNK_RTT_METRICS_FILE :: string where
  "CPP_CHUNK_RTT_METRICS_FILE = ''results/cpp_chunk_rtt_metrics.csv''"

definition DEFAULT_SERVER_IP :: string where
  "DEFAULT_SERVER_IP = ''127.0.0.1''"

definition TCP_SERVER_PORT :: nat where
  "TCP_SERVER_PORT = 12345"

text \<open>The host \<open>start\<close> resolves: the first argument of the program, if there is one.\<close>

definition server_ip_of :: "string list \<Rightarrow> string" where
  "server_ip_of argv = (if 1 < length argv then argv ! 1 else DEFAULT_SERVER_IP)"

definition tcp_main_begin :: "(nat \<Rightarrow> byte) \<Rightarrow> fsys \<Rightarrow> (int + tcp_client) \<times> fsys" where
  "tcp_main_begin rng fs =
     (case generate_test_file_if_not_exists rng fs TEST_FILE_NAME TOTAL_FILE_SIZE of
        (Some e, fs) \<Rightarrow> (Inl 1, fs)
      | (None, fs) \<Rightarrow>
          (case fs_files fs TEST_FILE_NAME of
             None \<Rightarrow> (Inl 1, fs)
           | Some bs \<Rightarrow>
               if sz bs \<noteq> TOTAL_FILE_SIZE then (Inl 1, fs)
               else case tc_new fs (tm_new ''CPP_TCP'' TOTAL_FILE_SIZE CHUNK_SIZE) of
                      Inl e \<Rightarrow> (Inl 1, fs)
                    | Inr c \<Rightarrow> (Inr c, fs)))"

definition tcp_main_end :: "tcp_client \<Rightarrow> fsys \<Rightarrow> int \<times> string \<times> fsys" where
  "tcp_main_end c fs =
     (0, print_summary (tc_metrics c),
      save_to_csv (tc_metrics c) CPP_OVERALL_METRICS_FILE CPP_CHUNK_RTT_METRICS_FILE fs)"

lemma unat_TOTAL_FILE_SIZE [simp]: "unat TOTAL_FILE_SIZE = 10737418240"
  by (simp add: TOTAL_FILE_SIZE_def)

text \<open>On a device without faults the generator leaves a file of the configured size.\<close>

lemma generated_total:
  assumes "fs_can_read fs f" "fs_can_write fs f" "\<forall>p. fs_read_fault fs f p = None"
    "\<forall>p. \<not> fs_write_fault fs f p" "\<forall>bs. fs_files fs f = Some bs \<longrightarrow> fits bs"
  obtains fs' bs where "generate_test_file_if_not_exists rng fs f target = (None, fs')"
    "readable fs' f bs" "length bs = unat target"
proof -
  obtain ex fs' where gen: "generate_test_file_if_not_exists rng fs f target = (ex, fs')" by fastforce
  have loop: "fst (tgen_loop rng f target 0 (fs_put f [] fs0)) = None"
    if "\<forall>p. \<not> fs_write_fault fs0 f p" for fs0
    using tgen_loop_spec [of "fs_put f [] fs0" f rng 0 target] that
    by (cases "tgen_loop rng f target 0 (fs_put f [] fs0)") auto
  have ex: "ex = None"
    using gen assms(2,4) loop [of fs] loop [of "fs_remove f fs"]
    by (auto simp: generate_test_file_if_not_exists_def ofs_open_def Let_def
        split: option.splits if_splits)
  have size_of: "length bs = unat (sz bs)" if "fs_files fs f = Some bs" for bs
    using assms(5) that by (simp add: unat_sz)
  from generate_if_not_exists_outcome [OF gen] ex assms(1,3) size_of
  obtain bs where "readable fs' f bs" "length bs = unat target"
    by (cases "fs_files fs f") (auto simp: readable_def split: if_splits)
  with gen ex that show ?thesis by blast
qed

text \<open>Whatever the device does, \<open>main\<close> gives up with 1 or runs a client of a file of the configured size.\<close>

lemma tcp_main_begin_any:
  assumes "\<forall>bs. fs_files fs TEST_FILE_NAME = Some bs \<longrightarrow> fits bs"
  shows "case tcp_main_begin rng fs of
           (Inl code, fs') \<Rightarrow> code = 1
         | (Inr c, fs') \<Rightarrow> (\<exists>content. fs_files fs' TEST_FILE_NAME = Some content \<and>
             length content = 10737418240 \<and>
             tc_new fs' (tm_new ''CPP_TCP'' TOTAL_FILE_SIZE CHUNK_SIZE) = Inr c)"
proof -
  obtain ex fs' where gen: "generate_test_file_if_not_exists rng fs TEST_FILE_NAME TOTAL_FILE_SIZE = (ex, fs')"
    by fastforce
  have len: "length bs = 10737418240" if "fits bs" "sz bs = TOTAL_FILE_SIZE" for bs
    using unat_sz [OF that(1)] that(2) by simp
  have "length content = 10737418240"
    if "ex = None" "fs_files fs' TEST_FILE_NAME = Some content" for content
    using generate_if_not_exists_outcome [OF gen] that assms len
    by (cases "fs_files fs TEST_FILE_NAME") (auto split: if_splits)
  with gen show ?thesis
    by (auto simp: tcp_main_begin_def split: option.splits sum.splits)
qed

text \<open>On a device without faults it runs a client that gets the whole file.\<close>

lemma tcp_main_begin_ok:
  assumes "fs_can_read fs TEST_FILE_NAME" "fs_can_write fs TEST_FILE_NAME"
    "\<forall>p. fs_read_fault fs TEST_FILE_NAME p = None" "\<forall>p. \<not> fs_write_fault fs TEST_FILE_NAME p"
    "\<forall>bs. fs_files fs TEST_FILE_NAME = Some bs \<longrightarrow> fits bs"
  obtains c fs' where "tcp_main_begin rng fs = (Inr c, fs')" "length (device_part c) = 10737418240"
proof -
  obtain fs' content where gen: "generate_test_file_if_not_exists rng fs TEST_FILE_NAME TOTAL_FILE_SIZE = (None, fs')"
    and content: "readable fs' TEST_FILE_NAME content" "length content = unat TOTAL_FILE_SIZE"
    using generated_total [OF assms, of rng TOTAL_FILE_SIZE] by blast
  have "length content < 2 ^ 63" using content(2) by simp
  from tc_new_readable [OF content(1) this]
  obtain c where c: "tc_new fs' (tm_new ''CPP_TCP'' TOTAL_FILE_SIZE CHUNK_SIZE) = Inr c" .
  have f: "fs_files fs' TEST_FILE_NAME = Some content" using content(1) by (simp add: readable_def)
  have "sz content = TOTAL_FILE_SIZE" using content(2) by (simp add: sz_def TOTAL_FILE_SIZE_def)
  with gen f c have "tcp_main_begin rng fs = (Inr c, fs')"
    by (simp add: tcp_main_begin_def)
  moreover have "length (device_part c) = 10737418240"
    using device_part_new(5) [OF c f \<open>length content < 2 ^ 63\<close>] content by auto
  ultimately show ?thesis by (rule that)
qed

section \<open>Properties\<close>

text \<open>
  C19: the TCP client from its main program to the end. Whatever the device does, \<open>main\<close> either
  gives up with 1 or ends up with a client whose transfer with the server always comes to its end: every run
  can be continued until the client reports success for all the device gives of the ten-gigabyte file, within
  1310728 steps. When the device has no faults it does get that far, whatever the test file was before,
  and the client gets all 163840 chunks.
\<close>

theorem tcp_program_completes:
  assumes "\<forall>bs. fs_files fs TEST_FILE_NAME = Some bs \<longrightarrow> fits bs"
  shows "(case tcp_main_begin rng fs of
            (Inl code, fs') \<Rightarrow> code = 1
          | (Inr c, fs') \<Rightarrow>
              (\<exists>t. sys_step\<^sup>*\<^sup>* (sys_start c) t \<and> finished (chunks_of 65536 (device_part c)) t) \<and>
              (\<forall>k t. (sys_step ^^ k) (sys_start c) t \<longrightarrow> k \<le> 1310728 \<and>
                 (finished (chunks_of 65536 (device_part c)) t \<or> (\<exists>u. sys_step t u)))) \<and>
         (fs_can_read fs TEST_FILE_NAME \<and> fs_can_write fs TEST_FILE_NAME \<and>
          (\<forall>p. fs_read_fault fs TEST_FILE_NAME p = None \<and> \<not> fs_write_fault fs TEST_FILE_NAME p) \<longrightarrow>
            (\<exists>c fs'. tcp_main_begin rng fs = (Inr c, fs') \<and>
               length (chunks_of 65536 (device_part c)) = 163840))"
proof (intro conjI impI)
  have n: "unat CHUNK_SIZE = 65536" by (simp add: CHUNK_SIZE_def)
  show "case tcp_main_begin rng fs of
            (Inl code, fs') \<Rightarrow> code = 1
          | (Inr c, fs') \<Rightarrow>
              (\<exists>t. sys_step\<^sup>*\<^sup>* (sys_start c) t \<and> finished (chunks_of 65536 (device_part c)) t) \<and>
              (\<forall>k t. (sys_step ^^ k) (sys_start c) t \<longrightarrow> k \<le> 1310728 \<and>
                 (finished (chunks_of 65536 (device_part c)) t \<or> (\<exists>u. sys_step t u)))"
  proof (cases "tcp_main_begin rng fs")
    case (Pair r fs')
    show ?thesis
    proof (cases r)
      case (Inl code)
      with tcp_main_begin_any [OF assms, of rng] Pair show ?thesis by simp
    next
      case (Inr c)
      with tcp_main_begin_any [OF assms, of rng] Pair obtain content
        where f: "fs_files fs' TEST_FILE_NAME = Some content" "length content = 10737418240"
          and c: "tc_new fs' (tm_new ''CPP_TCP'' TOTAL_FILE_SIZE CHUNK_SIZE) = Inr c" by auto
      have small: "length content < 2 ^ 63" using f(2) by simp
      obtain q where "content = device_part c @ q" using device_part_new(5) [OF c f(1) small] by blast
      then have "length (device_part c) \<le> 10737418240" using f(2) by simp
      then have "8 * length (chunks_of 65536 (device_part c)) + 8 \<le> 1310728"
        by (simp add: length_chunks_of)
      with system_transfer [OF c f(1) small] Pair Inr show ?thesis unfolding n by fastforce
    qed
  qed
next
  assume "fs_can_read fs TEST_FILE_NAME \<and> fs_can_write fs TEST_FILE_NAME \<and>
      (\<forall>p. fs_read_fault fs TEST_FILE_NAME p = None \<and> \<not> fs_write_fault fs TEST_FILE_NAME p)"
  then obtain c fs' where "tcp_main_begin rng fs = (Inr c, fs')" "length (device_part c) = 10737418240"
    using tcp_main_begin_ok [of fs rng] assms by metis
  then show "\<exists>c fs'. tcp_main_begin rng fs = (Inr c, fs') \<and>
      length (chunks_of 65536 (device_part c)) = 163840"
    by (simp add: length_chunks_of)
qed

lemma tcp_program_completes_witness:
  "\<exists>c fs' t. tcp_main_begin (\<lambda>_. 0) (plain_fs TEST_FILE_NAME []) = (Inr c, fs') \<and>
     sys_step\<^sup>*\<^sup>* (sys_start c) t \<and> tc_reported (y_client t) = Some False"
  using tcp_program_completes [of "plain_fs TEST_FILE_NAME []" "\<lambda>_. 0"]
  by (auto simp: finished_def fits_def; blast)

end
