(* ===== verification/Tcp_Program.thy ===== *)
theory Tcp_Program
  imports Tcp_Main
begin

text \<open>
  The whole TCP client program (GO++PROJECT/src/cpp_tcp_benchmark/client/tcp_client.cpp,
  \<open>main\<close>): preparation, the event loop against an arbitrary network, and the results. The handler
  of \<open>async_connect\<close> asks the socket for its remote endpoint to print it, which throws when the
  peer has reset the connection by then; the exception leaves \<open>io_context.run\<close>, and \<open>main\<close> ends
  with 1 without saving anything.

  An event comes with the environment of its handler and, where that call throws, with the text
  of the exception. \<open>None\<close> as the exit code is a program whose loop has not returned yet.
\<close>

section \<open>The program\<close>

type_synonym loop_event = "client_env \<times> client_event \<times> string option"

fun io_run :: "loop_event list \<Rightarrow> tcp_client \<Rightarrow> exn + tcp_client" where
  "io_run [] c = Inr c"
| "io_run ((env, e, lost) # es) c =
     (if \<not> client_accepts c e then io_run es c
      else case (e, lost) of
             (Cv_connected Success, Some what) \<Rightarrow> Inl (Runtime_error what)
           | _ \<Rightarrow> io_run es (client_step env c e))"

definition tcp_client_main :: "(nat \<Rightarrow> byte) \<Rightarrow> fsys \<Rightarrow> loop_event list \<Rightarrow> int option \<times> string \<times> fsys" where
  "tcp_client_main rng fs es =
     (case tcp_main_begin rng fs of
        (Inl code, fs) \<Rightarrow> (Some code, '''', fs)
      | (Inr c, fs) \<Rightarrow>
          (case io_run es (tc_start c) of
             Inl e \<Rightarrow> (Some 1, '''', fs)
           | Inr c \<Rightarrow>
               if tc_io_stopped c
               then (case tcp_main_end c fs of (code, out, fs) \<Rightarrow> (Some code, out, fs))
               else (None, '''', fs)))"

lemma io_run_reachable:
  "io_run es c = Inr d \<Longrightarrow> client_reachable c0 c \<Longrightarrow> client_reachable c0 d"
proof (induction es arbitrary: c)
  case (Cons x es)
  obtain env e lost where x: "x = (env, e, lost)" by (cases x)
  show ?case
  proof (cases "client_accepts c e")
    case True
    then have "client_reachable c0 (client_step env c e)"
      using Cons.prems(2) by (rule client_reachable.event [rotated])
    moreover have "io_run es (client_step env c e) = Inr d"
      using Cons.prems(1) x True
      by (auto split: client_event.splits error_code.splits option.splits)
    ultimately show ?thesis using Cons.IH by blast
  qed (use Cons x in simp)
qed simp

section \<open>The metrics keep their name\<close>

lemma metrics_name [simp]:
  "m_protocol_name (start_resource_monitoring env now m) = m_protocol_name m"
  "m_protocol_name (stop_resource_monitoring env now m) = m_protocol_name m"
  "m_protocol_name (start_timer env now now' m) = m_protocol_name m"
  "m_protocol_name (stop_timer env now now' m) = m_protocol_name m"
  "m_protocol_name (start_chunk_rtt_timer now m) = m_protocol_name m"
  "m_protocol_name (stop_and_record_chunk_rtt now b ok m) = m_protocol_name m"
  "m_protocol_name (record_chunk_verified ok m) = m_protocol_name m"
  by (simp_all add: start_resource_monitoring_def stop_resource_monitoring_def start_timer_def
      stop_timer_def start_chunk_rtt_timer_def stop_and_record_chunk_rtt_def record_chunk_verified_def Let_def)

abbreviation client_name :: "tcp_client \<Rightarrow> string" where
  "client_name c \<equiv> m_protocol_name (tc_metrics c)"

lemma operations_name [simp]:
  "client_name (stop_client_operations env i err c) = client_name c"
  "client_name (send_next_chunk env i c) = client_name c"
  "client_name (handle_received_chunk_data env c) = client_name c"
  "client_name (on_resolved env ec c) = client_name c"
  "client_name (on_connected env ec c) = client_name c"
  "client_name (on_sent env ec c) = client_name c"
proof -
  show stop [simp]: "client_name (stop_client_operations env i err c) = client_name c" for i err c
    by (simp add: stop_client_operations_def Let_def)
  show send [simp]: "client_name (send_next_chunk env i c) = client_name c" for i c
    by (simp add: send_next_chunk_def Let_def case_prod_beta)
  show "client_name (handle_received_chunk_data env c) = client_name c"
    by (simp add: handle_received_chunk_data_def Let_def)
  show "client_name (on_resolved env ec c) = client_name c" "client_name (on_connected env ec c) = client_name c"
    "client_name (on_sent env ec c) = client_name c"
    by (simp_all add: on_resolved_def on_connected_def on_sent_def tc_do_connect_def tc_do_read_header_def Let_def)
qed

lemma client_step_name: "client_name (client_step env c e) = client_name c"
proof (cases e)
  case (Cv_read ec data)
  have "client_name (on_header env ec data c) = client_name c"
    by (simp add: on_header_def tc_do_read_body_def Let_def)
  moreover
  define d where
    "d = c\<lparr>tc_pending := C_none, tc_read_body_buffer := overwrite (tc_read_body_buffer c) data\<rparr>"
  have "on_body env ec data c \<in> {d, stop_client_operations env 0 True d, handle_received_chunk_data env d}"
    by (simp add: on_body_def d_def [symmetric] Let_def)
  then have "client_name (on_body env ec data c) = client_name c" by (auto simp: d_def)
  ultimately show ?thesis using Cv_read by simp
qed simp_all

lemma reachable_name: "client_reachable c0 c \<Longrightarrow> client_name c = client_name c0"
  by (induction rule: client_reachable.induct) (simp_all add: client_step_name tc_start_def)

section \<open>What the program leaves\<close>

text \<open>The results files can be written.\<close>

definition results_writable :: "fsys \<Rightarrow> bool" where
  "results_writable fs \<longleftrightarrow>
     fs_can_write fs CPP_OVERALL_METRICS_FILE \<and> fs_can_write fs CPP_CHUNK_RTT_METRICS_FILE \<and>
     \<not> fs_write_fault fs CPP_OVERALL_METRICS_FILE 0 \<and> \<not> fs_write_fault fs CPP_CHUNK_RTT_METRICS_FILE 0"

lemma results_writable_main:
  "tcp_main_begin rng fs = (r, fs') \<Longrightarrow> results_writable fs' \<longleftrightarrow> results_writable fs"
proof -
  assume main: "tcp_main_begin rng fs = (r, fs')"
  obtain ex fs1 where gen: "generate_test_file_if_not_exists rng fs TEST_FILE_NAME TOTAL_FILE_SIZE = (ex, fs1)"
    by fastforce
  have "fs' = fs1"
    using main gen by (auto simp: tcp_main_begin_def split: option.splits if_splits sum.splits)
  moreover have "fs1 = fs \<or> fs1 = fs_remove TEST_FILE_NAME fs \<or> (\<exists>bs. fs1 = fs_put TEST_FILE_NAME bs fs)"
    using generate_if_not_exists_outcome [OF gen]
    by (auto split: option.splits if_splits)
  ultimately show ?thesis by (auto simp: results_writable_def)
qed

text \<open>The rows of the RTT file, and what a stopped client has in its metrics.\<close>

definition rtt_rows :: "fsys \<Rightarrow> chunk_rtt_info list option" where
  "rtt_rows fs = map_option (\<lambda>bs. map read_rtt_row (tl (csv_rows (bytes_text bs))))
     (fs_files fs CPP_CHUNK_RTT_METRICS_FILE)"

lemma stopped_records:
  assumes "stopped_inv cs c"
  defines "rows \<equiv> m_chunk_rtt_data (tc_metrics c)"
  shows "map chunk_size_bytes rows = map sz (take (length rows) cs)"
    "map chunk_index rows = map (\<lambda>i. of_nat (Suc i)) [0..<length rows]"
    "length (filter verified rows) = unat (tc_chunks_sent c)"
    "length rows \<le> length cs" "length rows \<le> Suc (unat (tc_chunks_sent c))"
    "tc_reported c = Some False \<Longrightarrow> length rows = length cs \<and> list_all verified rows"
proof -
  have idle: "idle_inv cs c" using assms(1) by (simp add: stopped_inv_def)
  then have wf: "tm_wf (tc_metrics c)" and vr: "m_verified_chunks_count (tc_metrics c) = tc_chunks_sent c"
    by (simp_all add: idle_inv_def)
  note rec = idle_records [OF idle, folded rows_def]
  show sizes: "map chunk_size_bytes rows = map sz (take (length rows) cs)"
    using idle by (simp add: idle_inv_def rows_def)
  show "map chunk_index rows = map (\<lambda>i. of_nat (Suc i)) [0..<length rows]"
    using wf by (simp add: tm_wf_def rows_def)
  show "length rows \<le> length cs" using rec(2) .
  have fit: "length rows < 2 ^ 64" using rec(2) idle_fits [OF idle] by simp
  have "fits (filter verified rows)"
    using le_less_trans [OF length_filter_le [of verified rows] fit] by (simp add: fits_def)
  moreover have "sz (filter verified rows) = tc_chunks_sent c" using wf vr by (simp add: tm_wf_def rows_def)
  ultimately show count: "length (filter verified rows) = unat (tc_chunks_sent c)" using unat_sz by metis
  have "m_processed_chunks_count (tc_metrics c) \<in> {tc_chunks_sent c, tc_chunks_sent c + 1}"
    using assms(1) by (auto simp: stopped_inv_def split: option.splits bool.splits)
  then have "sz rows \<in> {tc_chunks_sent c, tc_chunks_sent c + 1}" using wf by (simp add: tm_wf_def rows_def)
  then have "unat (sz rows) \<le> Suc (unat (tc_chunks_sent c))"
    by (auto simp: unat_word_ariths intro: mod_less_eq_dividend [THEN order_trans])
  then show "length rows \<le> Suc (unat (tc_chunks_sent c))" using rec(1) by simp
  assume ok: "tc_reported c = Some False"
  from success_records(2,3) [OF assms(1) ok] show "length rows = length cs \<and> list_all verified rows"
    unfolding rows_def by (metis length_map)
qed

section \<open>Properties\<close>

text \<open>
  Where a run of the program has come to its end, the client has stopped and its records are those
  of the chunks the device delivered, under the protocol name of the program.
\<close>

lemma program_run_stopped:
  assumes "tc_new fs (tm_new ''CPP_TCP'' TOTAL_FILE_SIZE CHUNK_SIZE) = Inr c0"
    "fs_files fs TEST_FILE_NAME = Some content" "length content < 2 ^ 63"
    "client_reachable c0 c" "tc_io_stopped c"
  shows "tc_operations_stopped c" "stopped_inv (chunks_of 65536 (device_part c0)) c" "client_name c = ''CPP_TCP''"
proof -
  have "unat CHUNK_SIZE = 65536" by (simp add: CHUNK_SIZE_def)
  then have "client_inv (chunks_of 65536 (device_part c0)) c"
    using client_reachable_inv [OF device_part_new(1) [OF assms(1-3)] assms(4)] by simp
  then show "tc_operations_stopped c" "stopped_inv (chunks_of 65536 (device_part c0)) c"
    using assms(5)
    by (auto simp: client_inv_def sending_inv_def between_inv_def running_inv_def split: if_splits)
  show "client_name c = ''CPP_TCP''"
    using reachable_name [OF assms(4)] tc_new_any(3) [OF assms(1-3) tm_new_wf] by (simp add: tm_new_def)
qed

text \<open>
  C5: what the program leaves, against any network and on any device that takes the results files. The
  exit code is 1 exactly when the preparation failed or the loop ended with an exception. Otherwise it is
  0, whatever was reported, and the RTT file reads back as records of the first chunks of what the device gave
  of the test file, in order, with their indices and sizes: one for each chunk that was verified and at most one
  more. When the client reported success there is one for each chunk, and all are verified.
\<close>

theorem tcp_program_leaves_records:
  assumes "\<forall>bs. fs_files fs TEST_FILE_NAME = Some bs \<longrightarrow> fits bs" "results_writable fs"
    and "tcp_client_main rng fs es = (Some code, out, fs2)"
  shows "code = 1 \<and> out = [] \<and>
           (case tcp_main_begin rng fs of
              (Inl _, _) \<Rightarrow> True | (Inr c0, _) \<Rightarrow> \<exists>e. io_run es (tc_start c0) = Inl e) \<or>
         code = 0 \<and> (\<exists>c0 fs' c rows. tcp_main_begin rng fs = (Inr c0, fs') \<and>
           io_run es (tc_start c0) = Inr c \<and> tc_operations_stopped c \<and> out = print_summary (tc_metrics c) \<and> rtt_rows fs2 = Some rows \<and>
           map chunk_size_bytes rows = map sz (take (length rows) (chunks_of 65536 (device_part c0))) \<and>
           map chunk_index rows = map (\<lambda>i. of_nat (Suc i)) [0..<length rows] \<and>
           length (filter verified rows) = unat (tc_chunks_sent c) \<and>
           length rows \<le> Suc (unat (tc_chunks_sent c)) \<and>
           (tc_reported c = Some False \<longrightarrow>
              length rows = length (chunks_of 65536 (device_part c0)) \<and> list_all verified rows))"
proof (cases "tcp_main_begin rng fs")
  case (Pair r fs')
  note prep = tcp_main_begin_any [OF assms(1), of rng, unfolded Pair]
  have writable: "results_writable fs'" using results_writable_main [OF Pair] assms(2) by simp
  show ?thesis
  proof (cases r)
    case (Inl e)
    with assms(3) Pair prep show ?thesis by (simp add: tcp_client_main_def)
  next
    case (Inr c0)
    show ?thesis
    proof (cases "io_run es (tc_start c0)")
      case (Inl e)
      with assms(3) Pair Inr show ?thesis by (simp add: tcp_client_main_def)
    next
      case run: (Inr c)
      have main: "tc_io_stopped c" "tcp_main_end c fs' = (code, out, fs2)"
        using assms(3) Pair Inr run
        by (auto simp: tcp_client_main_def split: if_splits prod.splits)
      have reach: "client_reachable c0 c"
        using io_run_reachable [OF run] client_reachable.start by blast
      obtain content where f: "fs_files fs' TEST_FILE_NAME = Some content" "length content = 10737418240"
        and c0: "tc_new fs' (tm_new ''CPP_TCP'' TOTAL_FILE_SIZE CHUNK_SIZE) = Inr c0"
        using prep Inr by auto
      have small: "length content < 2 ^ 63" using f(2) by simp
      note stopped = program_run_stopped [OF c0 f(1) small reach main(1)]
      have "plain_field (client_name c)" by (simp add: stopped(3) plain_field_def)
      from rtt_csv_roundtrip [OF _ _ _ _ this, of fs' CPP_OVERALL_METRICS_FILE CPP_CHUNK_RTT_METRICS_FILE]
        writable main(2)
      have "rtt_rows fs2 = Some (m_chunk_rtt_data (tc_metrics c))" "code = 0" "out = print_summary (tc_metrics c)"
        by (auto simp: results_writable_def tcp_main_end_def rtt_rows_def)
      with stopped_records [OF stopped(2)] stopped(1) run Pair Inr show ?thesis by blast
    qed
  qed
qed

text \<open>The name of the server is not resolved: the program reports an error and exits with 0.\<close>

lemma tcp_program_leaves_records_witness:
  "\<exists>out fs2. tcp_client_main (\<lambda>_. 0) (plain_fs TEST_FILE_NAME [])
       [(\<lparr>e_now = (\<lambda>_. 0), e_proc = \<lparr>proc_stat_text = None, proc_status_text = None, clk_tck = 100\<rparr>\<rparr>,
         Cv_resolved (Other_error ''unknown host''), None)] = (Some 0, out, fs2) \<and>
     (\<exists>rows. rtt_rows fs2 = Some rows \<and> length (filter verified rows) = 0)"
proof -
  let ?fs = "plain_fs TEST_FILE_NAME []" and ?rng = "\<lambda>_ :: nat. 0 :: byte"
  define env where "env = \<lparr>e_now = (\<lambda>_. 0), e_proc =
    \<lparr>proc_stat_text = None, proc_status_text = None, clk_tck = 100\<rparr>\<rparr>"
  let ?es = "[(env, Cv_resolved (Other_error ''unknown host''), None)]"
  have fits: "\<forall>bs. fs_files ?fs TEST_FILE_NAME = Some bs \<longrightarrow> fits bs" by (simp add: fits_def)
  have ok: "results_writable ?fs" by (simp add: results_writable_def)
  obtain c0 fs' where c0: "tcp_main_begin ?rng ?fs = (Inr c0, fs')"
    using tcp_main_begin_ok [of ?fs ?rng] fits by fastforce
  obtain content where f: "fs_files fs' TEST_FILE_NAME = Some content" "length content = 10737418240"
    and new: "tc_new fs' (tm_new ''CPP_TCP'' TOTAL_FILE_SIZE CHUNK_SIZE) = Inr c0"
    using tcp_main_begin_any [OF fits, of ?rng] c0 by auto
  have run: "\<not> tc_operations_stopped c0" "\<not> tc_io_stopped c0" "tc_chunks_sent c0 = 0"
    using new by (auto simp: tc_new_def Let_def split: sum.splits)
  obtain out fs2 where main: "tcp_client_main ?rng ?fs ?es = (Some 0, out, fs2)"
    using c0 run stop_stopped(2)
    by (simp add: tcp_client_main_def tc_start_def on_resolved_def tcp_main_end_def Let_def)
  have none: "tc_chunks_sent c = 0" if "io_run ?es (tc_start c0) = Inr c" for c
    using that run by (auto simp: tc_start_def on_resolved_def stop_keeps Let_def)
  from tcp_program_leaves_records [OF fits ok main] none c0
  have "\<exists>rows. rtt_rows fs2 = Some rows \<and> length (filter verified rows) = 0" by auto
  with main show ?thesis unfolding env_def by blast
qed

end
