(* ===== verification/Tcp_Network.thy ===== *)
theory Tcp_Network
  imports Tcp_System
begin

text \<open>
  The TCP server with any number of clients at once. Every client has a connection of its own, two
  byte queues as in \<open>tcp_sys\<close>; the server is the one of \<open>server_step\<close>, whose sessions are found by
  their number. A client is connected as soon as the listening socket has queued its connection
  (\<open>n_backlog\<close>); its session is made when the pending accept takes the connection from the queue,
  and what the client has sent by then waits in the connection.

  From the side of one client all this looks like the system of one client and one session
  (\<open>view_of\<close>): a step of the network is a step of that system for one client, or the accept of its
  connection, and nothing at all for the others.
\<close>

section \<open>The network\<close>

datatype conn_state = Not_connected | Queued | Served nat

record tcp_conn =
  k_client :: tcp_client
  k_state :: conn_state
  k_c2s :: bytes
  k_s2c :: bytes

record tcp_net =
  n_server :: tcp_server
  n_conns :: "tcp_conn list"
  n_backlog :: "nat list"

definition net_conn_new :: "tcp_client \<Rightarrow> tcp_conn" where
  "net_conn_new c = \<lparr>k_client = tc_start c, k_state = Not_connected, k_c2s = [], k_s2c = []\<rparr>"

definition net_start :: "tcp_client list \<Rightarrow> tcp_net" where
  "net_start cs = \<lparr>n_server = server_new, n_conns = map net_conn_new cs, n_backlog = []\<rparr>"

text \<open>\<open>put_conn i k s\<close>: connection \<open>i\<close> becomes \<open>k\<close>; \<open>serve j e s\<close>: session \<open>j\<close> of the server gets \<open>e\<close>.\<close>

definition put_conn :: "nat \<Rightarrow> tcp_conn \<Rightarrow> tcp_net \<Rightarrow> tcp_net" where
  "put_conn i k s = s\<lparr>n_conns := (n_conns s)[i := k]\<rparr>"

definition serve :: "nat \<Rightarrow> session_event \<Rightarrow> tcp_net \<Rightarrow> tcp_net" where
  "serve j e s = s\<lparr>n_server := server_step (n_server s) (Ev_session j e)\<rparr>"

inductive net_step :: "tcp_net \<Rightarrow> tcp_net \<Rightarrow> bool" where
  resolve: "i < length (n_conns s) \<Longrightarrow> k = n_conns s ! i \<Longrightarrow> \<not> tc_io_stopped (k_client k) \<Longrightarrow>
    tc_pending (k_client k) = C_resolve \<Longrightarrow>
    net_step s (put_conn i (k\<lparr>k_client := client_step env (k_client k) (Cv_resolved Success)\<rparr>) s)"
| connect: "i < length (n_conns s) \<Longrightarrow> k = n_conns s ! i \<Longrightarrow> \<not> tc_io_stopped (k_client k) \<Longrightarrow>
    tc_pending (k_client k) = C_connect \<Longrightarrow> k_state k = Not_connected \<Longrightarrow>
    net_step s (put_conn i (k\<lparr>k_client := client_step env (k_client k) (Cv_connected Success),
                              k_state := Queued\<rparr>)
                  (s\<lparr>n_backlog := n_backlog s @ [i]\<rparr>))"
| client_write: "i < length (n_conns s) \<Longrightarrow> k = n_conns s ! i \<Longrightarrow> \<not> tc_io_stopped (k_client k) \<Longrightarrow>
    tc_pending (k_client k) = C_write bs \<Longrightarrow>
    net_step s (put_conn i (k\<lparr>k_client := client_step env (k_client k) (Cv_written Success),
                              k_c2s := k_c2s k @ concat bs\<rparr>) s)"
| client_header: "i < length (n_conns s) \<Longrightarrow> k = n_conns s ! i \<Longrightarrow> \<not> tc_io_stopped (k_client k) \<Longrightarrow>
    tc_pending (k_client k) = C_read_header \<Longrightarrow> HEADER_SIZE \<le> length (k_s2c k) \<Longrightarrow>
    net_step s (put_conn i (k\<lparr>k_client := client_step env (k_client k)
                                (Cv_read Success (take HEADER_SIZE (k_s2c k))),
                              k_s2c := drop HEADER_SIZE (k_s2c k)\<rparr>) s)"
| client_body: "i < length (n_conns s) \<Longrightarrow> k = n_conns s ! i \<Longrightarrow> \<not> tc_io_stopped (k_client k) \<Longrightarrow>
    tc_pending (k_client k) = C_read_body n \<Longrightarrow> n \<le> length (k_s2c k) \<Longrightarrow>
    net_step s (put_conn i (k\<lparr>k_client := client_step env (k_client k) (Cv_read Success (take n (k_s2c k))),
                              k_s2c := drop n (k_s2c k)\<rparr>) s)"
| accept: "n_backlog s = i # rest \<Longrightarrow> sv_accept_pending (n_server s) \<Longrightarrow> \<not> sv_stopped (n_server s) \<Longrightarrow>
    net_step s (put_conn i ((n_conns s ! i)\<lparr>k_state := Served (length (sv_sessions (n_server s)))\<rparr>)
                  (s\<lparr>n_server := server_step (n_server s) (Ev_accept Success), n_backlog := rest\<rparr>))"
| server_header: "i < length (n_conns s) \<Longrightarrow> k = n_conns s ! i \<Longrightarrow> k_state k = Served j \<Longrightarrow>
    \<not> sv_stopped (n_server s) \<Longrightarrow> s_pending (sv_sessions (n_server s) ! j) = Read_header \<Longrightarrow>
    HEADER_SIZE \<le> length (k_c2s k) \<Longrightarrow>
    net_step s (put_conn i (k\<lparr>k_c2s := drop HEADER_SIZE (k_c2s k)\<rparr>)
                  (serve j (Ev_read Success (take HEADER_SIZE (k_c2s k))) s))"
| server_body: "i < length (n_conns s) \<Longrightarrow> k = n_conns s ! i \<Longrightarrow> k_state k = Served j \<Longrightarrow>
    \<not> sv_stopped (n_server s) \<Longrightarrow> s_pending (sv_sessions (n_server s) ! j) = Read_body n \<Longrightarrow>
    n \<le> length (k_c2s k) \<Longrightarrow>
    net_step s (put_conn i (k\<lparr>k_c2s := drop n (k_c2s k)\<rparr>)
                  (serve j (Ev_read Success (take n (k_c2s k))) s))"
| server_write: "i < length (n_conns s) \<Longrightarrow> k = n_conns s ! i \<Longrightarrow> k_state k = Served j \<Longrightarrow>
    \<not> sv_stopped (n_server s) \<Longrightarrow> s_pending (sv_sessions (n_server s) ! j) = Write_buffers bs \<Longrightarrow>
    net_step s (put_conn i (k\<lparr>k_s2c := k_s2c k @ concat bs\<rparr>) (serve j (Ev_written Success) s))"

section \<open>One connection in it\<close>

definition conn_view :: "tcp_server \<Rightarrow> tcp_conn \<Rightarrow> tcp_sys" where
  "conn_view sv k =
     \<lparr>y_client = k_client k,
      y_server = (case k_state k of Not_connected \<Rightarrow> session_new | Queued \<Rightarrow> session_start session_new
                  | Served j \<Rightarrow> sv_sessions sv ! j),
      y_c2s = k_c2s k, y_s2c = k_s2c k\<rparr>"

definition view_of :: "nat \<Rightarrow> tcp_net \<Rightarrow> tcp_sys" where
  "view_of i s = conn_view (n_server s) (n_conns s ! i)"

text \<open>
  What the network keeps: the server goes on accepting, the queue holds exactly the connections that are
  queued, no two connections have the same session, and a client that has not been connected has none.
\<close>

abbreviation states :: "tcp_net \<Rightarrow> conn_state list" where
  "states s \<equiv> map k_state (n_conns s)"

definition accepting :: "tcp_server \<Rightarrow> bool" where
  "accepting sv \<longleftrightarrow> sv_acceptor_open sv \<and> sv_accept_pending sv \<and> \<not> sv_stopped sv"

definition backlog_ok :: "nat list \<Rightarrow> conn_state list \<Rightarrow> bool" where
  "backlog_ok b ss \<longleftrightarrow> distinct b \<and> set b = {i. i < length ss \<and> ss ! i = Queued}"

definition served_ok :: "nat \<Rightarrow> conn_state list \<Rightarrow> bool" where
  "served_ok l ss \<longleftrightarrow>
     (\<forall>i < length ss. \<forall>j. ss ! i = Served j \<longrightarrow> j < l) \<and>
     (\<forall>i < length ss. \<forall>i' < length ss. \<forall>j. ss ! i = Served j \<longrightarrow> ss ! i' = Served j \<longrightarrow> i = i')"

definition unconnected_ok :: "tcp_conn \<Rightarrow> bool" where
  "unconnected_ok k \<longleftrightarrow>
     (tc_pending (k_client k) \<in> {C_resolve, C_connect} \<longrightarrow> k_state k = Not_connected)"

definition net_ok :: "tcp_net \<Rightarrow> bool" where
  "net_ok s \<longleftrightarrow> accepting (n_server s) \<and> backlog_ok (n_backlog s) (states s) \<and>
     served_ok (length (sv_sessions (n_server s))) (states s) \<and> list_all unconnected_ok (n_conns s)"

lemma list_all_update: "list_all P xs \<Longrightarrow> P y \<Longrightarrow> list_all P (xs[i := y])"
  by (cases "i < length xs") (auto simp: list_all_length nth_list_update)

lemma backlog_queue:
  assumes "backlog_ok b ss" "i < length ss" "ss ! i = Not_connected"
  shows "backlog_ok (b @ [i]) (ss[i := Queued])"
  using assms by (auto simp: backlog_ok_def nth_list_update)

lemma backlog_accept:
  assumes "backlog_ok (i # rest) ss"
  shows "i < length ss" "ss ! i = Queued" "backlog_ok rest (ss[i := Served j])"
proof -
  have set: "set (i # rest) = {i. i < length ss \<and> ss ! i = Queued}" and dist: "distinct (i # rest)"
    using assms by (simp_all only: backlog_ok_def)
  have "i \<in> set (i # rest)" by simp
  then show i: "i < length ss" "ss ! i = Queued" unfolding set by simp_all
  have "set rest = set (i # rest) - {i}" using dist by simp
  also have "\<dots> = {k. k < length (ss[i := Served j]) \<and> ss[i := Served j] ! k = Queued}"
    unfolding set using i by (auto simp: nth_list_update split: if_splits)
  finally show "backlog_ok rest (ss[i := Served j])" using dist by (simp add: backlog_ok_def)
qed

lemma served_update:
  assumes "served_ok l ss" "l \<le> m"
    and "\<And>j. v = Served j \<Longrightarrow> j < m \<and> l \<le> j"
  shows "served_ok m (ss[i := v])"
proof -
  have old: "\<And>x j. x < length ss \<Longrightarrow> ss ! x = Served j \<Longrightarrow> j < l"
    and inj: "\<And>x y j. x < length ss \<Longrightarrow> y < length ss \<Longrightarrow> ss ! x = Served j \<Longrightarrow> ss ! y = Served j \<Longrightarrow> x = y"
    using assms(1) unfolding served_ok_def by blast+
  have at: "ss[i := v] ! x = (if x = i then v else ss ! x)" if "x < length ss" for x
    using that by (simp add: nth_list_update)
  show ?thesis
    unfolding served_ok_def length_list_update
  proof (intro conjI allI impI)
    fix x j assume x: "x < length ss" "ss[i := v] ! x = Served j"
    then show "j < m"
      using old assms(2,3) at by (metis le_trans not_le)
  next
    fix x y j
    assume x: "x < length ss" "y < length ss" "ss[i := v] ! x = Served j" "ss[i := v] ! y = Served j"
    then show "x = y"
      using old inj assms(3) at by (metis not_le)
  qed
qed

lemma put_conn_simps [simp]:
  "n_server (put_conn i k s) = n_server s" "n_backlog (put_conn i k s) = n_backlog s"
  "n_conns (put_conn i k s) = (n_conns s)[i := k]"
  by (simp_all add: put_conn_def)

lemma serve_simps [simp]:
  "n_server (serve j e s) = server_step (n_server s) (Ev_session j e)"
  "n_backlog (serve j e s) = n_backlog s" "n_conns (serve j e s) = n_conns s"
  by (simp_all add: serve_def)

lemma accept_simps:
  assumes "sv_acceptor_open sv" "sv_accept_pending sv" "\<not> sv_stopped sv"
  shows "on_accept Success sv = sv\<lparr>sv_sessions := sv_sessions sv @ [session_start session_new]\<rparr>"
  using assms by (simp add: on_accept_def do_accept_def Let_def)

text \<open>Only \<open>on_resolved\<close> leaves a client waiting for its connection, and nothing waits for a name again.\<close>

abbreviation "connecting c \<equiv> tc_pending c = C_resolve \<or> tc_pending c = C_connect"

lemma stop_pending [simp]: "tc_pending (stop_client_operations env i err c) = tc_pending c"
  by (simp add: stop_client_operations_def Let_def)

lemma send_pending: "\<not> connecting c \<Longrightarrow> \<not> connecting (send_next_chunk env i c)"
  by (simp add: send_next_chunk_def Let_def case_prod_beta)

lemma handle_pending: "\<not> connecting c \<Longrightarrow> \<not> connecting (handle_received_chunk_data env c)"
proof -
  assume c: "\<not> connecting c"
  let ?d = "c\<lparr>tc_metrics := answered env True c, tc_chunks_sent := tc_chunks_sent c + 1\<rparr>"
  from c have "\<not> connecting (send_next_chunk env 1 ?d)" by (intro send_pending) simp
  with c show ?thesis by (simp add: handle_received_chunk_data_def Let_def)
qed

lemma on_connected_pending: "\<not> connecting (on_connected env ec c)"
  using send_pending by (simp add: on_connected_def Let_def)

lemma on_sent_pending: "\<not> connecting (on_sent env ec c)"
  by (simp add: on_sent_def tc_do_read_header_def Let_def)

lemma on_header_pending: "\<not> connecting (on_header env ec data c)"
proof -
  have "\<not> connecting (handle_received_chunk_data env (c\<lparr>tc_pending := C_none, tc_read_header_buffer := h,
      tc_read_body_buffer := b\<rparr>))" for h b
    by (rule handle_pending) simp
  then show ?thesis by (simp add: on_header_def tc_do_read_body_def Let_def)
qed

lemma on_body_pending: "\<not> connecting (on_body env ec data c)"
proof -
  define d where
    "d = c\<lparr>tc_pending := C_none, tc_read_body_buffer := overwrite (tc_read_body_buffer c) data\<rparr>"
  have d: "\<not> connecting d" by (simp add: d_def)
  have "on_body env ec data c \<in> {d, stop_client_operations env 0 True d, handle_received_chunk_data env d}"
    by (simp add: on_body_def d_def [symmetric] Let_def)
  with d handle_pending [OF d] show ?thesis by auto
qed

lemma step_pending: "\<forall>ec. e \<noteq> Cv_resolved ec \<Longrightarrow> \<not> connecting (client_step env c e)"
  using on_connected_pending on_sent_pending on_header_pending on_body_pending by (cases e) simp_all

section \<open>A step of the network is a step of one connection\<close>

lemma view_simps [simp]:
  "y_client (conn_view sv k) = k_client k" "y_c2s (conn_view sv k) = k_c2s k"
  "y_s2c (conn_view sv k) = k_s2c k"
  by (simp_all add: conn_view_def)

text \<open>A step of the client's side, which leaves the server alone.\<close>

lemma same_states:
  "i < length (n_conns s) \<Longrightarrow> k_state k = k_state (n_conns s ! i) \<Longrightarrow>
   map k_state ((n_conns s)[i := k]) = states s"
  by (metis list_update_id map_update nth_map)

lemma client_side:
  assumes "net_ok s" "i < length (n_conns s)" "k_state k = k_state (n_conns s ! i)" "unconnected_ok k"
  shows "net_ok (put_conn i k s)" "view_of i (put_conn i k s) = conn_view (n_server s) k"
    "i' \<noteq> i \<Longrightarrow> view_of i' (put_conn i k s) = view_of i' s"
  using assms same_states [OF assms(2,3)]
  by (simp_all add: net_ok_def view_of_def list_all_update)

text \<open>A connection is made and queued.\<close>

lemma connect_side:
  assumes "net_ok s" "i < length (n_conns s)" "k_state (n_conns s ! i) = Not_connected"
    and "k_state k = Queued" "unconnected_ok k"
    and "t = put_conn i k (s\<lparr>n_backlog := n_backlog s @ [i]\<rparr>)"
  shows "net_ok t" "view_of i t = conn_view (n_server s) k"
    "i' \<noteq> i \<Longrightarrow> view_of i' t = view_of i' s"
  using assms backlog_queue [of "n_backlog s" "states s" i] served_update [of "length (sv_sessions (n_server s))" "states s" "length (sv_sessions (n_server s))" Queued i]
  by (simp_all add: net_ok_def view_of_def list_all_update map_update)

text \<open>A step of a session, which only its own connection sees.\<close>

lemma server_side:
  assumes "net_ok s" "i < length (n_conns s)" "k_state (n_conns s ! i) = Served j"
    and "k_state k = Served j" "k_client k = k_client (n_conns s ! i)"
    and "session_accepts (sv_sessions (n_server s) ! j) e"
  shows "net_ok (put_conn i k (serve j e s))"
    "view_of i (put_conn i k (serve j e s)) =
       (conn_view (n_server s) k)\<lparr>y_server := session_step (sv_sessions (n_server s) ! j) e\<rparr>"
    "i' < length (n_conns s) \<Longrightarrow> i' \<noteq> i \<Longrightarrow> view_of i' (put_conn i k (serve j e s)) = view_of i' s"
proof -
  let ?sv = "n_server s"
  have st: "states s ! i = Served j" using assms(2,3) by simp
  have j: "j < length (sv_sessions ?sv)" "\<not> sv_stopped ?sv"
    "\<And>i'. i' < length (n_conns s) \<Longrightarrow> k_state (n_conns s ! i') = Served j \<Longrightarrow> i' = i"
    using assms(1,2) st by (simp_all add: net_ok_def served_ok_def accepting_def)
  have sv: "server_step ?sv (Ev_session j e) = ?sv\<lparr>sv_sessions :=
      (sv_sessions ?sv)[j := session_step (sv_sessions ?sv ! j) e]\<rparr>"
    using assms(6) j by simp
  show "view_of i (put_conn i k (serve j e s)) =
       (conn_view ?sv k)\<lparr>y_server := session_step (sv_sessions ?sv ! j) e\<rparr>"
    using j assms(2,4,6) by (simp add: view_of_def conn_view_def)
  have "unconnected_ok (n_conns s ! i)" using assms(1,2) by (simp add: net_ok_def list_all_length)
  then have "unconnected_ok k" using assms(3-5) by (simp add: unconnected_ok_def)
  with assms(1) same_states [OF assms(2), of k] assms(3,4)
  show "net_ok (put_conn i k (serve j e s))"
    by (simp add: net_ok_def sv accepting_def list_all_update)
  show "view_of i' (put_conn i k (serve j e s)) = view_of i' s" if "i' < length (n_conns s)" "i' \<noteq> i"
  proof -
    have "k_state (n_conns s ! i') \<noteq> Served j" using j(3) that by blast
    with that show ?thesis
      by (cases "k_state (n_conns s ! i')") (simp_all add: sv view_of_def conn_view_def)
  qed
qed

text \<open>An accept, which no view shows.\<close>

lemma accept_side:
  assumes "net_ok s" "n_backlog s = i # rest"
    and "t = put_conn i ((n_conns s ! i)\<lparr>k_state := Served (length (sv_sessions (n_server s)))\<rparr>)
           (s\<lparr>n_server := server_step (n_server s) (Ev_accept Success), n_backlog := rest\<rparr>)"
  shows "net_ok t" "i < length (n_conns s)" "k_state (n_conns s ! i) = Queued"
    "i' < length (n_conns s) \<Longrightarrow> view_of i' t = view_of i' s"
proof -
  let ?l = "length (sv_sessions (n_server s))" and ?k = "n_conns s ! i"
  have b: "backlog_ok (i # rest) (states s)" using assms(1,2) by (simp add: net_ok_def)
  from backlog_accept [OF b] show i: "i < length (n_conns s)" "k_state ?k = Queued"
    by simp_all
  have sv: "server_step (n_server s) (Ev_accept Success) =
      (n_server s)\<lparr>sv_sessions := sv_sessions (n_server s) @ [session_start session_new]\<rparr>"
    using assms(1) by (simp add: accept_simps net_ok_def accepting_def)
  have "unconnected_ok ?k" using assms(1) i(1) by (simp add: net_ok_def list_all_length)
  with i have "unconnected_ok (?k\<lparr>k_state := Served ?l\<rparr>)" by (simp add: unconnected_ok_def)
  with assms(1) i backlog_accept(3) [OF b] served_update [of ?l "states s" "Suc ?l" "Served ?l" i]
  show "net_ok t"
    unfolding assms(3) sv by (simp add: net_ok_def accepting_def list_all_update map_update)
  show "view_of i' t = view_of i' s" if "i' < length (n_conns s)"
  proof -
    have "j < ?l" if "k_state (n_conns s ! i') = Served j" for j
      using assms(1) \<open>i' < length (n_conns s)\<close> that by (simp add: net_ok_def served_ok_def)
    with i that show ?thesis
      unfolding assms(3) sv
      by (cases "i' = i"; cases "k_state (n_conns s ! i')")
         (simp_all add: view_of_def conn_view_def nth_append)
  qed
qed

text \<open>
  What a step does to one connection \<open>i\<close>: it is a step of the system of one client, or the
  accept; all others stay as they are.
\<close>

definition conn_moves :: "nat \<Rightarrow> tcp_net \<Rightarrow> tcp_net \<Rightarrow> bool" where
  "conn_moves i s t \<longleftrightarrow> i < length (n_conns s) \<and>
     (sys_step (view_of i s) (view_of i t) \<and>
        (states t ! i \<in> range Served \<longleftrightarrow> states s ! i \<in> range Served) \<or>
      view_of i t = view_of i s \<and> states t ! i \<in> range Served \<and> states s ! i \<notin> range Served)"

definition one_moves :: "tcp_net \<Rightarrow> tcp_net \<Rightarrow> bool" where
  "one_moves s t \<longleftrightarrow> net_ok t \<and> length (n_conns t) = length (n_conns s) \<and>
     (\<exists>i. conn_moves i s t \<and>
        (\<forall>k < length (n_conns s). k \<noteq> i \<longrightarrow> view_of k t = view_of k s \<and> states t ! k = states s ! k))"

lemma client_moves_one:
  assumes "net_ok s" "i < length (n_conns s)" "k = n_conns s ! i" "k_state k' = k_state k"
    and "k_client k' = client_step env (k_client k) e" "k_state k = Not_connected \<or> (\<forall>ec. e \<noteq> Cv_resolved ec)"
    and "sys_step (view_of i s) (conn_view (n_server s) k')"
  shows "one_moves s (put_conn i k' s)"
proof -
  have "unconnected_ok k'"
    using assms(4-6) step_pending [of e env "k_client k"] by (auto simp: unconnected_ok_def)
  moreover have "k_state k' = k_state (n_conns s ! i)" using assms(3,4) by simp
  ultimately show ?thesis
    using client_side [OF assms(1,2), of k'] assms(2,7)
    by (auto simp: one_moves_def conn_moves_def intro!: exI [of _ i])
qed

lemma server_moves_one:
  assumes "net_ok s" "i < length (n_conns s)" "k = n_conns s ! i" "k_state k = Served j"
    and "k_state k' = Served j" "k_client k' = k_client k"
    and "session_accepts (sv_sessions (n_server s) ! j) e"
    and "sys_step (view_of i s)
           ((conn_view (n_server s) k')\<lparr>y_server := session_step (sv_sessions (n_server s) ! j) e\<rparr>)"
  shows "one_moves s (put_conn i k' (serve j e s))"
  using server_side [OF assms(1,2) _ assms(5) _ assms(7)] assms(2-6,8)
  by (auto simp: one_moves_def conn_moves_def intro!: exI [of _ i])

lemma connect_moves_one:
  assumes "net_ok s" "i < length (n_conns s)" "k = n_conns s ! i" "\<not> tc_io_stopped (k_client k)"
    and "tc_pending (k_client k) = C_connect" "k_state k = Not_connected"
  shows "one_moves s (put_conn i (k\<lparr>k_client := client_step env (k_client k) (Cv_connected Success),
      k_state := Queued\<rparr>) (s\<lparr>n_backlog := n_backlog s @ [i]\<rparr>))"
proof -
  let ?k = "k\<lparr>k_client := client_step env (k_client k) (Cv_connected Success), k_state := Queued\<rparr>"
  have u: "unconnected_ok ?k"
    using step_pending [of "Cv_connected Success" env "k_client k"] by (simp add: unconnected_ok_def)
  have step: "sys_step (view_of i s) (conn_view (n_server s) ?k)"
    using sys_step.connect [of "view_of i s" env] assms by (simp add: view_of_def conn_view_def)
  have "k_state (n_conns s ! i) = Not_connected" using assms by simp
  from connect_side [OF assms(1,2) this _ u refl] step assms(2,3,6) show ?thesis
    by (auto simp: one_moves_def conn_moves_def intro!: exI [of _ i])
qed

lemma accept_moves_one:
  assumes "net_ok s" "n_backlog s = i # rest"
    and "t = put_conn i ((n_conns s ! i)\<lparr>k_state := Served (length (sv_sessions (n_server s)))\<rparr>)
           (s\<lparr>n_server := server_step (n_server s) (Ev_accept Success), n_backlog := rest\<rparr>)"
  shows "one_moves s t"
  using accept_side [OF assms]
  by (auto simp: one_moves_def conn_moves_def assms(3) intro!: exI [of _ i])

lemma net_step_one:
  assumes "net_step s t" "net_ok s"
  shows "one_moves s t"
  using assms(1)
proof (cases rule: net_step.cases)
  case (resolve i k env)
  have "k_state k = Not_connected"
    using assms(2) resolve by (auto simp: net_ok_def list_all_length unconnected_ok_def)
  with sys_step.resolve [of "view_of i s" env] resolve show ?thesis
    unfolding resolve(1)
    by (intro client_moves_one [OF assms(2) resolve(2,3), where e = "Cv_resolved Success" and env = env])
       (simp_all add: view_of_def conn_view_def)
next
  case (client_write i k bs env)
  with sys_step.client_write [of "view_of i s" bs env] show ?thesis
    unfolding client_write(1)
    by (intro client_moves_one [OF assms(2) client_write(2,3), where env = env and
          e = "Cv_written Success"]) (simp_all add: view_of_def conn_view_def)
next
  case (client_header i k env)
  with sys_step.client_header [of "view_of i s" env] show ?thesis
    unfolding client_header(1)
    by (intro client_moves_one [OF assms(2) client_header(2,3), where env = env and
          e = "Cv_read Success (take HEADER_SIZE (k_s2c k))"]) (simp_all add: view_of_def conn_view_def)
next
  case (client_body i k n env)
  with sys_step.client_body [of "view_of i s" n env] show ?thesis
    unfolding client_body(1)
    by (intro client_moves_one [OF assms(2) client_body(2,3), where env = env and
          e = "Cv_read Success (take n (k_s2c k))"]) (simp_all add: view_of_def conn_view_def)
next
  case (server_header i k j)
  with sys_step.server_header [of "view_of i s"] show ?thesis
    by (auto simp: view_of_def conn_view_def intro!: server_moves_one [OF assms(2)])
next
  case (server_body i k j n)
  with sys_step.server_body [of "view_of i s" n] show ?thesis
    by (auto simp: view_of_def conn_view_def intro!: server_moves_one [OF assms(2)])
next
  case (server_write i k j bs)
  with sys_step.server_write [of "view_of i s" bs] show ?thesis
    by (auto simp: view_of_def conn_view_def intro!: server_moves_one [OF assms(2)])
qed (use connect_moves_one accept_moves_one assms(2) in blast)+

section \<open>Runs of the network\<close>

text \<open>
  \<open>css ! i\<close> are the chunks of client \<open>i\<close>. Every connection is in a phase of its transfer, and
  still has to be accepted once.
\<close>

definition net_inv :: "bytes list list \<Rightarrow> tcp_net \<Rightarrow> bool" where
  "net_inv css s \<longleftrightarrow> net_ok s \<and> length (n_conns s) = length css \<and>
     (\<forall>i < length css. sendable (css ! i) \<and> sys_inv (css ! i) (view_of i s))"

definition conn_measure :: "bytes list list \<Rightarrow> tcp_net \<Rightarrow> nat \<Rightarrow> nat" where
  "conn_measure css s i =
     sys_measure (css ! i) (view_of i s) + (if states s ! i \<in> range Served then 0 else 1)"

definition net_measure :: "bytes list list \<Rightarrow> tcp_net \<Rightarrow> nat" where
  "net_measure css s = (\<Sum>i < length css. conn_measure css s i)"

lemma net_step_good:
  assumes "net_step s t" "net_inv css s"
  shows "net_inv css t" "net_measure css t < net_measure css s"
proof -
  have ok: "net_ok s" and n: "length (n_conns s) = length css"
    and inv: "\<And>i. i < length css \<Longrightarrow> sendable (css ! i) \<and> sys_inv (css ! i) (view_of i s)"
    using assms(2) by (simp_all add: net_inv_def)
  obtain i where t: "net_ok t" "length (n_conns t) = length css" "conn_moves i s t"
    and others: "\<And>k. k < length css \<Longrightarrow> k \<noteq> i \<Longrightarrow> view_of k t = view_of k s \<and> states t ! k = states s ! k"
    using net_step_one [OF assms(1) ok] n by (auto simp: one_moves_def)
  have i: "i < length css" using t(3) n by (simp add: conn_moves_def)
  have one: "sys_inv (css ! i) (view_of i t) \<and> conn_measure css t i < conn_measure css s i"
    using t(3) sys_step_good [of "view_of i s" "view_of i t" "css ! i"] inv [OF i]
    unfolding conn_moves_def conn_measure_def good_step_def by fastforce
  show "net_inv css t"
    unfolding net_inv_def using t(1,2) one inv others by metis
  have "conn_measure css t k \<le> conn_measure css s k" if "k < length css" for k
    using one others [OF that] by (cases "k = i") (simp_all add: conn_measure_def)
  with one i show "net_measure css t < net_measure css s"
    unfolding net_measure_def by (intro sum_strict_mono_ex1) auto
qed

text \<open>Where the system of one client can go on, the network can: with that step, or with an accept.\<close>

lemma queued_accepts:
  assumes "net_ok s" "i < length (n_conns s)" "k_state (n_conns s ! i) = Queued"
  shows "\<exists>t. net_step s t"
proof -
  have "i \<in> set (n_backlog s)" using assms by (simp add: net_ok_def backlog_ok_def)
  then obtain b rest where "n_backlog s = b # rest" by (cases "n_backlog s") auto
  from net_step.accept [OF this] assms(1) show ?thesis by (auto simp: net_ok_def accepting_def)
qed

lemma served_goes_on:
  assumes "net_ok s" "i < length (n_conns s)" "s_pending (y_server (view_of i s)) \<noteq> No_op"
    and "\<And>j. k_state (n_conns s ! i) = Served j \<Longrightarrow> \<exists>t. net_step s t"
  shows "\<exists>t. net_step s t"
  using assms queued_accepts [OF assms(1,2)]
  by (cases "k_state (n_conns s ! i)") (simp_all add: view_of_def conn_view_def session_new_def)

lemma view_goes_on:
  assumes "sys_step (view_of i s) v" "net_ok s" "i < length (n_conns s)"
  shows "\<exists>t. net_step s t"
proof -
  have run: "\<not> sv_stopped (n_server s)" using assms(2) by (simp add: net_ok_def accepting_def)
  note view = view_of_def conn_view_def
  from assms(1) show ?thesis
  proof (cases rule: sys_step.cases)
    case (resolve env)
    with net_step.resolve [OF assms(3) refl] show ?thesis by (auto simp: view)
  next
    case (connect env)
    moreover from this have "k_state (n_conns s ! i) = Not_connected"
      using assms(2,3) by (simp add: view net_ok_def list_all_length unconnected_ok_def)
    ultimately show ?thesis using net_step.connect [OF assms(3) refl] by (auto simp: view)
  next
    case (client_write bs env)
    with net_step.client_write [OF assms(3) refl] show ?thesis by (auto simp: view)
  next
    case (client_header env)
    with net_step.client_header [OF assms(3) refl] show ?thesis by (auto simp: view)
  next
    case (client_body n env)
    with net_step.client_body [OF assms(3) refl] show ?thesis by (auto simp: view)
  next
    case server_header
    show ?thesis
      by (rule served_goes_on [OF assms(2,3)])
         (use server_header net_step.server_header [OF assms(3) refl _ run] in \<open>auto simp: view\<close>)
  next
    case (server_body n)
    show ?thesis
      by (rule served_goes_on [OF assms(2,3)])
         (use server_body net_step.server_body [OF assms(3) refl _ run] in \<open>auto simp: view\<close>)
  next
    case (server_write bs)
    show ?thesis
      by (rule served_goes_on [OF assms(2,3)])
         (use server_write net_step.server_write [OF assms(3) refl _ run] in \<open>auto simp: view\<close>)
  qed
qed

definition net_finished :: "bytes list list \<Rightarrow> tcp_net \<Rightarrow> bool" where
  "net_finished css s \<longleftrightarrow> (\<forall>i < length css. finished (css ! i) (view_of i s))"

lemma net_progress:
  assumes "net_inv css s"
  shows "net_finished css s \<or> (\<exists>t. net_step s t)"
proof (cases "net_finished css s")
  case False
  then obtain i where i: "i < length css" "\<not> finished (css ! i) (view_of i s)"
    by (auto simp: net_finished_def)
  with assms sys_progress [of "css ! i" "view_of i s"]
  obtain v where "sys_step (view_of i s) v" by (auto simp: net_inv_def)
  with view_goes_on [of i s v] assms i(1) show ?thesis by (simp add: net_inv_def)
qed simp

lemma net_run_inv:
  assumes "(net_step ^^ k) s t" "net_inv css s"
  shows "net_inv css t \<and> k + net_measure css t \<le> net_measure css s"
  using assms(1)
proof (induction k arbitrary: t)
  case 0
  then show ?case using assms(2) by simp
next
  case (Suc k)
  from Suc.prems obtain u where u: "(net_step ^^ k) s u" "net_step u t" by auto
  from Suc.IH [OF u(1)] net_step_good [OF u(2), of css] show ?case by fastforce
qed

lemma net_run_finishes:
  assumes "net_inv css s"
  shows "\<exists>t. net_step\<^sup>*\<^sup>* s t \<and> net_finished css t"
  using assms
proof (induction "net_measure css s" arbitrary: s rule: less_induct)
  case less
  show ?case
  proof (cases "net_finished css s")
    case False
    then obtain u where u: "net_step s u" using net_progress [OF less.prems] by blast
    from less.hyps [OF net_step_good(2,1) [OF u less.prems]]
    obtain t where "net_step\<^sup>*\<^sup>* u t" "net_finished css t" by blast
    with u show ?thesis by (meson converse_rtranclp_into_rtranclp)
  qed blast
qed

section \<open>The start\<close>

text \<open>A client of some test file, with its metrics as \<open>main\<close> makes them.\<close>

definition fresh_client :: "tcp_client \<Rightarrow> bool" where
  "fresh_client c \<longleftrightarrow> (\<exists>fs content name expected csz.
     tc_new fs (tm_new name expected csz) = Inr c \<and> fs_files fs TEST_FILE_NAME = Some content \<and>
     length content < 2 ^ 63)"

abbreviation chunks_given :: "tcp_client \<Rightarrow> bytes list" where
  "chunks_given c \<equiv> chunks_of (unat CHUNK_SIZE) (device_part c)"

lemma net_start_inv:
  assumes "list_all fresh_client cs"
  shows "net_inv (map chunks_given cs) (net_start cs)"
    "net_measure (map chunks_given cs) (net_start cs) \<le> (\<Sum>c\<leftarrow>cs. 8 * length (chunks_given c) + 9)"
proof -
  have view: "view_of i (net_start cs) = sys_start (cs ! i)" if "i < length cs" for i
    using that by (simp add: view_of_def conn_view_def net_start_def net_conn_new_def sys_start_def)
  have inv: "sys_inv (chunks_given c) (sys_start c)"
    "sys_measure (chunks_given c) (sys_start c) \<le> 8 * length (chunks_given c) + 8" if f: "fresh_client c" for c
  proof -
    obtain fs content name expected csz where
      "tc_new fs (tm_new name expected csz) = Inr c" "fs_files fs TEST_FILE_NAME = Some content"
      "length content < 2 ^ 63" using f by (auto simp: fresh_client_def)
    note new = device_part_new [OF this]
    show "sys_inv (chunks_given c) (sys_start c)"
      "sys_measure (chunks_given c) (sys_start c) \<le> 8 * length (chunks_given c) + 8"
      using sys_start_inv [OF new(1,4,2)] by simp_all
  qed
  have "net_ok (net_start cs)"
    by (auto simp: net_ok_def accepting_def backlog_ok_def served_ok_def unconnected_ok_def net_start_def
        net_conn_new_def server_new_def do_accept_def list_all_length)
  moreover have "sendable (chunks_given c)" for c
    by (rule sendable_chunks) (simp_all add: CHUNK_SIZE_def)
  ultimately show "net_inv (map chunks_given cs) (net_start cs)"
    using assms view inv(1) by (simp add: net_inv_def list_all_length) (simp add: net_start_def)
  have "conn_measure (map chunks_given cs) (net_start cs) i \<le> 8 * length (chunks_given (cs ! i)) + 9"
    if "i < length cs" for i
    using inv(2) [of "cs ! i"] view [OF that] assms that by (simp add: conn_measure_def list_all_length)
  then have "net_measure (map chunks_given cs) (net_start cs) \<le>
      (\<Sum>i < length cs. 8 * length (chunks_given (cs ! i)) + 9)"
    unfolding net_measure_def length_map by (intro sum_mono) simp
  also have "\<dots> = (\<Sum>c\<leftarrow>cs. 8 * length (chunks_given c) + 9)"
    by (simp only: sum_list_sum_nth length_map atLeast0LessThan) (intro sum.cong, simp_all)
  finally show "net_measure (map chunks_given cs) (net_start cs) \<le>
      (\<Sum>c\<leftarrow>cs. 8 * length (chunks_given c) + 9)" .
qed

section \<open>Properties\<close>

text \<open>
  C1: the TCP server with any number of clients at once. However the server and the clients, each with a
  file and a device of its own, interleave, no run takes more than eight steps for each chunk and nine for
  each client, and a run that cannot go on has finished every transfer: each client reports
  success, with a verified record for each chunk its device gave. Such a run exists.
\<close>

theorem tcp_network_completes:
  assumes "list_all fresh_client cs"
  shows "(\<exists>t. net_step\<^sup>*\<^sup>* (net_start cs) t \<and> net_finished (map chunks_given cs) t) \<and>
         (\<forall>k t. (net_step ^^ k) (net_start cs) t \<longrightarrow>
            k \<le> (\<Sum>c\<leftarrow>cs. 8 * length (chunks_given c) + 9) \<and>
            (net_finished (map chunks_given cs) t \<or> (\<exists>u. net_step t u)))"
proof -
  note start = net_start_inv [OF assms]
  have "k \<le> (\<Sum>c\<leftarrow>cs. 8 * length (chunks_given c) + 9) \<and>
      (net_finished (map chunks_given cs) t \<or> (\<exists>u. net_step t u))"
    if "(net_step ^^ k) (net_start cs) t" for k t
    using net_run_inv [OF that start(1)] start(2) net_progress by fastforce
  with net_run_finishes [OF start(1)] show ?thesis by blast
qed

lemma tcp_network_completes_witness:
  "\<exists>a b t. tc_new (plain_fs TEST_FILE_NAME [5, 6]) (tm_new ''t'' 2 CHUNK_SIZE) = Inr a \<and>
     tc_new (plain_fs TEST_FILE_NAME []) (tm_new ''t'' 0 CHUNK_SIZE) = Inr b \<and>
     net_step\<^sup>*\<^sup>* (net_start [a, b]) t \<and> net_finished (map chunks_given [a, b]) t"
proof -
  obtain a where a: "tc_new (plain_fs TEST_FILE_NAME [5, 6]) (tm_new ''t'' 2 CHUNK_SIZE) = Inr a"
    by (rule two_byte_client)
  obtain b where b: "tc_new (plain_fs TEST_FILE_NAME []) (tm_new ''t'' 0 CHUNK_SIZE) = Inr b"
    by (rule empty_file_client)
  have "fresh_client a" "fresh_client b"
    unfolding fresh_client_def using a b by fastforce+
  then have "list_all fresh_client [a, b]" by simp
  from tcp_network_completes [OF this] a b show ?thesis by blast
qed

end
