(* ===== verification/Tcp_Server_Main.thy ===== *)
theory Tcp_Server_Main
  imports Tcp_Server
begin

text \<open>
  The program of the TCP server (GO++PROJECT/src/cpp_tcp_benchmark/server/tcp_server.cpp, \<open>main\<close>)
  around \<open>server_step\<close>, with the one library call that can fail outside the error codes: the
  constructor and the destructor of \<open>TCPSession\<close> ask the socket for its remote endpoint, which throws
  when the peer has reset the connection. From the constructor the exception leaves the
  handler and \<open>io_context.run\<close> and ends \<open>main\<close> with 1; from the destructor, which is
  \<open>noexcept\<close>, it ends the process.

  An event comes with the answers of \<open>remote_endpoint\<close> at that moment, by session.
\<close>

section \<open>The program\<close>

datatype process_end = Exit int | Terminated

record tcp_program =
  tp_server :: tcp_server
  tp_end :: "process_end option"

abbreviation session_over :: "session \<Rightarrow> bool" where
  "session_over s \<equiv> s_pending s = No_op"

text \<open>Leaving \<open>main\<close> destroys the \<open>io_context\<close> and with it the sessions that are still waiting.\<close>

definition leave_main :: "int \<Rightarrow> (nat \<Rightarrow> bool) \<Rightarrow> session list \<Rightarrow> process_end" where
  "leave_main code peers ss =
     (if list_all (\<lambda>i. session_over (ss ! i) \<or> peers i) [0..<length ss] then Exit code else Terminated)"

fun program_step :: "tcp_program \<Rightarrow> server_event \<times> (nat \<Rightarrow> bool) \<Rightarrow> tcp_program" where
  "program_step p (e, peers) =
     (if tp_end p \<noteq> None then p
      else let sv = tp_server p; sv' = server_step sv e; q = p\<lparr>tp_server := sv'\<rparr>
      in case e of
           Ev_accept ec \<Rightarrow>
             (if ec = Success \<and> sv_accept_pending sv \<and> \<not> peers (length (sv_sessions sv))
              then p\<lparr>tp_end := Some (leave_main 1 peers (sv_sessions sv))\<rparr> else q)
         | Ev_session i x \<Rightarrow>
             (if i < length (sv_sessions sv) \<and> \<not> session_over (sv_sessions sv ! i) \<and>
                 session_over (sv_sessions sv' ! i) \<and> \<not> peers i
              then q\<lparr>tp_end := Some Terminated\<rparr> else q)
         | Ev_signal \<Rightarrow> q\<lparr>tp_end := Some (leave_main 0 peers (sv_sessions sv'))\<rparr>)"

definition program_run :: "(server_event \<times> (nat \<Rightarrow> bool)) list \<Rightarrow> tcp_program" where
  "program_run es = foldl program_step \<lparr>tp_server = server_new, tp_end = None\<rparr> es"

text \<open>\<open>bound\<close> is whether opening the acceptor on the port succeeds; it throws otherwise.\<close>

definition tcp_server_main :: "bool \<Rightarrow> (server_event \<times> (nat \<Rightarrow> bool)) list \<Rightarrow> process_end option" where
  "tcp_server_main bound es = (if \<not> bound then Some (Exit 1) else tp_end (program_run es))"

section \<open>The program and the server\<close>

lemma program_run_snoc: "program_run (es @ [e]) = program_step (program_run es) e"
  by (simp add: program_run_def)

text \<open>While the program lives, its server is the one of \<open>server_run\<close>, and no signal has come.\<close>

lemma program_alive:
  "tp_end (program_run es) = None \<Longrightarrow>
   tp_server (program_run es) = server_run (map fst es) \<and> Ev_signal \<notin> set (map fst es)"
proof (induction es rule: rev_induct)
  case Nil
  show ?case by (simp add: program_run_def server_run_def)
next
  case (snoc e es)
  obtain x peers where e: "e = (x, peers)" by fastforce
  have alive: "tp_end (program_run es) = None"
    using snoc.prems by (auto simp: program_run_snoc e split: if_splits)
  note ih = snoc.IH [OF alive]
  from snoc.prems alive ih show ?case
    by (cases x) (auto simp: program_run_snoc e server_run_snoc Let_def split: if_splits)
qed

lemma program_over: "tp_end p \<noteq> None \<Longrightarrow> program_step p e = p"
  by (cases e) simp

section \<open>Properties\<close>

text \<open>
  C27: with peers that can always be named the TCP server ends in one way only. It exits with 1 when the
  port cannot be opened; otherwise it runs, whatever accepts fail and whatever the sessions do, until a
  signal is delivered, and then exits with 0.
\<close>

theorem tcp_server_runs_until_signal:
  assumes "\<forall>(e, peers) \<in> set es. \<forall>i. peers i"
  shows "tcp_server_main bound es =
           (if \<not> bound then Some (Exit 1)
            else if Ev_signal \<in> set (map fst es) then Some (Exit 0) else None)"
proof -
  have "tp_end (program_run es) = (if Ev_signal \<in> set (map fst es) then Some (Exit 0) else None)"
    using assms
  proof (induction es rule: rev_induct)
    case Nil
    show ?case by (simp add: program_run_def)
  next
    case (snoc e es)
    obtain x peers where e: "e = (x, peers)" by fastforce
    have ok: "\<forall>i. peers i" using snoc.prems by (simp add: e)
    have ih: "tp_end (program_run es) = (if Ev_signal \<in> set (map fst es) then Some (Exit 0) else None)"
      using snoc by simp
    show ?case
    proof (cases "Ev_signal \<in> set (map fst es)")
      case True
      with ih program_over [of "program_run es" e] show ?thesis by (auto simp: program_run_snoc)
    next
      case False
      with ih ok show ?thesis
        by (cases x) (auto simp: program_run_snoc e Let_def leave_main_def list_all_iff)
    qed
  qed
  then show ?thesis by (simp add: tcp_server_main_def)
qed

lemma tcp_server_runs_until_signal_witness:
  "tcp_server_main True [(Ev_accept Success, \<lambda>_. True), (Ev_accept (Other_error ''x''), \<lambda>_. True)] = None \<and>
   tcp_server_main True [(Ev_accept Success, \<lambda>_. True), (Ev_signal, \<lambda>_. True)] = Some (Exit 0)"
  using tcp_server_runs_until_signal [where bound = True and
      es = "[(Ev_accept Success, \<lambda>_. True), (Ev_accept (Other_error ''x''), \<lambda>_. True)]"]
    tcp_server_runs_until_signal [where bound = True and
      es = "[(Ev_accept Success, \<lambda>_. True), (Ev_signal, \<lambda>_. True)]"]
  by simp

text \<open>
  C26: one client can end the server for all. A connection that is reset between its acceptance and the
  construction of its session makes \<open>remote_endpoint\<close> throw out of the handler: whatever the other
  sessions were doing, the program does not survive the event and does not end with 0.
\<close>

theorem tcp_server_lost_peer_ends_program:
  assumes "tp_end (program_run es) = None" "Ev_accept Operation_aborted \<notin> set (map fst es)"
    and "\<not> peers (length (sv_sessions (server_run (map fst es))))"
  shows "tcp_server_main True (es @ [(Ev_accept Success, peers)] @ fs) \<in> {Some (Exit 1), Some Terminated}"
proof -
  note alive = program_alive [OF assms(1)]
  have "sv_accept_pending (server_run (map fst es))"
    using server_run_accepting [OF assms(2)] alive by simp
  then have step: "tp_end (program_run (es @ [(Ev_accept Success, peers)])) \<in> {Some (Exit 1), Some Terminated}"
    using assms(1,3) alive by (simp add: program_run_snoc Let_def leave_main_def)
  have "foldl program_step p fs = p" if "tp_end p \<noteq> None" for p
    using that by (induction fs) (simp_all add: program_over)
  moreover have "tp_end (program_run (es @ [(Ev_accept Success, peers)])) \<noteq> None" using step by auto
  ultimately have "program_run (es @ [(Ev_accept Success, peers)] @ fs) =
      program_run (es @ [(Ev_accept Success, peers)])"
    by (simp add: program_run_def)
  with step show ?thesis by (simp add: tcp_server_main_def)
qed

lemma tcp_server_lost_peer_ends_program_witness:
  "tcp_server_main True [(Ev_accept Success, \<lambda>_. True), (Ev_accept Success, \<lambda>i. i = 0)]
     \<in> {Some (Exit 1), Some Terminated}"
proof -
  let ?es = "[(Ev_accept Success, \<lambda>_ :: nat. True)]"
  have alive: "tp_end (program_run ?es) = None" by (simp add: program_run_def Let_def)
  have n: "length (sv_sessions (server_run (map fst ?es))) = 1"
    by (simp add: server_run_def server_new_def do_accept_def on_accept_def)
  from tcp_server_lost_peer_ends_program [OF alive, of "\<lambda>i. i = 0" "[]"] show ?thesis
    unfolding n by simp
qed

end
