(* ===== verification/Tcp_Client_Types.thy ===== *)
theory Tcp_Client_Types
  imports Tcp_Client
begin

text \<open>
  The types of the TCP client's states, for any file and any device: the sizes of its
  buffers, how its flags hang together, and what it holds while an operation is pending.
  In contrast to \<open>client_inv\<close> they do not speak of the chunks of the file, so the file may also be
  too large for its length to be a stream offset.
\<close>

definition typed_buffers :: "tcp_client \<Rightarrow> bool" where
  "typed_buffers c \<longleftrightarrow>
     length (tc_write_header_buffer c) = HEADER_SIZE \<and>
     length (tc_read_header_buffer c) = HEADER_SIZE \<and>
     length (tc_read_body_buffer c) \<le> unat (CHUNK_SIZE * 2)"

definition typed_flags :: "tcp_client \<Rightarrow> bool" where
  "typed_flags c \<longleftrightarrow>
     (tc_io_stopped c \<longleftrightarrow> tc_operations_stopped c) \<and>
     (tc_timer_stopped_flag c \<longleftrightarrow> tc_operations_stopped c) \<and>
     (tc_reported c = None \<longleftrightarrow> \<not> tc_operations_stopped c) \<and>
     (tc_operations_stopped c \<longrightarrow> \<not> tc_socket_open c) \<and>
     (m_timer_running (tc_metrics c) \<longleftrightarrow> tc_socket_open c)"

definition typed_chunk :: "tcp_client \<Rightarrow> bool" where
  "typed_chunk c \<longleftrightarrow> tc_current_chunk_data c \<noteq> [] \<and>
     tc_expected_reversed_chunk c = rev (tc_current_chunk_data c)"

definition typed_pending :: "tcp_client \<Rightarrow> bool" where
  "typed_pending c \<longleftrightarrow>
     (case tc_pending c of
        C_none \<Rightarrow> tc_operations_stopped c
      | C_resolve \<Rightarrow> \<not> tc_operations_stopped c \<and> \<not> tc_socket_open c
      | C_connect \<Rightarrow> \<not> tc_operations_stopped c \<and> \<not> tc_socket_open c
      | C_write bs \<Rightarrow> \<not> tc_operations_stopped c \<and> tc_socket_open c \<and> typed_chunk c \<and>
          (tc_write_header_buffer c, bs) = prepare_message (tc_current_chunk_data c)
      | C_read_header \<Rightarrow> \<not> tc_operations_stopped c \<and> tc_socket_open c \<and> typed_chunk c
      | C_read_body k \<Rightarrow> \<not> tc_operations_stopped c \<and> tc_socket_open c \<and> typed_chunk c \<and>
          0 < k \<and> k = length (tc_read_body_buffer c))"

definition client_typed :: "tcp_client \<Rightarrow> bool" where
  "client_typed c \<longleftrightarrow> typed_buffers c \<and> typed_flags c \<and> typed_pending c"

text \<open>A client inside a handler: no operation is pending, and it is running.\<close>

definition typed_running :: "tcp_client \<Rightarrow> bool" where
  "typed_running c \<longleftrightarrow> typed_buffers c \<and> typed_flags c \<and> \<not> tc_operations_stopped c \<and>
     tc_pending c = C_none"

lemmas typed_defs = client_typed_def typed_buffers_def typed_flags_def typed_running_def

lemma stop_typed [inv_intros]: "typed_running c \<Longrightarrow> client_typed (stop_client_operations env i err c)"
  by (auto simp: typed_defs typed_pending_def stop_client_operations_def stop_timer_def
      stop_resource_monitoring_def Let_def)

lemma prepare_header_length: "length (fst (prepare_message p)) = HEADER_SIZE"
  by (simp add: prepare_message_def le_bytes32_def HEADER_SIZE_def Let_def)

lemma send_typed [inv_intros]:
  assumes "typed_running c" "tc_socket_open c"
  shows "client_typed (send_next_chunk env i c)"
proof -
  obtain data r where dr: "read_next_chunk (tc_chunk_reader c) = (data, r)" by fastforce
  obtain h bs where p: "prepare_message data = (h, bs)" by fastforce
  have h: "length h = HEADER_SIZE" using prepare_header_length [of data] p by simp
  let ?c = "c\<lparr>tc_chunk_reader := r, tc_current_chunk_data := data\<rparr>"
  have r: "typed_running ?c" using assms(1) by (simp add: typed_defs)
  then have "client_typed (stop_client_operations env i err ?c)" for err by (rule stop_typed)
  moreover from r have "client_typed (stop_client_operations env i True
      (?c\<lparr>tc_metrics := record_chunk_verified False (tc_metrics ?c)\<rparr>))"
    by (intro stop_typed) (simp add: typed_defs record_chunk_verified_def)
  moreover have "client_typed (?c\<lparr>tc_expected_reversed_chunk := rev data,
      tc_metrics := start_chunk_rtt_timer (e_now env i) (tc_metrics c),
      tc_write_header_buffer := h, tc_pending := C_write bs\<rparr>)" if "data \<noteq> []"
    using r assms(2) h p that
    by (simp add: typed_defs typed_pending_def typed_chunk_def start_chunk_rtt_timer_def)
  moreover have "\<not> tc_operations_stopped c" using assms(1) by (simp add: typed_running_def)
  ultimately show ?thesis
    using stop_typed [OF assms(1)] dr p
    by (cases "data = []") (simp_all add: send_next_chunk_def Let_def)
qed

lemma handle_typed [inv_intros]:
  assumes "typed_running c" "tc_socket_open c"
  shows "client_typed (handle_received_chunk_data env c)"
proof -
  have "typed_running (c\<lparr>tc_metrics := answered env ok c\<rparr>)"
    "typed_running (c\<lparr>tc_metrics := answered env ok c, tc_chunks_sent := tc_chunks_sent c + 1\<rparr>)" for ok
    using assms(1) by (simp_all add: typed_defs stop_and_record_chunk_rtt_def Let_def)
  moreover have "\<not> tc_operations_stopped c" using assms(1) by (simp add: typed_running_def)
  ultimately show ?thesis
    using assms(2) by (auto simp: handle_received_chunk_data_def Let_def intro: inv_intros)
qed

section \<open>Every handler keeps the types\<close>

lemma typed_none:
  assumes "client_typed c" "\<not> tc_operations_stopped c"
  shows "typed_running (c\<lparr>tc_pending := C_none\<rparr>)"
  using assms by (simp add: typed_defs)

lemma typed_wait:
  assumes "typed_running (c\<lparr>tc_pending := C_none\<rparr>)"
  shows "\<not> tc_socket_open c \<Longrightarrow> client_typed (c\<lparr>tc_pending := C_connect\<rparr>)"
    and "tc_socket_open c \<Longrightarrow> typed_chunk c \<Longrightarrow> client_typed (c\<lparr>tc_pending := C_read_header\<rparr>)"
    and "tc_socket_open c \<Longrightarrow> typed_chunk c \<Longrightarrow> tc_read_body_buffer c \<noteq> [] \<Longrightarrow>
         client_typed (c\<lparr>tc_pending := C_read_body (length (tc_read_body_buffer c))\<rparr>)"
  using assms by (auto simp: typed_defs typed_pending_def typed_chunk_def)

lemma on_resolved_typed:
  assumes "typed_running (c\<lparr>tc_pending := C_none\<rparr>)" "\<not> tc_socket_open c"
  shows "client_typed (on_resolved env ec c)"
  using stop_typed [OF assms(1)] typed_wait(1) [OF assms]
  by (auto simp: on_resolved_def tc_do_connect_def Let_def)

lemma on_connected_typed:
  assumes "typed_running (c\<lparr>tc_pending := C_none\<rparr>)" "\<not> tc_socket_open c"
  shows "client_typed (on_connected env ec c)"
proof -
  let ?d = "c\<lparr>tc_pending := C_none, tc_socket_open := True,
    tc_metrics := start_timer (e_proc env) (e_now env 0) (e_now env 1) (tc_metrics c)\<rparr>"
  have "typed_running ?d"
    using assms
    by (auto simp: typed_defs start_timer_def start_resource_monitoring_def Let_def)
  then have "client_typed (send_next_chunk env 2 ?d)" by (rule send_typed) simp
  with stop_typed [OF assms(1)] show ?thesis by (auto simp: on_connected_def Let_def)
qed

lemma on_sent_typed:
  assumes "typed_running (c\<lparr>tc_pending := C_none\<rparr>)" "tc_socket_open c" "typed_chunk c"
  shows "client_typed (on_sent env ec c)"
proof -
  have "\<not> tc_operations_stopped c" using assms(1) by (simp add: typed_running_def)
  with stop_typed [OF assms(1)] typed_wait(2) [OF assms] show ?thesis
    by (auto simp: on_sent_def tc_do_read_header_def Let_def)
qed

lemma on_header_typed:
  assumes "typed_running (c\<lparr>tc_pending := C_none\<rparr>)" "tc_socket_open c" "typed_chunk c"
    and "length data \<le> HEADER_SIZE"
  shows "client_typed (on_header env ec data c)"
proof -
  define h where "h = overwrite (tc_read_header_buffer c) data"
  define n where "n = parse_header h"
  define d where "d = c\<lparr>tc_pending := C_none, tc_read_header_buffer := h\<rparr>"
  define e where "e = d\<lparr>tc_read_body_buffer := resize_bytes (tc_read_body_buffer d) (unat n)\<rparr>"
  have d: "typed_running d" using assms(1,4) by (simp add: typed_defs d_def h_def)
  have e: "typed_running e" if "\<not> CHUNK_SIZE * 2 < ucast n"
  proof -
    have "(ucast n :: u64) \<le> CHUNK_SIZE * 2" using that by simp
    then have "unat n \<le> unat (CHUNK_SIZE * 2)" by (simp add: word_le_nat_alt)
    with d show ?thesis by (simp add: typed_defs e_def)
  qed
  have body: "client_typed (tc_do_read_body e)" if "\<not> CHUNK_SIZE * 2 < ucast n" "n \<noteq> 0"
  proof -
    have "tc_read_body_buffer e \<noteq> []" using that(2) by (simp add: e_def unat_eq_zero flip: length_0_conv)
    moreover have "e\<lparr>tc_pending := C_none\<rparr> = e" by (simp add: e_def d_def)
    moreover have "tc_socket_open e" "typed_chunk e" "\<not> tc_operations_stopped e"
      using assms(2,3) e [OF that(1)] by (simp_all add: e_def d_def typed_chunk_def typed_running_def)
    ultimately show ?thesis using typed_wait(3) [of e] e [OF that(1)] by (simp add: tc_do_read_body_def)
  qed
  have received: "client_typed (handle_received_chunk_data env e)" if "\<not> CHUNK_SIZE * 2 < ucast n"
    using e [OF that] assms(2) by (intro handle_typed) (simp_all add: e_def d_def)
  have "on_header env ec data c =
      (if tc_operations_stopped d then d
       else if ec = Success
       then if CHUNK_SIZE * 2 < ucast n then stop_client_operations env 0 True d
            else if n = 0 then handle_received_chunk_data env e else tc_do_read_body e
       else if ec = Eof
       then if tc_total_chunks_to_send d \<le> tc_chunks_sent d then stop_client_operations env 0 False d
            else stop_client_operations env 0 True d
       else stop_client_operations env 0 True d)"
    by (simp add: on_header_def Let_def e_def n_def d_def h_def)
  moreover have "\<not> tc_operations_stopped d" using d by (simp add: typed_running_def)
  ultimately show ?thesis using stop_typed [OF d] body received by (simp split: if_split)
qed

lemma on_body_typed:
  assumes "typed_running (c\<lparr>tc_pending := C_none\<rparr>)" "tc_socket_open c"
    and "length data \<le> length (tc_read_body_buffer c)"
  shows "client_typed (on_body env ec data c)"
proof -
  define d where
    "d = c\<lparr>tc_pending := C_none, tc_read_body_buffer := overwrite (tc_read_body_buffer c) data\<rparr>"
  define l where "l = length (tc_read_body_buffer d)"
  have d: "typed_running d" using assms(1,3) by (simp add: typed_defs d_def)
  have "client_typed (handle_received_chunk_data env d)"
    using d assms(2) by (intro handle_typed) (simp_all add: d_def)
  moreover have "on_body env ec data c =
      (if tc_operations_stopped d then d
       else if ec = Success
       then if length data \<noteq> l then stop_client_operations env 0 True d
            else handle_received_chunk_data env d
       else stop_client_operations env 0 True d)"
    by (simp only: on_body_def Let_def l_def d_def)
  moreover have "\<not> tc_operations_stopped d" using d by (simp add: typed_running_def)
  ultimately show ?thesis using stop_typed [OF d] by (simp split: if_split)
qed

lemma client_step_typed:
  assumes "client_typed c" "client_accepts c e"
  shows "client_typed (client_step env c e)"
proof -
  have "\<not> tc_operations_stopped c"
    using assms by (cases e) (auto simp: client_typed_def typed_flags_def)
  note none = typed_none [OF assms(1) this]
  have "typed_pending c" using assms(1) by (simp add: client_typed_def)
  with assms(2) none show ?thesis
    by (cases e) (auto simp: typed_pending_def split: client_pending.splits
        intro: on_resolved_typed on_connected_typed on_sent_typed on_header_typed on_body_typed)
qed

lemma client_reachable_typed:
  assumes "client_typed (tc_start c0)" "client_reachable c0 c"
  shows "client_typed c"
  using assms(2,1) by (induction rule: client_reachable.induct) (auto intro: client_step_typed)

lemma tc_new_typed:
  assumes "tc_new fs m = Inr c" "\<not> m_timer_running m"
  shows "client_typed (tc_start c)"
  using assms
  by (auto simp: tc_new_def tc_start_def typed_defs typed_pending_def Let_def split: sum.splits)

section \<open>Properties\<close>



end
