(* ===== verification/Transfer_Spec.thy ===== *)
theory Transfer_Spec
  imports Prelude
begin

text \<open>
  What a transfer promises, whatever carries it: an abstract machine over the numbers of the
  chunks. A chunk is settled at most once, as answered correctly (\<open>tr_good\<close>) or wrongly (\<open>tr_bad\<close>);
  success can be declared only when every chunk is good, failure at any time; after that
  nothing changes. States are ordered by progress.

  The locale \<open>transfer_refinement\<close> is the contract of a client: a simulation relation between
  its states and the abstract ones. The TCP, the gRPC and the Cap'n Proto client interpret it.
\<close>

section \<open>The abstract machine\<close>

datatype transfer =
  Transfer (tr_good: "nat set") (tr_bad: "nat set") (tr_outcome: "bool option")

abbreviation transfer_start :: transfer where
  "transfer_start \<equiv> Transfer {} {} None"

inductive transfer_step :: "nat \<Rightarrow> transfer \<Rightarrow> transfer \<Rightarrow> bool" for n where
  right: "i < n \<Longrightarrow> i \<notin> g \<union> b \<Longrightarrow>
    transfer_step n (Transfer g b None) (Transfer (insert i g) b None)"
| wrong: "i < n \<Longrightarrow> i \<notin> g \<union> b \<Longrightarrow>
    transfer_step n (Transfer g b None) (Transfer g (insert i b) None)"
| success: "transfer_step n (Transfer {..<n} {} None) (Transfer {..<n} {} (Some True))"
| failure: "transfer_step n (Transfer g b None) (Transfer g b (Some False))"

inductive_simps transfer_step_from: "transfer_step n (Transfer g b r) t"
inductive_cases transfer_stepE: "transfer_step n s t"

abbreviation transfer_run :: "nat \<Rightarrow> transfer \<Rightarrow> transfer \<Rightarrow> bool" where
  "transfer_run n \<equiv> (transfer_step n)\<^sup>*\<^sup>*"

subsection \<open>Progress is an order\<close>

instantiation transfer :: order
begin

definition less_eq_transfer :: "transfer \<Rightarrow> transfer \<Rightarrow> bool" where
  "less_eq_transfer a b \<longleftrightarrow>
     tr_good a \<subseteq> tr_good b \<and> tr_bad a \<subseteq> tr_bad b \<and> (tr_outcome a = None \<or> tr_outcome a = tr_outcome b)"

definition less_transfer :: "transfer \<Rightarrow> transfer \<Rightarrow> bool" where
  "less_transfer a b \<longleftrightarrow> a \<le> b \<and> \<not> b \<le> a"

instance
  by standard (auto simp: less_eq_transfer_def less_transfer_def intro: transfer.expand)

end

lemma transfer_step_mono: "transfer_step n a b \<Longrightarrow> a \<le> b"
  by (auto simp: less_eq_transfer_def elim: transfer_stepE)

lemma transfer_run_mono: "transfer_run n a b \<Longrightarrow> a \<le> b"
  by (induction rule: rtranclp_induct) (auto dest: transfer_step_mono)

subsection \<open>What holds in every state\<close>

definition transfer_ok :: "nat \<Rightarrow> transfer \<Rightarrow> bool" where
  "transfer_ok n a \<longleftrightarrow> tr_good a \<union> tr_bad a \<subseteq> {..<n} \<and> tr_good a \<inter> tr_bad a = {} \<and>
     (tr_outcome a = Some True \<longrightarrow> tr_good a = {..<n})"

lemma transfer_step_ok: "transfer_step n a b \<Longrightarrow> transfer_ok n a \<Longrightarrow> transfer_ok n b"
  by (auto simp: transfer_ok_def elim!: transfer_stepE)

lemma transfer_run_ok: "transfer_run n transfer_start a \<Longrightarrow> transfer_ok n a"
proof (induction rule: rtranclp_induct)
  case base
  show ?case by (simp add: transfer_ok_def)
qed (rule transfer_step_ok)

text \<open>Settling the next chunks in order, and closing.\<close>

lemma transfer_run_upto:
  assumes "k \<le> l" "l \<le> n"
  shows "transfer_run n (Transfer {..<k} {} None) (Transfer {..<l} {} None)"
  using assms
proof (induction l rule: dec_induct)
  case (step l)
  then have "transfer_step n (Transfer {..<l} {} None) (Transfer {..<Suc l} {} None)"
    by (simp add: lessThan_Suc transfer_step.right)
  with step show ?case by (auto intro: rtranclp.rtrancl_into_rtrancl)
qed simp

lemma transfer_run_close:
  assumes "k \<le> l" "l \<le> n" "r = Some True \<Longrightarrow> l = n"
  shows "transfer_run n (Transfer {..<k} {} None) (Transfer {..<l} {} r)"
proof (cases r)
  case None
  with transfer_run_upto [OF assms(1,2)] show ?thesis by simp
next
  case (Some ok)
  then have "transfer_step n (Transfer {..<l} {} None) (Transfer {..<l} {} r)"
    using assms(3) by (cases ok) (auto intro: transfer_step.intros)
  with transfer_run_upto [OF assms(1,2)] show ?thesis by (rule rtranclp.rtrancl_into_rtrancl)
qed

section \<open>The contract of a client\<close>

text \<open>
  \<open>weight i\<close> is what chunk \<open>i\<close> contributes to the client's own count of verified data, \<open>result\<close>
  what the client has reported.
\<close>

locale transfer_refinement =
  fixes n :: nat
    and step :: "'s \<Rightarrow> 's \<Rightarrow> bool"
    and rel :: "'s \<Rightarrow> transfer \<Rightarrow> bool"
    and result :: "'s \<Rightarrow> bool option"
    and counted :: "'s \<Rightarrow> u64"
    and weight :: "nat \<Rightarrow> u64"
  assumes simulates: "rel s a \<Longrightarrow> step s t \<Longrightarrow> \<exists>b. transfer_run n a b \<and> rel t b"
    and reports: "rel s a \<Longrightarrow> tr_outcome a = result s"
    and counts: "rel s a \<Longrightarrow> counted s = sum weight (tr_good a)"
begin

lemma run_simulates:
  assumes "rel s a" "step\<^sup>*\<^sup>* s t"
  shows "\<exists>b. transfer_run n a b \<and> a \<le> b \<and> rel t b"
  using assms(2,1)
proof (induction rule: rtranclp_induct)
  case (step t u)
  then obtain b where b: "transfer_run n a b" "rel t b" by blast
  from simulates [OF b(2) step.hyps(2)] obtain c where "transfer_run n b c" "rel u c" by blast
  with b(1) have "transfer_run n a c" by (meson rtranclp_trans)
  with \<open>rel u c\<close> transfer_run_mono show ?case by blast
qed auto

text \<open>What a client can rely on once it has reported success: all of it was counted.\<close>

lemma refines:
  assumes "rel s transfer_start" "step\<^sup>*\<^sup>* s t"
  shows "\<exists>a. transfer_run n transfer_start a \<and> rel t a \<and> tr_outcome a = result t \<and>
             counted t = sum weight (tr_good a) \<and>
             (result t = Some True \<longrightarrow> tr_good a = {..<n} \<and> counted t = sum weight {..<n})"
proof -
  obtain a where a: "transfer_run n transfer_start a" "rel t a"
    using run_simulates [OF assms] by blast
  from transfer_run_ok [OF a(1)] reports [OF a(2)] counts [OF a(2)] a show ?thesis
    by (auto simp: transfer_ok_def)
qed

end

end
