(* ===== verification/Tcp_Refine.thy ===== *)
theory Tcp_Refine
  imports Tcp_Client Transfer_Spec
begin

text \<open>
  The TCP client refines the abstract transfer: its counter of sent chunks is the number of
  good chunks, settled in order, and what it reports is the outcome. The network and the
  server are arbitrary.
\<close>

definition client_moves :: "tcp_client \<Rightarrow> tcp_client \<Rightarrow> bool" where
  "client_moves c d \<longleftrightarrow> (\<exists>env e. client_accepts c e \<and> d = client_step env c e)"

definition tcp_abs :: "tcp_client \<Rightarrow> transfer" where
  "tcp_abs c = Transfer {..<unat (tc_chunks_sent c)} {} (map_option Not (tc_reported c))"

definition tcp_rel :: "bytes list \<Rightarrow> tcp_client \<Rightarrow> transfer \<Rightarrow> bool" where
  "tcp_rel cs c a \<longleftrightarrow> client_inv cs c \<and> a = tcp_abs c"

lemma step_counts:
  assumes "tc_chunks_sent (client_step env c e) \<noteq> tc_chunks_sent c" "client_accepts c e"
  shows "tc_chunks_sent (client_step env c e) = tc_chunks_sent c + 1" "sending c"
    "\<not> tc_operations_stopped c"
proof -
  obtain ec data where e: "e = Cv_read ec data"
    using assms(1)
    by (cases e) (auto simp: on_resolved_def on_connected_def on_sent_def tc_do_connect_def
        tc_do_read_header_def stop_keeps send_keeps Let_def split: if_splits)
  show "sending c" using assms(2) e by (auto simp: sending_def split: client_pending.splits)
  show "tc_chunks_sent (client_step env c e) = tc_chunks_sent c + 1" "\<not> tc_operations_stopped c"
    using assms(1) on_header_counts(1,3) [of env ec data c] on_body_counts(1,3) [of env ec data c]
    by (simp_all add: e split: if_splits)
qed

lemma inv_idle: "client_inv cs c \<Longrightarrow> idle_inv cs c"
  by (auto simp: client_inv_def stopped_inv_def sending_inv_def between_inv_def running_inv_def
      split: if_splits)

lemma accepts_unreported:
  assumes "client_inv cs c" "client_accepts c e"
  shows "tc_reported c = None"
proof -
  have "\<not> tc_io_stopped c" using assms(2) by (cases e) simp_all
  with assms(1) show ?thesis
    by (auto simp: client_inv_def stopped_inv_def sending_inv_def between_inv_def running_inv_def
        split: if_splits)
qed

lemma reported_success:
  "client_inv cs c \<Longrightarrow> tc_reported c = Some False \<Longrightarrow> unat (tc_chunks_sent c) = length cs"
  by (auto simp: client_inv_def stopped_inv_def sending_inv_def between_inv_def running_inv_def
      split: if_splits)

lemma tcp_simulates:
  assumes "tcp_rel cs c a" "client_moves c d"
  shows "\<exists>b. transfer_run (length cs) a b \<and> tcp_rel cs d b"
proof -
  obtain env e where e: "client_accepts c e" "d = client_step env c e"
    using assms(2) by (auto simp: client_moves_def)
  have inv: "client_inv cs c" and a: "a = tcp_abs c" using assms(1) by (simp_all add: tcp_rel_def)
  have inv': "client_inv cs d" using client_step_inv [OF inv e(1)] e(2) by simp
  let ?k = "unat (tc_chunks_sent c)" and ?l = "unat (tc_chunks_sent d)"
  have bounds: "?k \<le> length cs" "?l \<le> length cs" "length cs < 2 ^ 64"
    using inv_idle [OF inv] inv_idle [OF inv'] idle_fits by (auto simp: idle_inv_def)
  have "?k \<le> ?l"
  proof (cases "tc_chunks_sent d = tc_chunks_sent c")
    case False
    with step_counts [of env c e] e inv have "sending_inv cs c" "tc_chunks_sent d = tc_chunks_sent c + 1"
      by (auto simp: client_inv_def)
    with bounds(3) unat_Suc_u64 [of "tc_chunks_sent c"] show ?thesis by (simp add: sending_inv_def)
  qed simp
  moreover have "?l = length cs" if "map_option Not (tc_reported d) = Some True"
    using that reported_success [OF inv'] by auto
  ultimately have "transfer_run (length cs) (tcp_abs c) (tcp_abs d)"
    using transfer_run_close [of ?k ?l "length cs" "map_option Not (tc_reported d)"] bounds(2)
      accepts_unreported [OF inv e(1)]
    by (simp add: tcp_abs_def)
  with a inv' show ?thesis by (auto simp: tcp_rel_def)
qed


text \<open>The contract on the client's own definitions; every chunk counts one.\<close>

interpretation tcp_client_transfer:
  transfer_refinement "length cs" client_moves "tcp_rel cs" "\<lambda>c. map_option Not (tc_reported c)"
    tc_chunks_sent "\<lambda>_. 1" for cs
proof unfold_locales
  fix c d a
  assume r: "tcp_rel cs c a"
  show "\<exists>b. transfer_run (length cs) a b \<and> tcp_rel cs d b" if "client_moves c d"
    using tcp_simulates [OF r that] .
  show "tr_outcome a = map_option Not (tc_reported c)" "tc_chunks_sent c = sum (\<lambda>_. 1) (tr_good a)"
    using r by (simp_all add: tcp_rel_def tcp_abs_def)
qed

lemma reachable_moves: "client_reachable c0 c \<Longrightarrow> client_moves\<^sup>*\<^sup>* (tc_start c0) c"
  by (induction rule: client_reachable.induct)
     (auto simp: client_moves_def intro: rtranclp.rtrancl_into_rtrancl)

section \<open>Properties\<close>



end
