(* ===== verification/Common.thy ===== *)
theory Common
  imports Prelude
begin

text \<open>
  Configuration and reversal shared by the gRPC and Cap'n Proto programs
  (src/common/include/config.hpp and src/common/include/reversal_utils.hpp).
\<close>

section \<open>Configuration\<close>

definition test_filename :: string where
  "test_filename = ''test_file.dat''"

definition TEST_FILE_SIZE_GB :: u64 where
  "TEST_FILE_SIZE_GB = 10"

definition ACTUAL_FILE_SIZE_BYTES :: u64 where
  "ACTUAL_FILE_SIZE_BYTES = TEST_FILE_SIZE_GB * 1024 * 1024 * 1024"

definition CHUNK_SIZE_BYTES :: u64 where
  "CHUNK_SIZE_BYTES = 64 * 1024"

definition CSV_OUTPUT_FILE_PREFIX :: string where
  "CSV_OUTPUT_FILE_PREFIX = ''benchmark''"

datatype protocol = GRPC | CAPNP

definition protocol_to_string :: "protocol \<Rightarrow> string" where
  "protocol_to_string p = (case p of GRPC \<Rightarrow> ''gRPC'' | CAPNP \<Rightarrow> ''Cap'' @ [CHR 0x27] @ ''nProto'')"

lemma unat_CHUNK_SIZE_BYTES [simp]: "unat CHUNK_SIZE_BYTES = 65536"
  by (simp add: CHUNK_SIZE_BYTES_def)

lemma unat_ACTUAL_FILE_SIZE_BYTES [simp]: "unat ACTUAL_FILE_SIZE_BYTES = 10737418240"
  by (simp add: ACTUAL_FILE_SIZE_BYTES_def TEST_FILE_SIZE_GB_def)

section \<open>Reversal\<close>

definition reverse_bytes :: "bytes \<Rightarrow> bytes" where
  "reverse_bytes data = std_reverse data"

definition reverse_string :: "string \<Rightarrow> string" where
  "reverse_string data = std_reverse data"

lemma reverse_bytes_rev [simp]: "reverse_bytes data = rev data"
  by (simp add: reverse_bytes_def)

end
