(* ===== verification/Capnp_Server.thy ===== *)
theory Capnp_Server
  imports Common Text_Format
begin

text \<open>
  The Cap'n Proto server (src/capnp_app/capnp_server.cpp): the \<open>ChunkHandler\<close> and
  \<open>FileProcessor\<close> implementations, one RPC system for each connection, and the accept loop.
  The RPC library is the environment: a connection is the list of the capabilities it has
  handed out, a call names one of them.

  \<open>reversing_service\<close> is what a client relies on; it is interpreted on this server.
\<close>

section \<open>The remote objects\<close>

text \<open>
  \<open>processChunk\<close> copies the request into a fresh vector (of zero bytes until \<open>memcpy\<close>),
  reverses it and answers with it.
\<close>

definition process_chunk :: "bytes \<Rightarrow> bytes" where
  "process_chunk request_data =
     (let chunk_vec = replicate (length request_data) 0;
          chunk_vec = (if chunk_vec \<noteq> [] then overwrite chunk_vec request_data else chunk_vec);
          chunk_vec = reverse_bytes chunk_vec
      in chunk_vec)"

text \<open>What an exception can be when it reaches a \<open>catch\<close>.\<close>

datatype thrown = Kj_exception string | Std_exception string | Unknown_exception

text \<open>One connection: how many \<open>ChunkHandler\<close> capabilities it has handed out.\<close>

record capnp_conn =
  cc_handlers :: nat
  cc_done :: "nat list"

definition conn_new :: capnp_conn where
  "conn_new = \<lparr>cc_handlers = 0, cc_done = []\<rparr>"

definition start_streaming :: "capnp_conn \<Rightarrow> (thrown + nat) \<times> capnp_conn" where
  "start_streaming cn = (Inr (cc_handlers cn), cn\<lparr>cc_handlers := cc_handlers cn + 1\<rparr>)"

definition no_capability :: thrown where
  "no_capability = Kj_exception ''no such capability''"

definition conn_process_chunk :: "capnp_conn \<Rightarrow> nat \<Rightarrow> bytes \<Rightarrow> (thrown + bytes) \<times> capnp_conn" where
  "conn_process_chunk cn h data =
     (if h < cc_handlers cn then (Inr (process_chunk data), cn) else (Inl no_capability, cn))"

definition done_streaming :: "capnp_conn \<Rightarrow> nat \<Rightarrow> thrown option \<times> capnp_conn" where
  "done_streaming cn h =
     (if h < cc_handlers cn then (None, cn\<lparr>cc_done := cc_done cn @ [h]\<rparr>)
      else (Some no_capability, cn))"

lemma process_chunk_rev [simp]: "process_chunk data = rev data"
  by (auto simp: process_chunk_def overwrite_def Let_def)

section \<open>The interface of the service\<close>

text \<open>
  \<open>served v h\<close>: the client holds handler \<open>h\<close> of a service in state \<open>v\<close>. Starting succeeds and
  gives a handler, every chunk comes back reversed, and finishing succeeds.
\<close>

locale reversing_service =
  fixes start :: "'v \<Rightarrow> (thrown + nat) \<times> 'v"
    and process :: "'v \<Rightarrow> nat \<Rightarrow> bytes \<Rightarrow> (thrown + bytes) \<times> 'v"
    and finish :: "'v \<Rightarrow> nat \<Rightarrow> thrown option \<times> 'v"
    and ready :: "'v \<Rightarrow> bool"
    and served :: "'v \<Rightarrow> nat \<Rightarrow> bool"
  assumes start_ok: "ready v \<Longrightarrow> \<exists>h w. start v = (Inr h, w) \<and> served w h"
    and process_ok: "served v h \<Longrightarrow> \<exists>w. process v h data = (Inr (rev data), w) \<and> served w h"
    and finish_ok: "served v h \<Longrightarrow> \<exists>w. finish v h = (None, w)"

interpretation capnp: reversing_service start_streaming conn_process_chunk done_streaming
    "\<lambda>_. True" "\<lambda>cn h. h < cc_handlers cn"
  by unfold_locales (auto simp: start_streaming_def conn_process_chunk_def done_streaming_def)

section \<open>The accept loop\<close>

text \<open>
  The outcomes of \<open>accept().wait()\<close>, in order; the loop waits when they are used up. Each
  accepted connection gets an RPC system of its own, and anything else ends the loop.
\<close>

datatype accept_result = Accepted | Accepted_null | Accept_throws thrown

definition CAPNP_SERVER_ADDRESS :: string where
  "CAPNP_SERVER_ADDRESS = ''0.0.0.0''"

definition CAPNP_SERVER_PORT :: int where
  "CAPNP_SERVER_PORT = 50052"

definition bind_address :: string where
  "bind_address =
     (if CAPNP_SERVER_ADDRESS = ''0.0.0.0'' then ''*:'' @ int_to_dec CAPNP_SERVER_PORT
      else CAPNP_SERVER_ADDRESS @ '':'' @ int_to_dec CAPNP_SERVER_PORT)"

fun accept_loop :: "accept_result list \<Rightarrow> capnp_conn list \<Rightarrow> capnp_conn list \<times> bool" where
  "accept_loop [] tasks = (tasks, False)"
| "accept_loop (r # rs) tasks =
     (case r of
        Accepted \<Rightarrow> accept_loop rs (tasks @ [conn_new])
      | Accepted_null \<Rightarrow> (tasks, True)
      | Accept_throws e \<Rightarrow> (tasks, True))"

text \<open>The exit code, once there is one; a failed set-up is reported with 1.\<close>

definition capnp_server_main :: "thrown option \<Rightarrow> accept_result list \<Rightarrow> int option \<times> capnp_conn list" where
  "capnp_server_main setup rs =
     (case setup of
        Some e \<Rightarrow> (Some 1, [])
      | None \<Rightarrow> (case accept_loop rs [] of (tasks, left_loop) \<Rightarrow>
                  (if left_loop then Some 0 else None, tasks)))"

lemma accept_loop_spec:
  "accept_loop rs tasks =
     (tasks @ replicate (length (takeWhile (\<lambda>r. r = Accepted) rs)) conn_new,
      \<exists>r \<in> set rs. r \<noteq> Accepted)"
  by (induction rs arbitrary: tasks) (auto split: accept_result.split simp: replicate_append_same)

section \<open>Properties\<close>

text \<open>
  The accept loop serves exactly the connections accepted before the first failure, each with a
  fresh state of its own; it has an exit code (0) only after a failed or empty accept, and 1 only
  when the set-up failed.
\<close>

theorem capnp_server_accepts:
  "capnp_server_main setup rs =
     (case setup of
        Some e \<Rightarrow> (Some 1, [])
      | None \<Rightarrow> (if list_all (\<lambda>r. r = Accepted) rs then None else Some 0,
                 replicate (length (takeWhile (\<lambda>r. r = Accepted) rs)) conn_new))"
  by (auto simp: capnp_server_main_def accept_loop_spec list_all_iff split: option.split)

text \<open>
  The remote object. \<open>startStreaming\<close> hands out a handler the connection has not handed out
  before; a chunk sent to it comes back reversed and leaves the connection unchanged;
  \<open>doneStreaming\<close> succeeds and does not take the handler away.
\<close>

theorem capnp_handler_reverses:
  "\<exists>h cn'. start_streaming cn = (Inr h, cn') \<and> \<not> h < cc_handlers cn \<and> h < cc_handlers cn' \<and>
     conn_process_chunk cn' h data = (Inr (rev data), cn') \<and>
     fst (done_streaming cn' h) = None \<and>
     fst (conn_process_chunk (snd (done_streaming cn' h)) h data) = Inr (rev data)"
  by (simp add: start_streaming_def conn_process_chunk_def done_streaming_def)

end
