(* ===== verification/Chunk_Reader.thy ===== *)
theory Chunk_Reader
  imports File_Streams
begin

text \<open>
  \<open>benchmark_common::ChunkReader\<close> (src/common/src/file_utils.cpp), the reader of the gRPC and
  Cap'n Proto clients. Its buffer is the file's bytes the stream delivered: the vector is
  allocated with \<open>chunk_size_\<close> bytes, filled by \<open>read\<close> and cut to \<open>gcount()\<close>.
\<close>

section \<open>State and operations\<close>

record chunk_reader =
  cr_filename :: string
  cr_chunk_size :: u64
  cr_stream :: ifstream
  cr_file_size :: u64
  cr_eof_flag :: bool
  cr_total_bytes_read :: u64

definition get_file_size :: "fsys \<Rightarrow> string \<Rightarrow> exn + u64" where
  "get_file_size fs fname =
     (let s = ifs_open fs fname
      in if \<not> is_opened s
         then Inl (Runtime_error (''Could not open file to get_file_size: '' @ fname))
         else Inr (ifs_size s))"

definition cr_new :: "fsys \<Rightarrow> string \<Rightarrow> u64 \<Rightarrow> exn + chunk_reader" where
  "cr_new fs filename chunk_size =
     (case get_file_size fs filename of
        Inl e \<Rightarrow> Inl e
      | Inr n \<Rightarrow>
          let s = ifs_open fs filename
          in if ifs_fail s
             then Inl (Runtime_error (''Error: Could not open file for reading: '' @ filename))
             else Inr \<lparr>cr_filename = filename, cr_chunk_size = chunk_size, cr_stream = s,
                       cr_file_size = n, cr_eof_flag = False, cr_total_bytes_read = 0\<rparr>)"

definition cr_destroy :: "chunk_reader \<Rightarrow> chunk_reader" where
  "cr_destroy r =
     (if is_opened (cr_stream r) then r\<lparr>cr_stream := ifs_close (cr_stream r)\<rparr> else r)"

definition next_chunk :: "chunk_reader \<Rightarrow> bytes \<times> chunk_reader" where
  "next_chunk r =
     (if cr_eof_flag r \<or> \<not> is_opened (cr_stream r) then ([], r)
      else case ifs_read (unat (cr_chunk_size r)) (cr_stream r) of (buffer, s) \<Rightarrow>
        if 0 < is_gcount s
        then (buffer, r\<lparr>cr_stream := s,
                        cr_total_bytes_read := cr_total_bytes_read r + of_nat (is_gcount s)\<rparr>)
        else ([], r\<lparr>cr_stream := s, cr_eof_flag := True\<rparr>))"

definition cr_eof :: "chunk_reader \<Rightarrow> bool" where
  "cr_eof r \<longleftrightarrow> cr_eof_flag r \<or> cr_file_size r \<le> cr_total_bytes_read r"

definition cr_reset :: "fsys \<Rightarrow> chunk_reader \<Rightarrow> exn + chunk_reader" where
  "cr_reset fs r =
     (let rewound = (\<lambda>s. Inr (r\<lparr>cr_stream := s, cr_eof_flag := False, cr_total_bytes_read := 0\<rparr>))
      in if is_opened (cr_stream r) then rewound (ifs_rewind (ifs_clear (cr_stream r)))
         else let s = ifs_open fs (cr_filename r)
              in if ifs_fail s
                 then Inl (Runtime_error (''Error: Could not reopen file for reset: '' @ cr_filename r))
                 else rewound s)"

definition remaining_bytes :: "chunk_reader \<Rightarrow> u64" where
  "remaining_bytes r =
     (if cr_file_size r \<le> cr_total_bytes_read r then 0
      else cr_file_size r - cr_total_bytes_read r)"

section \<open>The invariant\<close>

definition cr_left :: "chunk_reader \<Rightarrow> bytes" where
  "cr_left r = ifs_rest (cr_stream r)"

definition cr_csize :: "chunk_reader \<Rightarrow> nat" where
  "cr_csize r = unat (cr_chunk_size r)"

definition cr_sound :: "chunk_reader \<Rightarrow> bool" where
  "cr_sound r \<longleftrightarrow> ifs_sound (cr_stream r) \<and> fits (is_content (cr_stream r)) \<and>
     0 < cr_csize r \<and> cr_file_size r = sz (is_content (cr_stream r)) \<and>
     unat (cr_total_bytes_read r) = is_pos (cr_stream r) \<and> (cr_eof_flag r \<longrightarrow> cr_left r = [])"

lemma cr_new_sound:
  assumes "readable fs f bs" "fits bs" "0 < unat csz"
  obtains r where "cr_new fs f csz = Inr r" "cr_sound r" "cr_left r = bs" "cr_chunk_size r = csz"
    "cr_file_size r = sz bs" "cr_total_bytes_read r = 0" "is_content (cr_stream r) = bs"
proof -
  have "ifs_open fs f = ifs_closed\<lparr>is_content := bs, is_fault := (\<lambda>_. None), is_opened := True\<rparr>"
    using assms(1) by (rule ifs_open_readable)
  with assms that show ?thesis
    by (simp add: cr_new_def get_file_size_def ifs_size_def ifs_fail_def ifs_closed_def cr_sound_def
        cr_left_def cr_csize_def ifs_sound_def ifs_rest_def ifs_good_def)
qed

lemma cr_sound_pos: "cr_sound r \<Longrightarrow> is_pos (cr_stream r) \<le> length (is_content (cr_stream r))"
  by (simp add: cr_sound_def ifs_sound_def)

lemma cr_sound_eof_iff:
  assumes "cr_sound r"
  shows "cr_eof r \<longleftrightarrow> cr_eof_flag r \<or> cr_left r = []"
proof -
  have "cr_file_size r \<le> cr_total_bytes_read r \<longleftrightarrow>
        length (is_content (cr_stream r)) \<le> is_pos (cr_stream r)"
    using assms by (simp add: cr_sound_def word_le_nat_alt unat_sz)
  then show ?thesis by (simp add: cr_eof_def cr_left_def ifs_rest_def)
qed

lemma next_chunk_sound:
  assumes "cr_sound r"
  shows "fst (next_chunk r) = take (cr_csize r) (cr_left r)"
    and "cr_left (snd (next_chunk r)) = drop (cr_csize r) (cr_left r)"
    and "cr_sound (snd (next_chunk r))"
    and "cr_csize (snd (next_chunk r)) = cr_csize r"
    and "is_content (cr_stream (snd (next_chunk r))) = is_content (cr_stream r)"
proof -
  let ?s = "cr_stream r" and ?n = "unat (cr_chunk_size r)"
  have snd: "ifs_sound ?s" using assms by (simp add: cr_sound_def)
  then have opened: "is_opened ?s" by (simp add: ifs_sound_def)
  show "fst (next_chunk r) = take (cr_csize r) (cr_left r)"
    "cr_left (snd (next_chunk r)) = drop (cr_csize r) (cr_left r)"
    "cr_csize (snd (next_chunk r)) = cr_csize r"
    "is_content (cr_stream (snd (next_chunk r))) = is_content (cr_stream r)"
    using assms opened ifs_sound_read [OF snd, of ?n]
    by (auto simp: next_chunk_def cr_sound_def cr_left_def cr_csize_def case_prod_beta)
  have "unat (cr_total_bytes_read r) + length (fst (ifs_read ?n ?s)) < 2 ^ 64"
  proof -
    have "is_pos ?s + length (fst (ifs_read ?n ?s)) \<le> length (is_content ?s)"
      using ifs_sound_read(3) [OF snd, of ?n] by (simp add: ifs_sound_def ifs_read_prefix)
    with assms show ?thesis by (simp add: cr_sound_def fits_def)
  qed
  then have "unat (cr_total_bytes_read r + of_nat (length (fst (ifs_read ?n ?s)))) =
        is_pos (snd (ifs_read ?n ?s))"
    using assms by (simp add: ifs_read_prefix unat_add_u64 unat_of_nat_u64 cr_sound_def)
  with assms ifs_sound_read [OF snd, of ?n] show "cr_sound (snd (next_chunk r))"
    by (auto simp: next_chunk_def cr_sound_def cr_left_def cr_csize_def ifs_read_prefix(1)
        case_prod_beta)
qed

interpretation cr: chunk_source next_chunk cr_eof cr_left cr_csize cr_sound
proof unfold_locales
  fix r assume r: "cr_sound r"
  show "fst (next_chunk r) = take (cr_csize r) (cr_left r)"
    "cr_left (snd (next_chunk r)) = drop (cr_csize r) (cr_left r)"
    "cr_sound (snd (next_chunk r))" "cr_csize (snd (next_chunk r)) = cr_csize r"
    by (rule next_chunk_sound [OF r])+
  show "0 < cr_csize r" using r by (simp add: cr_sound_def)
  show "cr_eof (snd (next_chunk r))" if "fst (next_chunk r) = []"
    using that r next_chunk_sound [OF r] by (auto simp: cr_sound_eof_iff cr_sound_def)
  show "cr_left r = []" if "cr_eof r"
    using that r by (auto simp: cr_sound_eof_iff cr_sound_def)
qed

section \<open>Counting and starting again\<close>

lemma remaining_left:
  assumes "cr_sound r"
  shows "unat (remaining_bytes r) = length (cr_left r)"
proof -
  let ?s = "cr_stream r"
  have n: "unat (cr_file_size r) = length (is_content ?s)" "unat (cr_total_bytes_read r) = is_pos ?s"
    using assms by (simp_all add: cr_sound_def unat_sz)
  show ?thesis
  proof (cases "cr_file_size r \<le> cr_total_bytes_read r")
    case True
    with n show ?thesis by (simp add: remaining_bytes_def cr_left_def ifs_rest_def word_le_nat_alt)
  next
    case False
    then have "unat (cr_file_size r - cr_total_bytes_read r) = length (is_content ?s) - is_pos ?s"
      using n by (simp add: unat_sub)
    with False show ?thesis by (simp add: remaining_bytes_def cr_left_def ifs_rest_def)
  qed
qed

lemma cr_reset_sound:
  assumes "cr_sound r"
  obtains r' where "cr_reset fs r = Inr r'" "cr_sound r'" "cr_left r' = is_content (cr_stream r)"
    "cr_csize r' = cr_csize r"
proof -
  have "is_opened (cr_stream r)" using assms by (simp add: cr_sound_def ifs_sound_def)
  with assms show ?thesis
    by (intro that [of "r\<lparr>cr_stream := ifs_rewind (ifs_clear (cr_stream r)), cr_eof_flag := False,
                          cr_total_bytes_read := 0\<rparr>"])
       (auto simp: cr_reset_def cr_sound_def cr_left_def cr_csize_def ifs_sound_def ifs_rest_def
         ifs_rewind_def ifs_clear_def ifs_fail_def ifs_good_def Let_def)
qed

lemma pull_content:
  "cr_sound r \<Longrightarrow> is_content (cr_stream (snd (pull next_chunk k r))) = is_content (cr_stream r)"
proof (induction k arbitrary: r)
  case (Suc k)
  then show ?case
    using next_chunk_sound [OF Suc.prems] by (auto simp: case_prod_beta)
qed simp

lemma pull_csize: "cr_sound r \<Longrightarrow> cr_csize (snd (pull next_chunk k r)) = cr_csize r"
proof (induction k arbitrary: r)
  case (Suc k)
  then show ?case
    using next_chunk_sound [OF Suc.prems] by (auto simp: case_prod_beta)
qed simp

section \<open>On any device\<close>

text \<open>
  What the reader does whatever the device does: it delivers pieces of what is left, in order, and
  once it has delivered nothing it reports the end, which is how a read error looks.
\<close>

lemma next_chunk_any:
  assumes "next_chunk r = (data, r')"
  shows "cr_left r = data @ cr_left r'" "cr_csize r' = cr_csize r"
    "is_opened (cr_stream r') = is_opened (cr_stream r)"
    "data = [] \<Longrightarrow> is_opened (cr_stream r) \<Longrightarrow> cr_eof r'"
proof -
  let ?n = "unat (cr_chunk_size r)" and ?s = "cr_stream r"
  show "cr_csize r' = cr_csize r" "is_opened (cr_stream r') = is_opened ?s"
    "data = [] \<Longrightarrow> is_opened ?s \<Longrightarrow> cr_eof r'"
    using assms by (auto simp: next_chunk_def cr_csize_def cr_eof_def case_prod_beta split: if_splits)
  have rd: "cr_left r = fst (ifs_read ?n ?s) @ ifs_rest (snd (ifs_read ?n ?s))"
  proof -
    obtain q where "cr_left r = fst (ifs_read ?n ?s) @ q"
      using ifs_read_prefix(2) [of ?s ?n] by (auto simp: cr_left_def ifs_rest_def)
    moreover have "ifs_rest (snd (ifs_read ?n ?s)) = drop (length (fst (ifs_read ?n ?s))) (cr_left r)"
      by (simp add: cr_left_def ifs_rest_def ifs_read_prefix add.commute)
    ultimately show ?thesis by simp
  qed
  show "cr_left r = data @ cr_left r'"
    using assms rd by (auto simp: next_chunk_def cr_left_def case_prod_beta split: if_splits)
qed

lemma next_chunk_dry:
  assumes "fst (next_chunk r) = []"
  shows "fst (next_chunk (snd (next_chunk r))) = []"
proof (cases "cr_eof_flag r \<or> \<not> is_opened (cr_stream r)")
  case False
  with assms have "cr_eof_flag (snd (next_chunk r))"
    by (auto simp: next_chunk_def case_prod_beta split: if_splits)
  then show ?thesis by (simp add: next_chunk_def)
qed (simp add: next_chunk_def)

interpretation crs: chunk_stream next_chunk cr_left "\<lambda>_. True"
  using next_chunk_any(1) [OF prod.collapse [symmetric]] next_chunk_dry by unfold_locales

lemmas next_chunk_consumes = crs.consumes(1) [OF TrueI]

text \<open>The chunks the reader will deliver.\<close>

abbreviation delivered :: "chunk_reader \<Rightarrow> bytes list" where
  "delivered r \<equiv> deliveries next_chunk cr_left r"

lemmas delivered_step = crs.deliveries_step [OF TrueI]
lemmas delivered_end = crs.deliveries_end [OF TrueI]
lemmas delivered_prefix = crs.deliveries_prefix [OF TrueI]
lemmas delivered_length = crs.deliveries_length [OF TrueI]
lemmas delivered_sound = cr.deliveries_chunks

lemma cr_new_any:
  assumes "cr_new fs f csz = Inr r"
  shows "fs_files fs f = Some (cr_left r)" "cr_csize r = unat csz" "is_opened (cr_stream r)"
  using assms
  by (auto simp: cr_new_def cr_left_def cr_csize_def ifs_open_def ifs_rest_def ifs_fail_def ifs_closed_def
      split: sum.splits if_splits option.splits)

lemma delivered_new:
  assumes "readable fs f bs" "fits bs" "0 < unat csz" "cr_new fs f csz = Inr r"
  shows "delivered r = chunks_of (unat csz) bs"
  using cr_new_sound [OF assms(1-3)] assms(4) delivered_sound [of r]
  by (metis cr_csize_def sum.inject(2))

section \<open>Properties\<close>

text \<open>
  C34: a \<open>ChunkReader\<close> of a readable file delivers the chunks of the file in order and then
  reports the end; after any number \<open>k\<close> of reads, \<open>remaining_bytes\<close> is what has not been read yet.
\<close>

theorem reader_delivers_file:
  assumes "readable fs f content" "fits content" "0 < unat csz"
  shows "\<exists>r. cr_new fs f csz = Inr r \<and>
           fst (pull next_chunk (length content + 1) r) = chunks_of (unat csz) content \<and>
           cr_eof (snd (pull next_chunk (length content + 1) r)) \<and>
           unat (remaining_bytes (snd (pull next_chunk k r))) = length content - k * unat csz"
proof -
  obtain r where r: "cr_new fs f csz = Inr r" "cr_sound r" "cr_left r = content" "cr_csize r = unat csz"
    using cr_new_sound [OF assms] by (metis cr_csize_def)
  have "unat (remaining_bytes (snd (pull next_chunk k r))) = length content - k * unat csz"
    using cr.pull_left [OF r(2), of k] remaining_left r(3,4) by simp
  with r cr.pull_chunks [OF r(2), of "length content + 1"] show ?thesis by simp
qed

lemma reader_delivers_file_witness:
  "\<exists>r. cr_new (plain_fs ''f'' [1, 2, 3]) ''f'' 2 = Inr r \<and>
       unat (remaining_bytes (snd (pull next_chunk 1 r))) = 1"
  using reader_delivers_file [of "plain_fs ''f'' [1, 2, 3]" "''f''" "[1, 2, 3]" 2 1]
  by (auto simp: fits_def)

text \<open>
  \<open>reset\<close> after any number of reads, also past the end, starts again: the whole file is
  remaining and is delivered once more.
\<close>

theorem reset_rereads_file:
  assumes "readable fs f content" "fits content" "0 < unat csz" "cr_new fs f csz = Inr r"
  shows "\<exists>r'. cr_reset fs' (snd (pull next_chunk k r)) = Inr r' \<and>
           unat (remaining_bytes r') = length content \<and>
           fst (pull next_chunk (length content + 1) r') = chunks_of (unat csz) content"
proof -
  have r: "cr_sound r" "cr_left r = content" "cr_csize r = unat csz" "is_content (cr_stream r) = content"
    using cr_new_sound [OF assms(1-3)] assms(4) by (metis cr_csize_def sum.inject(2))+
  let ?t = "snd (pull next_chunk k r)"
  have t: "cr_sound ?t" "is_content (cr_stream ?t) = content"
    using cr.pull_left [OF r(1), of k] pull_content [OF r(1), of k] r(4) by simp_all
  obtain r' where r': "cr_reset fs' ?t = Inr r'" "cr_sound r'" "cr_left r' = content" "cr_csize r' = cr_csize ?t"
    using cr_reset_sound [OF t(1), of fs'] t(2) by metis
  have "cr_csize ?t = unat csz" using pull_csize [OF r(1), of k] r(3) by simp
  with r' cr.pull_chunks [OF r'(2), of "length content + 1"] remaining_left [OF r'(2)]
  show ?thesis by simp
qed

lemma reset_rereads_file_witness:
  "\<exists>r r'. cr_new (plain_fs ''f'' [1, 2, 3]) ''f'' 2 = Inr r \<and>
      cr_reset (plain_fs ''f'' []) (snd (pull next_chunk 9 r)) = Inr r' \<and> unat (remaining_bytes r') = 3"
proof -
  have f: "fits [1, 2, 3 :: byte]" by (simp add: fits_def)
  obtain r where "cr_new (plain_fs ''f'' [1, 2, 3]) ''f'' 2 = Inr r"
    using cr_new_sound [of "plain_fs ''f'' [1, 2, 3]" "''f''" "[1, 2, 3]" 2] f by auto
  with reset_rereads_file [of "plain_fs ''f'' [1, 2, 3]" "''f''" "[1, 2, 3]" 2 r "plain_fs ''f'' []" 9] f
  show ?thesis by auto
qed

end
