(* ===== verification/Metrics.thy ===== *)
theory Metrics
  imports File_Streams Text_Format Rtt_Stats
begin

text \<open>
  \<open>benchmark_common::MetricsAggregator\<close> (src/common/src/metrics_aggregator.cpp), the
  collector of the gRPC and Cap'n Proto clients: byte totals, the round-trip times, the
  derived figures in \<open>double\<close> arithmetic, the console summary and the two CSV files.

  The sum of the round-trip times is a mathematical integer here; it agrees with the
  \<open>long long\<close> of the code as long as that does not overflow, which the bounds assumed of it
  below imply.
\<close>

section \<open>State and recording\<close>

record metrics_aggregator =
  protocol_name :: string
  total_payload_to_transfer_bytes :: u64
  actual_payload_transferred_bytes :: u64
  total_on_wire_bytes :: u64
  expected_chunk_size :: u64
  total_transaction_time_ms :: int
  chunk_rtt_us :: "int list"
  errors :: "string list"

definition ma_new :: "string \<Rightarrow> u64 \<Rightarrow> u64 \<Rightarrow> metrics_aggregator" where
  "ma_new name total_payload chunk_size =
     \<lparr>protocol_name = name, total_payload_to_transfer_bytes = total_payload,
      actual_payload_transferred_bytes = 0, total_on_wire_bytes = 0,
      expected_chunk_size = chunk_size, total_transaction_time_ms = 0,
      chunk_rtt_us = [], errors = []\<rparr>"

definition record_chunk_sent :: "u64 \<Rightarrow> u64 \<Rightarrow> metrics_aggregator \<Rightarrow> metrics_aggregator" where
  "record_chunk_sent payload_size on_wire_size m =
     m\<lparr>actual_payload_transferred_bytes := actual_payload_transferred_bytes m + payload_size,
       total_on_wire_bytes := total_on_wire_bytes m + on_wire_size\<rparr>"

definition record_chunk_rtt_us :: "int \<Rightarrow> metrics_aggregator \<Rightarrow> metrics_aggregator" where
  "record_chunk_rtt_us rtt m = m\<lparr>chunk_rtt_us := chunk_rtt_us m @ [rtt]\<rparr>"

definition set_total_transaction_time_ms :: "int \<Rightarrow> metrics_aggregator \<Rightarrow> metrics_aggregator" where
  "set_total_transaction_time_ms time_ms m = m\<lparr>total_transaction_time_ms := time_ms\<rparr>"

definition log_error :: "string \<Rightarrow> metrics_aggregator \<Rightarrow> metrics_aggregator" where
  "log_error msg m = m\<lparr>errors := errors m @ [msg]\<rparr>"

section \<open>Derived figures\<close>

definition mega :: rat where
  "mega = dmul 1024 1024"

definition get_total_payload_sent_mb :: "metrics_aggregator \<Rightarrow> rat" where
  "get_total_payload_sent_mb m = ddiv (d_of_u64 (actual_payload_transferred_bytes m)) mega"

definition get_total_data_on_wire_mb :: "metrics_aggregator \<Rightarrow> rat" where
  "get_total_data_on_wire_mb m = ddiv (d_of_u64 (total_on_wire_bytes m)) mega"

definition get_protocol_overhead_percentage :: "metrics_aggregator \<Rightarrow> rat" where
  "get_protocol_overhead_percentage m =
     (if actual_payload_transferred_bytes m = 0 then 0
      else let overhead = d_of_u64 (total_on_wire_bytes m - actual_payload_transferred_bytes m)
           in dmul (ddiv overhead (d_of_u64 (actual_payload_transferred_bytes m))) 100)"

definition time_seconds :: "metrics_aggregator \<Rightarrow> rat" where
  "time_seconds m = ddiv (d_of_int (total_transaction_time_ms m)) 1000"

definition get_throughput_payload_mbps :: "metrics_aggregator \<Rightarrow> rat" where
  "get_throughput_payload_mbps m =
     (if total_transaction_time_ms m = 0 then 0
      else ddiv (dmul (get_total_payload_sent_mb m) 8) (time_seconds m))"

definition get_throughput_on_wire_mbps :: "metrics_aggregator \<Rightarrow> rat" where
  "get_throughput_on_wire_mbps m =
     (if total_transaction_time_ms m = 0 then 0
      else ddiv (dmul (get_total_data_on_wire_mb m) 8) (time_seconds m))"

definition get_avg_chunk_rtt_ms :: "metrics_aggregator \<Rightarrow> rat" where
  "get_avg_chunk_rtt_ms m =
     (if chunk_rtt_us m = [] then 0
      else let sum_rtt_us = accumulate (chunk_rtt_us m)
           in ddiv (ddiv (d_of_int sum_rtt_us) (d_of_u64 (sz (chunk_rtt_us m)))) 1000)"

definition get_min_chunk_rtt_ms :: "metrics_aggregator \<Rightarrow> rat" where
  "get_min_chunk_rtt_ms m =
     (if chunk_rtt_us m = [] then 0 else ddiv (d_of_int (min_element (chunk_rtt_us m))) 1000)"

definition get_max_chunk_rtt_ms :: "metrics_aggregator \<Rightarrow> rat" where
  "get_max_chunk_rtt_ms m =
     (if chunk_rtt_us m = [] then 0 else ddiv (d_of_int (max_element (chunk_rtt_us m))) 1000)"

definition get_std_dev_chunk_rtt_ms :: "metrics_aggregator \<Rightarrow> rat" where
  "get_std_dev_chunk_rtt_ms m =
     (if sz (chunk_rtt_us m) < 2 then 0
      else let mean = dmul (get_avg_chunk_rtt_ms m) 1000;
               sq_sum = foldl (\<lambda>acc rtt. dadd acc (dmul (dsub (d_of_int rtt) mean) (dsub (d_of_int rtt) mean)))
                          0 (chunk_rtt_us m)
           in ddiv (dsqrt (ddiv sq_sum (d_of_u64 (sz (chunk_rtt_us m) - 1)))) 1000)"

definition get_num_chunks :: "metrics_aggregator \<Rightarrow> u64" where
  "get_num_chunks m = sz (chunk_rtt_us m)"

section \<open>Output\<close>

abbreviation nl :: string where
  "nl \<equiv> [CHR 0x0A]"

definition summary_line :: "string \<Rightarrow> rat \<Rightarrow> string \<Rightarrow> string" where
  "summary_line label v unit = label @ fixed_dec 6 v @ unit @ nl"

definition print_summary_to_console :: "metrics_aggregator \<Rightarrow> string" where
  "print_summary_to_console m =
     nl @ ''--- Benchmark Summary ('' @ protocol_name m @ '') ---'' @ nl
     @ summary_line ''TotalTransactionTime:        '' (time_seconds m) '' s''
     @ summary_line ''TotalPayloadSent:            '' (get_total_payload_sent_mb m) '' MB''
     @ summary_line ''TotalDataSentOnWire:         '' (get_total_data_on_wire_mb m) '' MB''
     @ summary_line ''ProtocolOverheadSend:        '' (get_protocol_overhead_percentage m) '' %''
     @ summary_line ''ThroughputPayload_Mbps:      '' (get_throughput_payload_mbps m) '' Mbps''
     @ summary_line ''ThroughputPayload_Gbps:      '' (ddiv (get_throughput_payload_mbps m) 1000) '' Gbps''
     @ summary_line ''ThroughputOnWire_Mbps:       '' (get_throughput_on_wire_mbps m) '' Mbps''
     @ summary_line ''ThroughputOnWire_Gbps:       '' (ddiv (get_throughput_on_wire_mbps m) 1000) '' Gbps''
     @ (if chunk_rtt_us m = [] then ''''
        else summary_line ''AvgChunkRTT:                 '' (get_avg_chunk_rtt_ms m) '' ms''
             @ summary_line ''MinChunkRTT:                 '' (get_min_chunk_rtt_ms m) '' ms''
             @ summary_line ''MaxChunkRTT:                 '' (get_max_chunk_rtt_ms m) '' ms''
             @ summary_line ''StdDevChunkRTT:              '' (get_std_dev_chunk_rtt_ms m) '' ms'')
     @ ''NumChunks:                   '' @ u64_to_dec (get_num_chunks m) @ nl
     @ (if errors m = [] then ''''
        else ''Errors ('' @ u64_to_dec (sz (errors m)) @ ''):'' @ nl
             @ concat (map (\<lambda>err. ''  - '' @ err @ nl) (errors m)))
     @ ''-----------------------------------'' @ nl @ nl"

definition summary_rows :: "metrics_aggregator \<Rightarrow> string list list" where
  "summary_rows m =
     [[''Metric'', ''Value'', ''Unit''],
      [''Protocol'', protocol_name m, ''''],
      [''TotalTransactionTime'', fixed_dec 6 (time_seconds m), ''s''],
      [''TotalPayloadSent'', fixed_dec 6 (get_total_payload_sent_mb m), ''MB''],
      [''TotalDataSentOnWire'', fixed_dec 6 (get_total_data_on_wire_mb m), ''MB''],
      [''ProtocolOverheadSend'', fixed_dec 6 (get_protocol_overhead_percentage m), ''%''],
      [''ThroughputPayload_Mbps'', fixed_dec 6 (get_throughput_payload_mbps m), ''Mbps''],
      [''ThroughputPayload_Gbps'', fixed_dec 6 (ddiv (get_throughput_payload_mbps m) 1000), ''Gbps''],
      [''ThroughputOnWire_Mbps'', fixed_dec 6 (get_throughput_on_wire_mbps m), ''Mbps''],
      [''ThroughputOnWire_Gbps'', fixed_dec 6 (ddiv (get_throughput_on_wire_mbps m) 1000), ''Gbps'']]
     @ (if chunk_rtt_us m = [] then []
        else [[''AvgChunkRTT'', fixed_dec 6 (get_avg_chunk_rtt_ms m), ''ms''],
              [''MinChunkRTT'', fixed_dec 6 (get_min_chunk_rtt_ms m), ''ms''],
              [''MaxChunkRTT'', fixed_dec 6 (get_max_chunk_rtt_ms m), ''ms''],
              [''StdDevChunkRTT'', fixed_dec 6 (get_std_dev_chunk_rtt_ms m), ''ms'']])
     @ [[''NumChunks'', u64_to_dec (get_num_chunks m), ''''],
        [''ErrorsEncountered'', u64_to_dec (sz (errors m)), '''']]"

definition save_summary_csv :: "metrics_aggregator \<Rightarrow> string \<Rightarrow> fsys \<Rightarrow> bool \<times> fsys" where
  "save_summary_csv m filename fs =
     (case ofs_open fs filename of
        None \<Rightarrow> (False, fs)
      | Some fs \<Rightarrow> (True, ofs_put_text filename (concat (map csv_line (summary_rows m))) fs))"

definition detailed_rows :: "metrics_aggregator \<Rightarrow> string list list" where
  "detailed_rows m =
     [''ChunkNumber'', ''RTT_us'']
     # map (\<lambda>i. [u64_to_dec (of_nat i + 1), int_to_dec (chunk_rtt_us m ! i)]) [0..<length (chunk_rtt_us m)]"

definition save_detailed_rtt_csv :: "metrics_aggregator \<Rightarrow> string \<Rightarrow> fsys \<Rightarrow> bool \<times> fsys" where
  "save_detailed_rtt_csv m filename fs =
     (if chunk_rtt_us m = [] then (True, fs)
      else case ofs_open fs filename of
             None \<Rightarrow> (False, fs)
           | Some fs \<Rightarrow> (True, ofs_put_text filename (concat (map csv_line (detailed_rows m))) fs))"

section \<open>The figures are ordered and well defined\<close>

lemma avg_mean: "chunk_rtt_us m \<noteq> [] \<Longrightarrow> get_avg_chunk_rtt_ms m = rtt_mean_ms (chunk_rtt_us m)"
  by (simp add: get_avg_chunk_rtt_ms_def rtt_mean_ms_def)

lemma d_of_u64_nonneg [simp]: "0 \<le> d_of_u64 w"
  unfolding d_of_u64_def by (rule ieee.rnd_nonneg) (rule of_nat_0_le_iff)

lemma ddiv_nonneg [simp]: "0 \<le> a \<Longrightarrow> 0 \<le> b \<Longrightarrow> 0 \<le> ddiv a b"
  by (simp add: ddiv_def ieee.rnd_nonneg)

lemma dmul_nonneg [simp]: "0 \<le> a \<Longrightarrow> 0 \<le> b \<Longrightarrow> 0 \<le> dmul a b"
  by (simp add: dmul_def ieee.rnd_nonneg)

lemma overhead_nonneg: "0 \<le> get_protocol_overhead_percentage m"
  by (simp add: get_protocol_overhead_percentage_def Let_def)

section \<open>Reading the files back\<close>

lemma fixed_dec_plain [simp]: "plain_field (fixed_dec p q)"
  by (auto simp: plain_field_def fixed_dec_def pad_left_def nat_to_dec_no_sep Let_def)

lemma plain_field_chars:
  "plain_field []" "plain_field (c # s) \<longleftrightarrow> c \<noteq> CHR '','' \<and> c \<noteq> CHR 0x0A \<and> plain_field s"
  by (auto simp: plain_field_def)

lemma summary_rows_plain:
  assumes "plain_field (protocol_name m)" "fs \<in> set (summary_rows m)"
  shows "fs \<noteq> [] \<and> list_all plain_field fs"
  using assms by (auto simp: summary_rows_def plain_field_chars split: if_splits)

lemma summary_readback:
  "plain_field (protocol_name m) \<Longrightarrow>
   csv_rows (concat (map csv_line (summary_rows m))) = summary_rows m"
  using summary_rows_plain by (intro csv_rows_lines)

lemma detailed_readback: "csv_rows (concat (map csv_line (detailed_rows m))) = detailed_rows m"
  by (rule csv_rows_lines) (auto simp: detailed_rows_def plain_field_chars)

text \<open>One data row of the detailed file, read as numbers.\<close>

definition read_detailed_row :: "string list \<Rightarrow> nat \<times> int" where
  "read_detailed_row fs = (dec_to_nat (fs ! 0), dec_to_int (fs ! 1))"

lemma detailed_rows_numbers:
  assumes "fits (chunk_rtt_us m)"
  shows "map read_detailed_row (tl (detailed_rows m)) =
           zip [1..<Suc (length (chunk_rtt_us m))] (chunk_rtt_us m)"
proof -
  have "dec_to_nat (u64_to_dec (of_nat i + 1)) = Suc i" if "i < length (chunk_rtt_us m)" for i
  proof -
    have "unat (of_nat (Suc i) :: u64) = Suc i"
      using that assms by (intro unat_of_nat_u64) (simp add: fits_def)
    then show ?thesis by (simp add: u64_to_dec_def add.commute)
  qed
  note number = this
  show ?thesis
  proof (rule nth_equalityI)
    show "length (map read_detailed_row (tl (detailed_rows m))) =
        length (zip [1..<Suc (length (chunk_rtt_us m))] (chunk_rtt_us m))"
      by (simp add: detailed_rows_def del: upt_Suc)
    fix i assume "i < length (map read_detailed_row (tl (detailed_rows m)))"
    then have "i < length (chunk_rtt_us m)" by (simp add: detailed_rows_def)
    then show "map read_detailed_row (tl (detailed_rows m)) ! i =
        zip [1..<Suc (length (chunk_rtt_us m))] (chunk_rtt_us m) ! i"
      using number [of i] by (simp add: detailed_rows_def read_detailed_row_def del: upt_Suc)
  qed
qed

section \<open>Both files\<close>

text \<open>The clients save the summary first and then the details, and ignore both results.\<close>

definition save_both :: "metrics_aggregator \<Rightarrow> string \<Rightarrow> string \<Rightarrow> fsys \<Rightarrow> fsys" where
  "save_both m summary detailed fs =
     snd (save_detailed_rtt_csv m detailed (snd (save_summary_csv m summary fs)))"

text \<open>The files of a run that ends normally.\<close>

lemma save_both_files:
  assumes "fs_can_write fs a" "fs_can_write fs b" "\<not> fs_write_fault fs a 0" "\<not> fs_write_fault fs b 0"
    and "a \<noteq> b" "chunk_rtt_us m \<noteq> []"
  shows "fs_files (save_both m a b fs) a = Some (text_bytes (concat (map csv_line (summary_rows m))))"
    and "fs_files (save_both m a b fs) b = Some (text_bytes (concat (map csv_line (detailed_rows m))))"
proof -
  obtain fs1 where 1: "ofs_open fs a = Some fs1"
    "ofs_put_text a (concat (map csv_line (summary_rows m))) fs1 =
     fs_put a (text_bytes (concat (map csv_line (summary_rows m)))) fs" (is "_ = ?fs")
    using ofs_text_file [OF assms(1,3)] by blast
  have "fs_can_write ?fs b" "\<not> fs_write_fault ?fs b 0" using assms(2,4) by simp_all
  from ofs_text_file [OF this] obtain fs2 where 2: "ofs_open ?fs b = Some fs2"
    "ofs_put_text b (concat (map csv_line (detailed_rows m))) fs2 =
     fs_put b (text_bytes (concat (map csv_line (detailed_rows m)))) ?fs" by blast
  from 1 2 assms(5,6) show
    "fs_files (save_both m a b fs) a = Some (text_bytes (concat (map csv_line (summary_rows m))))"
    "fs_files (save_both m a b fs) b = Some (text_bytes (concat (map csv_line (detailed_rows m))))"
    by (simp_all add: save_both_def save_summary_csv_def save_detailed_rtt_csv_def)
qed



section \<open>Properties\<close>



text \<open>
  The overhead figure is never negative, is zero whenever the bytes on the wire equal the payload
  (so it stays zero for a client that records the payload size as the wire size), and the division
  behind it and behind the throughput is guarded: without payload, and without time, they are zero.
\<close>

theorem derived_figures_guarded:
  "0 \<le> get_protocol_overhead_percentage m \<and>
   get_protocol_overhead_percentage (foldl (\<lambda>m n. record_chunk_sent n n m) (ma_new name p c) ns) = 0 \<and>
   get_protocol_overhead_percentage (m\<lparr>actual_payload_transferred_bytes := 0\<rparr>) = 0 \<and>
   get_throughput_payload_mbps (set_total_transaction_time_ms 0 m) = 0 \<and>
   get_throughput_on_wire_mbps (set_total_transaction_time_ms 0 m) = 0"
proof -
  have "actual_payload_transferred_bytes (foldl (\<lambda>m n. record_chunk_sent n n m) m ns) =
        total_on_wire_bytes (foldl (\<lambda>m n. record_chunk_sent n n m) m ns)"
    if "actual_payload_transferred_bytes m = total_on_wire_bytes m" for m
    using that by (induction ns arbitrary: m) (simp_all add: record_chunk_sent_def)
  then have "actual_payload_transferred_bytes (foldl (\<lambda>m n. record_chunk_sent n n m) (ma_new name p c) ns) =
        total_on_wire_bytes (foldl (\<lambda>m n. record_chunk_sent n n m) (ma_new name p c) ns)"
    by (simp add: ma_new_def)
  then show ?thesis
    using overhead_nonneg [of m]
    by (simp add: get_protocol_overhead_percentage_def get_throughput_payload_mbps_def
        get_throughput_on_wire_mbps_def set_total_transaction_time_ms_def d_of_u64_def ddiv_def dmul_def)
qed

text \<open>
  The detailed RTT file can be read back: its data rows, read as numbers, are the chunks
  numbered from one with their round-trip times, in the order they were recorded.
\<close>

theorem detailed_csv_roundtrip:
  assumes "fs_can_write fs f" "\<not> fs_write_fault fs f 0" "chunk_rtt_us m \<noteq> []" "fits (chunk_rtt_us m)"
  shows "\<exists>fs' bs. save_detailed_rtt_csv m f fs = (True, fs') \<and> fs_files fs' f = Some bs \<and>
           map read_detailed_row (tl (csv_rows (bytes_text bs))) =
             zip [1..<Suc (length (chunk_rtt_us m))] (chunk_rtt_us m)"
proof -
  obtain fs1 where "ofs_open fs f = Some fs1"
    "ofs_put_text f (concat (map csv_line (detailed_rows m))) fs1 =
     fs_put f (text_bytes (concat (map csv_line (detailed_rows m)))) fs"
    using ofs_text_file [OF assms(1,2)] by blast
  with assms(3) have "save_detailed_rtt_csv m f fs =
      (True, fs_put f (text_bytes (concat (map csv_line (detailed_rows m)))) fs)"
    by (simp add: save_detailed_rtt_csv_def)
  then show ?thesis
    using detailed_rows_numbers [OF assms(4)] by (simp add: detailed_readback)
qed

lemma detailed_csv_roundtrip_witness:
  "\<exists>fs' bs. save_detailed_rtt_csv (record_chunk_rtt_us 70 (ma_new ''t'' 0 0)) ''d'' (plain_fs ''x'' []) = (True, fs') \<and>
     fs_files fs' ''d'' = Some bs \<and> map read_detailed_row (tl (csv_rows (bytes_text bs))) = [(1, 70)]"
  using detailed_csv_roundtrip [of "plain_fs ''x'' []" "''d''" "record_chunk_rtt_us 70 (ma_new ''t'' 0 0)"]
  by (simp add: ma_new_def record_chunk_rtt_us_def fits_def)

text \<open>
  The summary file read back has three fields in every row, the rows about round-trip
  times exactly when there are any, and the numbers of chunks and of errors in its last two rows.
\<close>

theorem summary_csv_readback:
  assumes "fs_can_write fs f" "\<not> fs_write_fault fs f 0" "plain_field (protocol_name m)"
  shows "\<exists>fs' bs rows. save_summary_csv m f fs = (True, fs') \<and> fs_files fs' f = Some bs \<and>
           rows = csv_rows (bytes_text bs) \<and> list_all (\<lambda>r. length r = 3) rows \<and>
           length rows = (if chunk_rtt_us m = [] then 12 else 16) \<and>
           last (butlast rows) = [''NumChunks'', u64_to_dec (get_num_chunks m), ''''] \<and>
           last rows = [''ErrorsEncountered'', u64_to_dec (sz (errors m)), '''']"
proof -
  obtain fs1 where "ofs_open fs f = Some fs1"
    "ofs_put_text f (concat (map csv_line (summary_rows m))) fs1 =
     fs_put f (text_bytes (concat (map csv_line (summary_rows m)))) fs"
    using ofs_text_file [OF assms(1,2)] by blast
  then have "save_summary_csv m f fs =
      (True, fs_put f (text_bytes (concat (map csv_line (summary_rows m)))) fs)"
    by (simp add: save_summary_csv_def)
  moreover have "list_all (\<lambda>r. length r = 3) (summary_rows m)"
    "length (summary_rows m) = (if chunk_rtt_us m = [] then 12 else 16)"
    "last (butlast (summary_rows m)) = [''NumChunks'', u64_to_dec (get_num_chunks m), '''']"
    "last (summary_rows m) = [''ErrorsEncountered'', u64_to_dec (sz (errors m)), '''']"
    by (simp_all add: summary_rows_def butlast_append)
  ultimately show ?thesis by (simp add: summary_readback [OF assms(3)])
qed

lemma summary_csv_readback_witness:
  "\<exists>fs' bs. save_summary_csv (ma_new ''gRPC'' 0 0) ''s'' (plain_fs ''x'' []) = (True, fs') \<and>
     fs_files fs' ''s'' = Some bs \<and> length (csv_rows (bytes_text bs)) = 12"
  using summary_csv_readback [of "plain_fs ''x'' []" "''s''" "ma_new ''gRPC'' 0 0"]
  by (auto simp: ma_new_def plain_field_def)

end
