(* ===== verification/Capnp_Client.thy ===== *)
theory Capnp_Client
  imports Capnp_Server Chunk_Reader File_Gen Metrics
begin

text \<open>
  The Cap'n Proto client (src/capnp_app/capnp_client.cpp): the file is generated unless one
  of the right size exists, cut into chunks by \<open>ChunkReader\<close>, sent chunk by chunk and every
  answer compared with the reversed chunk. The three remote calls, the connection and the
  clock are the environment; a call either answers or throws.
\<close>

section \<open>The environment and the state of the transfer\<close>

record 'v capnp_env =
  ke_connect :: "thrown option"
  ke_start :: "'v \<Rightarrow> (thrown + nat) \<times> 'v"
  ke_process :: "'v \<Rightarrow> nat \<Rightarrow> bytes \<Rightarrow> (thrown + bytes) \<times> 'v"
  ke_done :: "'v \<Rightarrow> nat \<Rightarrow> thrown option \<times> 'v"
  ke_clock :: "nat \<Rightarrow> int"

record 'v capnp_run =
  k_reader :: chunk_reader
  k_metrics :: metrics_aggregator
  k_chunks_sent :: u64
  k_verified :: u64
  k_service :: 'v
  k_ticks :: nat

section \<open>One round of the loop\<close>

definition size_mismatch :: "u64 \<Rightarrow> bytes \<Rightarrow> bytes \<Rightarrow> string" where
  "size_mismatch n expected got =
     ''Verification FAILED for chunk '' @ u64_to_dec (n + 1) @ '': Size mismatch. Expected ''
     @ u64_to_dec (sz expected) @ '', Got '' @ u64_to_dec (sz got)"

definition content_mismatch :: "u64 \<Rightarrow> string" where
  "content_mismatch n =
     ''Verification FAILED for chunk '' @ u64_to_dec (n + 1) @ '': Content mismatch.''"

text \<open>\<open>Inl\<close> is leaving the loop, by \<open>break\<close> or by an exception; \<open>Inr\<close> is going on.\<close>

definition capnp_round ::
  "'v capnp_env \<Rightarrow> nat \<Rightarrow> 'v capnp_run \<Rightarrow> (thrown option \<times> 'v capnp_run) + 'v capnp_run" where
  "capnp_round env h s =
     (case next_chunk (k_reader s) of (chunk_buffer, r) \<Rightarrow>
        let s = s\<lparr>k_reader := r\<rparr>
        in if chunk_buffer = [] \<and> cr_eof r then Inl (None, s)
           else if chunk_buffer = [] \<and> \<not> cr_eof r
           then Inl (None, s\<lparr>k_metrics := log_error ''Read empty chunk but not EOF.'' (k_metrics s)\<rparr>)
           else
             let n = sz chunk_buffer;
                 s = s\<lparr>k_metrics := record_chunk_sent n n (k_metrics s)\<rparr>;
                 expected = reverse_bytes chunk_buffer;
                 t = k_ticks s
             in case ke_process env (k_service s) h chunk_buffer of
                  (Inl e, v) \<Rightarrow> Inl (Some e, s\<lparr>k_service := v, k_ticks := t + 1\<rparr>)
                | (Inr response, v) \<Rightarrow>
                    let rtt = tdiv (ke_clock env (t + 1) - ke_clock env t) 1000;
                        s = s\<lparr>k_service := v, k_ticks := t + 2,
                              k_metrics := record_chunk_rtt_us rtt (k_metrics s)\<rparr>
                    in if sz response \<noteq> sz expected
                       then Inl (None, s\<lparr>k_metrics :=
                              log_error (size_mismatch (k_chunks_sent s) expected response) (k_metrics s)\<rparr>)
                       else if response \<noteq> expected
                       then Inl (None, s\<lparr>k_metrics :=
                              log_error (content_mismatch (k_chunks_sent s)) (k_metrics s)\<rparr>)
                       else Inr (s\<lparr>k_verified := k_verified s + n,
                                   k_chunks_sent := k_chunks_sent s + 1\<rparr>))"

text \<open>
  The loop ends on every input, whatever the service and the device do, because a round
  that goes on has consumed bytes of the file.
\<close>

lemma capnp_round_consumes:
  assumes "capnp_round env h s = Inr t"
  shows "length (cr_left (k_reader t)) < length (cr_left (k_reader s))"
  using assms next_chunk_consumes [of "k_reader s"]
  by (auto simp: capnp_round_def Let_def split: prod.splits if_splits sum.splits)

function capnp_loop ::
  "'v capnp_env \<Rightarrow> nat \<Rightarrow> 'v capnp_run \<Rightarrow> thrown option \<times> 'v capnp_run" where
  "capnp_loop env h s =
     (case capnp_round env h s of Inl out \<Rightarrow> out | Inr t \<Rightarrow> capnp_loop env h t)"
  by pat_completeness auto
termination
  by (relation "measure (\<lambda>(env, h, s). length (cr_left (k_reader s)))")
     (auto dest: capnp_round_consumes)

declare capnp_loop.simps [simp del]


section \<open>The program\<close>

definition thrown_of :: "exn \<Rightarrow> thrown" where
  "thrown_of e = (case e of Runtime_error w \<Rightarrow> Std_exception w | Division_trap \<Rightarrow> Unknown_exception)"

definition not_verified :: "u64 \<Rightarrow> u64 \<Rightarrow> string" where
  "not_verified done target =
     ''Not all data was verified! Verified (payload): '' @ u64_to_dec done
     @ '' Expected: '' @ u64_to_dec target"

text \<open>What follows the loop: the total time, \<open>doneStreaming\<close>, and the check of the verified bytes.\<close>

definition capnp_close ::
  "'v capnp_env \<Rightarrow> u64 \<Rightarrow> nat \<Rightarrow> thrown option \<times> 'v capnp_run \<Rightarrow> thrown option \<times> 'v capnp_run" where
  "capnp_close env target h out =
     (case out of
        (Some e, s) \<Rightarrow> (Some e, s)
      | (None, s) \<Rightarrow>
          let total = tdiv (ke_clock env (k_ticks s) - ke_clock env 0) 1000000;
              s = s\<lparr>k_metrics := set_total_transaction_time_ms total (k_metrics s)\<rparr>
          in case ke_done env (k_service s) h of
               (Some e, v) \<Rightarrow> (Some e, s\<lparr>k_service := v\<rparr>)
             | (None, v) \<Rightarrow>
                 let s = s\<lparr>k_service := v\<rparr>
                 in (None, if k_verified s \<noteq> target
                           then s\<lparr>k_metrics := log_error (not_verified (k_verified s) target) (k_metrics s)\<rparr>
                           else s))"

definition capnp_try ::
  "'v capnp_env \<Rightarrow> fsys \<Rightarrow> string \<Rightarrow> u64 \<Rightarrow> u64 \<Rightarrow> metrics_aggregator \<Rightarrow> 'v \<Rightarrow>
   thrown option \<times> metrics_aggregator \<times> 'v" where
  "capnp_try env fs filename chunk_size target m v =
     (case ke_connect env of
        Some e \<Rightarrow> (Some e, m, v)
      | None \<Rightarrow>
          (case ke_start env v of
             (Inl e, v) \<Rightarrow> (Some e, m, v)
           | (Inr h, v) \<Rightarrow>
               (case cr_new fs filename chunk_size of
                  Inl x \<Rightarrow> (Some (thrown_of x), m, v)
                | Inr r \<Rightarrow>
                    (case capnp_close env target h
                            (capnp_loop env h \<lparr>k_reader = r, k_metrics = m, k_chunks_sent = 0,
                                               k_verified = 0, k_service = v, k_ticks = 1\<rparr>) of
                       (e, s) \<Rightarrow> (e, k_metrics s, k_service s)))))"

definition capnp_catch ::
  "thrown \<Rightarrow> metrics_aggregator \<Rightarrow> fsys \<Rightarrow> int \<times> metrics_aggregator \<times> string \<times> fsys" where
  "capnp_catch e m fs =
     (case e of
        Kj_exception d \<Rightarrow>
          let m = log_error (''KJ Exception: '' @ d) m
          in (1, m, print_summary_to_console m,
              save_both m ''capnp_summary_results_kj_error.csv'' ''capnp_detailed_rtt_kj_error.csv'' fs)
      | Std_exception w \<Rightarrow>
          let m = log_error (''STD Exception: '' @ w) m
          in (1, m, print_summary_to_console m,
              save_both m ''capnp_summary_results_std_error.csv'' ''capnp_detailed_rtt_std_error.csv'' fs)
      | Unknown_exception \<Rightarrow>
          let m = log_error ''Unknown exception.'' m
          in (1, m, print_summary_to_console m,
              save_both m ''capnp_summary_results_unknown_error.csv''
                ''capnp_detailed_rtt_unknown_error.csv'' fs))"

definition capnp_ensure_file :: "(nat \<Rightarrow> byte) \<Rightarrow> fsys \<Rightarrow> string \<Rightarrow> u64 \<Rightarrow> bool \<times> fsys" where
  "capnp_ensure_file rng fs filename target =
     (let test_file_check = ifs_open fs filename;
          regenerate_new_file =
            (if is_opened test_file_check
             then (if ifs_size test_file_check = target then False else True)
             else True)
      in if regenerate_new_file then generate_test_file rng fs filename target else (True, fs))"

text \<open>
  The result is the exit code, the metrics, what the summary prints, and the file system.
\<close>

definition capnp_client_main ::
  "'v capnp_env \<Rightarrow> (nat \<Rightarrow> byte) \<Rightarrow> fsys \<Rightarrow> 'v \<Rightarrow> int \<times> metrics_aggregator \<times> string \<times> fsys" where
  "capnp_client_main env rng fs v =
     (let m = ma_new ''CapnProto'' ACTUAL_FILE_SIZE_BYTES CHUNK_SIZE_BYTES
      in case capnp_ensure_file rng fs test_filename ACTUAL_FILE_SIZE_BYTES of
           (False, fs) \<Rightarrow> (1, log_error ''Failed to generate test file'' m, '''', fs)
         | (True, fs) \<Rightarrow>
             (case capnp_try env fs test_filename CHUNK_SIZE_BYTES ACTUAL_FILE_SIZE_BYTES m v of
                (Some e, m, v) \<Rightarrow> capnp_catch e m fs
              | (None, m, v) \<Rightarrow>
                  (0, m, print_summary_to_console m,
                   save_both m ''capnp_summary_results.csv'' ''capnp_detailed_rtt_results.csv'' fs)))"

section \<open>The rounds\<close>

lemma capnp_round_end:
  assumes "is_opened (cr_stream (k_reader s))" "delivered (k_reader s) = []"
  shows "capnp_round env h s = Inl (None, s\<lparr>k_reader := snd (next_chunk (k_reader s))\<rparr>)"
proof -
  obtain data r where d: "next_chunk (k_reader s) = (data, r)" by fastforce
  then have "data = []" using delivered_step [OF d] assms(2) by (simp split: if_splits)
  with next_chunk_any(4) [OF d] assms(1) show ?thesis by (simp add: capnp_round_def d)
qed

definition round_done :: "'v capnp_env \<Rightarrow> bytes \<Rightarrow> 'v \<Rightarrow> 'v capnp_run \<Rightarrow> 'v capnp_run" where
  "round_done env data v s =
     s\<lparr>k_reader := snd (next_chunk (k_reader s)), k_service := v, k_ticks := k_ticks s + 2,
       k_metrics := record_chunk_rtt_us
         (tdiv (ke_clock env (k_ticks s + 1) - ke_clock env (k_ticks s)) 1000)
         (record_chunk_sent (sz data) (sz data) (k_metrics s)),
       k_verified := k_verified s + sz data, k_chunks_sent := k_chunks_sent s + 1\<rparr>"

lemma capnp_round_good:
  assumes "next_chunk (k_reader s) = (data, r)" "data \<noteq> []"
    and "ke_process env (k_service s) h data = (Inr (rev data), v)"
  shows "capnp_round env h s = Inr (round_done env data v s)"
  using assms by (simp add: capnp_round_def round_done_def Let_def)

lemma capnp_round_goes_on:
  assumes "capnp_round env h s = Inr t" "next_chunk (k_reader s) = (data, r)"
  obtains v where "data \<noteq> []" "ke_process env (k_service s) h data = (Inr (rev data), v)"
    "t = round_done env data v s"
  using assms
  by (auto simp: capnp_round_def round_done_def Let_def split: if_splits prod.splits sum.splits)

section \<open>What a whole transfer does\<close>

text \<open>
  The books of a transfer of the chunks \<open>ds\<close>: every byte counted as sent and as verified, one
  round-trip time for each chunk, and no error.
\<close>

definition accounts :: "bytes list \<Rightarrow> 'v capnp_run \<Rightarrow> 'v capnp_run \<Rightarrow> bool" where
  "accounts ds s t \<longleftrightarrow>
     actual_payload_transferred_bytes (k_metrics t) =
       actual_payload_transferred_bytes (k_metrics s) + sz (concat ds) \<and>
     total_on_wire_bytes (k_metrics t) = total_on_wire_bytes (k_metrics s) + sz (concat ds) \<and>
     k_verified t = k_verified s + sz (concat ds) \<and> k_chunks_sent t = k_chunks_sent s + sz ds \<and>
     length (chunk_rtt_us (k_metrics t)) = length (chunk_rtt_us (k_metrics s)) + length ds \<and>
     errors (k_metrics t) = errors (k_metrics s) \<and> protocol_name (k_metrics t) = protocol_name (k_metrics s)"

lemma accounts_end: "accounts [] s (s\<lparr>k_reader := r\<rparr>)"
  by (simp add: accounts_def)

lemma accounts_step: "accounts ds (round_done env d v s) t \<Longrightarrow> accounts (d # ds) s t"
  by (simp add: accounts_def round_done_def record_chunk_sent_def record_chunk_rtt_us_def
      sz_append add.assoc) (simp add: sz_def)

lemma round_done_errors [simp]: "errors (k_metrics (round_done env data v s)) = errors (k_metrics s)"
  by (simp add: round_done_def record_chunk_sent_def record_chunk_rtt_us_def)

lemma round_done_simps [simp]:
  "k_reader (round_done env data v s) = snd (next_chunk (k_reader s))"
  "k_service (round_done env data v s) = v"
  by (simp_all add: round_done_def)

context reversing_service
begin

lemma loop_ok:
  assumes "ke_process env = process" "is_opened (cr_stream (k_reader s))" "served (k_service s) h"
  shows "\<exists>t. capnp_loop env h s = (None, t) \<and> served (k_service t) h \<and> accounts (delivered (k_reader s)) s t"
  using assms
proof (induction env h s rule: capnp_loop.induct)
  case (1 env h s)
  obtain data r where d: "next_chunk (k_reader s) = (data, r)" by fastforce
  note step = delivered_step [OF d]
  show ?case
  proof (cases "data = []")
    case True
    with capnp_round_end [OF "1.prems"(2), of env h] step "1.prems" accounts_end [of s]
    show ?thesis by (simp add: capnp_loop.simps [of env h s])
  next
    case False
    obtain v where v: "process (k_service s) h data = (Inr (rev data), v)" "served v h"
      using process_ok [OF "1.prems"(3)] by blast
    let ?t = "round_done env data v s"
    have round: "capnp_round env h s = Inr ?t"
      using capnp_round_good [OF d False] v(1) "1.prems"(1) by simp
    have "is_opened (cr_stream (k_reader ?t))" using next_chunk_any(3) [OF d] d "1.prems"(2) by simp
    with "1.IH" [OF round] "1.prems" v(2) obtain u where u: "capnp_loop env h ?t = (None, u)"
      "served (k_service u) h" "accounts (delivered r) ?t u" using d by auto
    have "capnp_loop env h s = (None, u)"
      using round u(1) by (simp add: capnp_loop.simps [of env h s])
    with u(2) accounts_step [OF u(3)] step False show ?thesis by auto
  qed
qed

end

text \<open>
  Whatever the service answers: when the loop ends without an exception and without a new
  error, the service has answered every chunk of the file, in order, with its reverse.
\<close>

fun answers ::
  "('v \<Rightarrow> nat \<Rightarrow> bytes \<Rightarrow> (thrown + bytes) \<times> 'v) \<Rightarrow> nat \<Rightarrow> 'v \<Rightarrow> bytes list \<Rightarrow> bytes list option" where
  "answers p h v [] = Some []"
| "answers p h v (d # ds) =
     (case p v h d of
        (Inl e, w) \<Rightarrow> None
      | (Inr a, w) \<Rightarrow> map_option (Cons a) (answers p h w ds))"

lemma capnp_round_stops:
  assumes "capnp_round env h s = Inl (None, t)" "is_opened (cr_stream (k_reader s))"
    and "errors (k_metrics t) = errors (k_metrics s)"
  shows "delivered (k_reader s) = []"
proof (rule ccontr)
  obtain data r where d: "next_chunk (k_reader s) = (data, r)" by fastforce
  assume "delivered (k_reader s) \<noteq> []"
  then have "data \<noteq> []" using delivered_step [OF d] by auto
  with d assms(1,3) show False
    by (auto simp: capnp_round_def Let_def log_error_def record_chunk_sent_def
        record_chunk_rtt_us_def split: prod.splits sum.splits if_splits)
qed

lemma capnp_round_errors:
  assumes "capnp_round env h s = Inl (ex, t)"
  shows "\<exists>es. errors (k_metrics t) = errors (k_metrics s) @ es"
  using assms
  by (auto simp: capnp_round_def Let_def log_error_def record_chunk_sent_def
      record_chunk_rtt_us_def split: prod.splits sum.splits if_splits)

lemma capnp_round_errors_on:
  assumes "capnp_round env h s = Inr t"
  shows "errors (k_metrics t) = errors (k_metrics s)"
proof -
  obtain data r where "next_chunk (k_reader s) = (data, r)" by fastforce
  from capnp_round_goes_on [OF assms this] obtain v where "t = round_done env data v s" .
  then show ?thesis by simp
qed

lemma capnp_loop_errors:
  "capnp_loop env h s = (ex, t) \<Longrightarrow> \<exists>es. errors (k_metrics t) = errors (k_metrics s) @ es"
proof (induction env h s rule: capnp_loop.induct)
  case (1 env h s)
  show ?case
  proof (cases "capnp_round env h s")
    case (Inl out)
    with 1 capnp_round_errors [of env h s ex t] show ?thesis
      by (simp add: capnp_loop.simps [of env h s])
  next
    case (Inr u)
    with 1 capnp_round_errors_on [OF Inr] show ?thesis
      by (simp add: capnp_loop.simps [of env h s])
  qed
qed

lemma capnp_loop_sound:
  assumes "capnp_loop env h s = (None, t)" "is_opened (cr_stream (k_reader s))"
    and "errors (k_metrics t) = errors (k_metrics s)"
  shows "accounts (delivered (k_reader s)) s t \<and>
         answers (ke_process env) h (k_service s) (delivered (k_reader s)) =
           Some (map rev (delivered (k_reader s)))"
  using assms
proof (induction env h s rule: capnp_loop.induct)
  case (1 env h s)
  show ?case
  proof (cases "capnp_round env h s")
    case (Inl out)
    then have "capnp_round env h s = Inl (None, t)"
      using "1.prems"(1) by (simp add: capnp_loop.simps [of env h s])
    from capnp_round_stops [OF this "1.prems"(2,3)] capnp_round_end [OF "1.prems"(2), of env h] this
    show ?thesis using accounts_end by fastforce
  next
    case (Inr u)
    obtain data r where d: "next_chunk (k_reader s) = (data, r)" by fastforce
    from capnp_round_goes_on [OF Inr d] obtain v where v: "data \<noteq> []"
      "ke_process env (k_service s) h data = (Inr (rev data), v)" "u = round_done env data v s" .
    have loop: "capnp_loop env h u = (None, t)"
      using "1.prems"(1) Inr by (simp add: capnp_loop.simps [of env h s])
    have r: "k_reader u = r" "k_service u = v" "is_opened (cr_stream (k_reader u))"
      "errors (k_metrics t) = errors (k_metrics u)"
      using d next_chunk_any(3) [OF d] "1.prems"(2,3) v(3) by simp_all
    from "1.IH" [OF Inr loop r(3,4)] have "accounts (delivered r) (round_done env data v s) t"
      "answers (ke_process env) h v (delivered r) = Some (map rev (delivered r))"
      using r(1,2) v(3) by simp_all
    with accounts_step v(1,2) delivered_step [OF d] show ?thesis by auto
  qed
qed

section \<open>The whole program\<close>

context reversing_service
begin

lemma try_ok:
  assumes "ke_connect env = None" "ke_start env = start" "ke_process env = process" "ke_done env = finish"
    and "ready v" "readable fs f bs" "fits bs" "0 < unat csz" "sz bs = target"
  shows "\<exists>m' v'. capnp_try env fs f csz target m v = (None, m', v') \<and>
           errors m' = errors m \<and> protocol_name m' = protocol_name m \<and>
           actual_payload_transferred_bytes m' = actual_payload_transferred_bytes m + sz bs \<and>
           total_on_wire_bytes m' = total_on_wire_bytes m + sz bs \<and>
           length (chunk_rtt_us m') = length (chunk_rtt_us m) + length (chunks_of (unat csz) bs)"
proof -
  obtain r where r: "cr_new fs f csz = Inr r" "cr_sound r" "cr_left r = bs" "cr_csize r = unat csz"
    using cr_new_sound [OF assms(6-8)] by (metis cr_csize_def)
  obtain h w where h: "start v = (Inr h, w)" "served w h" using start_ok [OF assms(5)] by blast
  let ?s = "\<lparr>k_reader = r, k_metrics = m, k_chunks_sent = 0, k_verified = 0, k_service = w, k_ticks = 1\<rparr>"
  have ds: "delivered r = chunks_of (unat csz) bs" using delivered_sound [OF r(2)] r(3,4) by simp
  obtain t where t: "capnp_loop env h ?s = (None, t)" "served (k_service t) h" "accounts (delivered r) ?s t"
    using loop_ok [of env ?s h] assms(3) cr_new_any(3) [OF r(1)] h(2) by auto
  obtain v' where v': "finish (k_service t) h = (None, v')" using finish_ok [OF t(2)] by blast
  show ?thesis
    using t(3) assms(8,9)
    by (simp add: ds concat_chunks_of capnp_try_def capnp_close_def assms(1,2,4) h(1) r(1) t(1) v' accounts_def
        set_total_transaction_time_ms_def del: One_nat_def)
qed

end

lemma capnp_try_sound:
  assumes "capnp_try env fs f csz target m v = (None, m', v')" "errors m' = errors m"
    and "cr_new fs f csz = Inr r"
  shows "sz (concat (delivered r)) = target \<and>
         (\<exists>h w. ke_start env v = (Inr h, w) \<and>
            answers (ke_process env) h w (delivered r) = Some (map rev (delivered r)))"
proof -
  obtain h w where h: "ke_start env v = (Inr h, w)"
    using assms(1) by (auto simp: capnp_try_def split: option.splits prod.splits sum.splits)
  let ?s = "\<lparr>k_reader = r, k_metrics = m, k_chunks_sent = 0, k_verified = 0, k_service = w, k_ticks = 1\<rparr>"
  obtain ex t where t: "capnp_loop env h ?s = (ex, t)" by fastforce
  obtain es where es: "errors (k_metrics t) = errors m @ es"
    using capnp_loop_errors [OF t] by auto
  have ok: "ex = None" "errors (k_metrics t) = errors m" "k_verified t = target"
    using assms(1,2) h assms(3) t es
    by (auto simp: capnp_try_def capnp_close_def log_error_def set_total_transaction_time_ms_def Let_def
        split: option.splits prod.splits if_splits)
  from capnp_loop_sound [OF t [unfolded ok(1)]] cr_new_any(3) [OF assms(3)] ok h show ?thesis
    by (auto simp: accounts_def)
qed

lemma capnp_ensure_file_ensured: "capnp_ensure_file rng fs f target = ensured rng fs f target"
  using ensured_open [of fs f target] by (auto simp: capnp_ensure_file_def ensured_def Let_def)

context reversing_service
begin

lemma program_ok:
  assumes "healthy fs" "ke_connect env = None" "ke_start env = start" "ke_process env = process"
    "ke_done env = finish" "ready v"
  shows "\<exists>m out fs'. capnp_client_main env rng fs v = (0, m, out, fs') \<and> errors m = [] \<and>
           unat (actual_payload_transferred_bytes m) = 10737418240 \<and> length (chunk_rtt_us m) = 163840 \<and>
           fs_files fs' ''capnp_summary_results.csv'' =
             Some (text_bytes (concat (map csv_line (summary_rows m)))) \<and>
           fs_files fs' ''capnp_detailed_rtt_results.csv'' =
             Some (text_bytes (concat (map csv_line (detailed_rows m))))"
proof -
  obtain fs1 bs where f: "capnp_ensure_file rng fs test_filename ACTUAL_FILE_SIZE_BYTES = (True, fs1)"
    "readable fs1 test_filename bs" "length bs = 10737418240" and ok: "healthy fs1"
    by (rule healthy_ensured [OF assms(1), of rng test_filename ACTUAL_FILE_SIZE_BYTES])
       (simp add: capnp_ensure_file_ensured)
  have fit: "fits bs" by (simp add: fits_def f(3))
  have w: "fs_can_write fs1 g" "\<not> fs_write_fault fs1 g p" for g p using ok by (simp_all add: healthy_def)
  have target: "sz bs = ACTUAL_FILE_SIZE_BYTES"
    by (simp add: sz_def f(3) ACTUAL_FILE_SIZE_BYTES_def TEST_FILE_SIZE_GB_def)
  let ?m0 = "ma_new ''CapnProto'' ACTUAL_FILE_SIZE_BYTES CHUNK_SIZE_BYTES"
  obtain m v' where t: "capnp_try env fs1 test_filename CHUNK_SIZE_BYTES ACTUAL_FILE_SIZE_BYTES ?m0 v = (None, m, v')"
    "errors m = errors ?m0"
    "actual_payload_transferred_bytes m = actual_payload_transferred_bytes ?m0 + sz bs"
    "length (chunk_rtt_us m) = length (chunk_rtt_us ?m0) + length (chunks_of 65536 bs)"
    using try_ok [OF assms(2-6) f(2) fit _ target, where csz = CHUNK_SIZE_BYTES and m = ?m0] by auto
  have n: "length (chunk_rtt_us m) = 163840"
    using t(4) by (simp add: ma_new_def length_chunks_of f(3))
  then have ne: "chunk_rtt_us m \<noteq> []" by auto
  have e: "errors m = []" "unat (actual_payload_transferred_bytes m) = 10737418240"
    using t(2,3) target by (simp_all add: ma_new_def)
  have "''capnp_summary_results.csv'' \<noteq> ''capnp_detailed_rtt_results.csv''" by simp
  note files = save_both_files [OF w(1) w(1) w(2) w(2) this ne]
  show ?thesis
    by (simp add: capnp_client_main_def f(1) t(1) e n files Let_def)
qed

end

section \<open>Properties\<close>

text \<open>
  C3: the Cap'n Proto client from start to end. On a device without failures, with the server of this
  repository, it exits with 0 and an empty error list, has sent and verified ten gigabytes in
  163840 chunks, and leaves both result files.
\<close>

theorem capnp_program_verifies:
  assumes "healthy fs" "ke_connect env = None" "ke_start env = start_streaming"
    "ke_process env = conn_process_chunk" "ke_done env = done_streaming"
  shows "\<exists>m out fs'. capnp_client_main env rng fs cn = (0, m, out, fs') \<and> errors m = [] \<and>
           unat (actual_payload_transferred_bytes m) = 10737418240 \<and> length (chunk_rtt_us m) = 163840 \<and>
           fs_files fs' ''capnp_summary_results.csv'' =
             Some (text_bytes (concat (map csv_line (summary_rows m)))) \<and>
           fs_files fs' ''capnp_detailed_rtt_results.csv'' =
             Some (text_bytes (concat (map csv_line (detailed_rows m))))"
  by (rule capnp.program_ok [OF assms TrueI])

definition local_env :: "capnp_conn capnp_env" where
  "local_env = \<lparr>ke_connect = None, ke_start = start_streaming, ke_process = conn_process_chunk,
     ke_done = done_streaming, ke_clock = (\<lambda>_. 0)\<rparr>"

lemma capnp_program_verifies_witness:
  "\<exists>m out fs'. capnp_client_main local_env (\<lambda>_. 0) (plain_fs ''x'' []) conn_new = (0, m, out, fs') \<and>
     errors m = []"
  using capnp_program_verifies [OF healthy_plain [of "''x''"], where env = local_env and rng = "\<lambda>_. 0" and cn = conn_new]
  by (auto simp: local_env_def)

text \<open>
  C20: soundness of the verification, for any server, any transport and any device. When the transfer
  returns normally without logging an error, the chunks the reader delivered, whatever reads have
  failed, are the first \<open>target\<close> bytes of the file, and the server has answered each of them, in order,
  with exactly its reverse.
\<close>

theorem capnp_sound_on_any_device:
  assumes "cr_new fs f csz = Inr r" "fs_files fs f = Some content" "fits content"
    and "capnp_try env fs f csz target m v = (None, m', v')" "errors m' = errors m"
  shows "unat target \<le> length content \<and> concat (delivered r) = take (unat target) content \<and>
         (\<exists>h w. ke_start env v = (Inr h, w) \<and>
            answers (ke_process env) h w (delivered r) = Some (map rev (delivered r)))"
proof -
  note t = capnp_try_sound [OF assms(4,5,1)]
  obtain rest where c: "content = concat (delivered r) @ rest"
    using delivered_prefix [of r] cr_new_any(1) [OF assms(1)] assms(2) by auto
  then have "fits (concat (delivered r))" using assms(3) by (auto simp: fits_def)
  then have "unat target = length (concat (delivered r))" using t unat_sz by metis
  with c t show ?thesis by simp
qed

lemma capnp_sound_on_any_device_witness:
  "\<exists>r h w. cr_new (plain_fs ''f'' [1, 2, 3]) ''f'' 2 = Inr r \<and> ke_start local_env conn_new = (Inr h, w) \<and>
     answers (ke_process local_env) h w (delivered r) = Some (map rev (delivered r))"
proof -
  have e: "ke_connect local_env = None" "ke_start local_env = start_streaming"
    "ke_process local_env = conn_process_chunk" "ke_done local_env = done_streaming"
    by (simp_all add: local_env_def)
  have f: "fits [1, 2, 3 :: byte]" "0 < unat (2 :: u64)" by (simp_all add: fits_def)
  obtain r where r: "cr_new (plain_fs ''f'' [1, 2, 3]) ''f'' 2 = Inr r"
    using cr_new_sound [OF plain_fs_simps(1) f] by metis
  obtain m' v' where "capnp_try local_env (plain_fs ''f'' [1, 2, 3]) ''f'' 2 3 (ma_new ''t'' 3 2) conn_new =
      (None, m', v')" "errors m' = errors (ma_new ''t'' 3 2)"
    using capnp.try_ok [OF e TrueI plain_fs_simps(1) f, where f = "''f''" and target = 3 and m = "ma_new ''t'' 3 2" and v = conn_new]
    by (auto simp: sz_def)
  from capnp_sound_on_any_device [OF r _ f(1) this] r show ?thesis by auto
qed

text \<open>
  The same on a readable file: every chunk of the file was answered with its reverse, and the file has
  the size the client was to send.
\<close>

theorem capnp_verification_sound:
  assumes "readable fs f content" "fits content" "0 < unat csz"
    and "capnp_try env fs f csz target m v = (None, m', v')" "errors m' = errors m"
  shows "sz content = target \<and>
         (\<exists>h w. ke_start env v = (Inr h, w) \<and>
            answers (ke_process env) h w (chunks_of (unat csz) content) =
              Some (map rev (chunks_of (unat csz) content)))"
proof -
  obtain r where r: "cr_new fs f csz = Inr r" using cr_new_sound [OF assms(1-3)] by metis
  from capnp_try_sound [OF assms(4,5) r] delivered_new [OF assms(1-3) r] assms(3)
  show ?thesis by (simp add: concat_chunks_of)
qed

text \<open>
  C37: a failed verification does not show in the exit code. With a server that answers every chunk
  wrongly, the client stops at the first chunk with an error in its list, and still exits with 0 by
  way of its success messages.
\<close>

theorem capnp_wrong_answer_exits_zero:
  assumes "healthy fs" "ke_connect env = None" "\<exists>h w. ke_start env v = (Inr h, w)"
    and "\<forall>u h d. \<exists>a w. ke_process env u h d = (Inr a, w) \<and> a \<noteq> rev d"
    and "\<forall>u h. \<exists>w. ke_done env u h = (None, w)"
  shows "\<exists>m out fs'. capnp_client_main env rng fs v = (0, m, out, fs') \<and> errors m \<noteq> [] \<and>
           length (chunk_rtt_us m) = 1"
proof -
  obtain fs1 bs where f: "capnp_ensure_file rng fs test_filename ACTUAL_FILE_SIZE_BYTES = (True, fs1)"
    "readable fs1 test_filename bs" "length bs = 10737418240"
    by (rule healthy_ensured [OF assms(1), of rng test_filename ACTUAL_FILE_SIZE_BYTES])
       (simp add: capnp_ensure_file_ensured)
  have fit: "fits bs" by (simp add: fits_def f(3))
  let ?m0 = "ma_new ''CapnProto'' ACTUAL_FILE_SIZE_BYTES CHUNK_SIZE_BYTES"
  obtain r where r: "cr_new fs1 test_filename CHUNK_SIZE_BYTES = Inr r" "cr_sound r" "cr_left r = bs"
    using cr_new_sound [OF f(2) fit] by (metis unat_CHUNK_SIZE_BYTES zero_less_numeral)
  obtain h w where h: "ke_start env v = (Inr h, w)" using assms(3) by blast
  let ?s = "\<lparr>k_reader = r, k_metrics = ?m0, k_chunks_sent = 0, k_verified = 0, k_service = w, k_ticks = 1\<rparr>"
  have "bs \<noteq> []" using f(3) by auto
  then have d: "fst (next_chunk r) \<noteq> []" using cr.next_nonempty_iff [OF r(2)] r(3) by simp
  obtain data r' where n: "next_chunk r = (data, r')" by fastforce
  obtain a u where a: "ke_process env w h data = (Inr a, u)" "a \<noteq> rev data" using assms(4) by blast
  obtain t where t: "capnp_round env h ?s = Inl (None, t)" "errors (k_metrics t) \<noteq> []"
    "length (chunk_rtt_us (k_metrics t)) = 1"
    using n d a
    by (cases "sz a = sz data") (simp_all add: capnp_round_def log_error_def record_chunk_sent_def
        record_chunk_rtt_us_def ma_new_def Let_def del: One_nat_def)
  then have loop: "capnp_loop env h ?s = (None, t)" by (simp only: capnp_loop.simps [of env h ?s] sum.case)
  obtain z where z: "ke_done env (k_service t) h = (None, z)" using assms(5) by blast
  obtain m where m: "capnp_try env fs1 test_filename CHUNK_SIZE_BYTES ACTUAL_FILE_SIZE_BYTES ?m0 v = (None, m, z)"
    "errors m \<noteq> []" "length (chunk_rtt_us m) = 1"
    using loop z t(2,3)
    by (simp add: capnp_try_def capnp_close_def assms(2) h r(1) set_total_transaction_time_ms_def log_error_def Let_def
        del: One_nat_def)
  then show ?thesis by (simp add: capnp_client_main_def f(1) Let_def)
qed

lemma capnp_wrong_answer_exits_zero_witness:
  "\<exists>m out fs'. capnp_client_main \<lparr>ke_connect = None, ke_start = (\<lambda>v. (Inr 0, v)),
       ke_process = (\<lambda>v h d. (Inr (1 # rev d), v)), ke_done = (\<lambda>v h. (None, v)), ke_clock = (\<lambda>_. 0)\<rparr>
     (\<lambda>_. 0) (plain_fs ''x'' []) (0 :: nat) = (0, m, out, fs') \<and> errors m \<noteq> []"
proof -
  let ?env = "\<lparr>ke_connect = None, ke_start = (\<lambda>v :: nat. (Inr 0, v)),
       ke_process = (\<lambda>v h d. (Inr (1 # rev d), v)), ke_done = (\<lambda>v h. (None, v)), ke_clock = (\<lambda>_. 0)\<rparr>"
  have "1 # rev d \<noteq> rev d" for d :: bytes by (metis not_Cons_self2)
  then show ?thesis
    using capnp_wrong_answer_exits_zero [OF healthy_plain [of "''x''"], where env = ?env and v = 0 and rng = "\<lambda>_. 0"] by simp blast
qed

text \<open>
  C38: an exception reaches the exit code. When connecting throws, the client exits with 1, the
  exception is the only entry of its error list, and only the summary file of that error is written.
\<close>

theorem capnp_exception_exits_one:
  assumes "healthy fs" "ke_connect env = Some (Kj_exception d)"
  shows "\<exists>m out fs'. capnp_client_main env rng fs v = (1, m, out, fs') \<and>
           errors m = [''KJ Exception: '' @ d] \<and>
           fs_files fs' ''capnp_summary_results_kj_error.csv'' =
             Some (text_bytes (concat (map csv_line (summary_rows m)))) \<and>
           chunk_rtt_us m = []"
proof -
  obtain fs1 where f: "capnp_ensure_file rng fs test_filename ACTUAL_FILE_SIZE_BYTES = (True, fs1)"
    and ok: "healthy fs1"
    by (rule healthy_ensured [OF assms(1), of rng test_filename ACTUAL_FILE_SIZE_BYTES])
       (simp add: capnp_ensure_file_ensured)
  have w: "fs_can_write fs1 g" "\<not> fs_write_fault fs1 g p" for g p using ok by (simp_all add: healthy_def)
  let ?m = "log_error (''KJ Exception: '' @ d) (ma_new ''CapnProto'' ACTUAL_FILE_SIZE_BYTES CHUNK_SIZE_BYTES)"
  obtain fs2 where "ofs_open fs1 ''capnp_summary_results_kj_error.csv'' = Some fs2"
    "ofs_put_text ''capnp_summary_results_kj_error.csv'' (concat (map csv_line (summary_rows ?m))) fs2 =
     fs_put ''capnp_summary_results_kj_error.csv''
       (text_bytes (concat (map csv_line (summary_rows ?m)))) fs1"
    using ofs_text_file [OF w(1) w(2)] by blast
  then have "fs_files (save_both ?m ''capnp_summary_results_kj_error.csv''
      ''capnp_detailed_rtt_kj_error.csv'' fs1) ''capnp_summary_results_kj_error.csv'' =
      Some (text_bytes (concat (map csv_line (summary_rows ?m))))"
    by (simp add: save_both_def save_summary_csv_def save_detailed_rtt_csv_def log_error_def ma_new_def)
  moreover have "errors ?m = [''KJ Exception: '' @ d]" "chunk_rtt_us ?m = []"
    by (simp_all add: log_error_def ma_new_def)
  ultimately show ?thesis
    by (simp add: capnp_client_main_def f(1) capnp_try_def capnp_close_def assms(2) capnp_catch_def Let_def)
qed

lemma capnp_exception_exits_one_witness:
  "\<exists>m out fs'. capnp_client_main (local_env\<lparr>ke_connect := Some (Kj_exception ''refused'')\<rparr>)
       (\<lambda>_. 0) (plain_fs ''x'' []) conn_new = (1, m, out, fs') \<and> errors m = [''KJ Exception: refused'']"
  using capnp_exception_exits_one [OF healthy_plain [of "''x''"], where env = "local_env\<lparr>ke_connect := Some (Kj_exception ''refused'')\<rparr>"
      and d = "''refused''" and rng = "\<lambda>_. 0" and v = conn_new]
  by auto

end
