(* ===== verification/Capnp_Events.thy ===== *)
theory Capnp_Events
  imports Capnp_Client
begin

text \<open>
  The Cap'n Proto server with all its connections (src/capnp_app/capnp_server.cpp): the event
  loop inside \<open>accept().wait()\<close> delivers accepted connections, calls on the capabilities of
  the connections and disconnections, in any order. Each task owns its connection, so one
  connection does not see the others; leaving the accept loop destroys the \<open>TaskSet\<close> and with it
  every connection.

  A client on one connection of such a server, with anything harmless happening on the others between
  its calls, is a second instance of \<open>reversing_service\<close>.
\<close>

section \<open>Calls on one connection\<close>

datatype conn_call = Call_start | Call_process nat bytes | Call_done nat

datatype conn_reply = Reply_handler nat | Reply_data bytes | Reply_done | Reply_thrown thrown

fun conn_step :: "conn_call \<Rightarrow> capnp_conn \<Rightarrow> conn_reply \<times> capnp_conn" where
  "conn_step Call_start cn =
     (case start_streaming cn of (Inl e, cn) \<Rightarrow> (Reply_thrown e, cn) | (Inr h, cn) \<Rightarrow> (Reply_handler h, cn))"
| "conn_step (Call_process h data) cn =
     (case conn_process_chunk cn h data of
        (Inl e, cn) \<Rightarrow> (Reply_thrown e, cn) | (Inr answer, cn) \<Rightarrow> (Reply_data answer, cn))"
| "conn_step (Call_done h) cn =
     (case done_streaming cn h of (Some e, cn) \<Rightarrow> (Reply_thrown e, cn) | (None, cn) \<Rightarrow> (Reply_done, cn))"

fun conn_run :: "conn_call list \<Rightarrow> capnp_conn \<Rightarrow> conn_reply list \<times> capnp_conn" where
  "conn_run [] cn = ([], cn)"
| "conn_run (c # cs) cn =
     (case conn_step c cn of (r, cn) \<Rightarrow> case conn_run cs cn of (rs, cn) \<Rightarrow> (r # rs, cn))"

section \<open>The server\<close>

text \<open>A task that has ended is \<open>None\<close>; connections are numbered in the order of acceptance.\<close>

record kj_server =
  kj_tasks :: "capnp_conn option list"
  kj_exit :: "int option"
  kj_log :: "string list"

datatype kj_event = Kj_accept accept_result | Kj_task_throws thrown
  | Kj_call nat conn_call | Kj_disconnect nat "string option"

definition kj_start :: kj_server where
  "kj_start = \<lparr>kj_tasks = [], kj_exit = None, kj_log = []\<rparr>"

definition kj_conn :: "kj_server \<Rightarrow> nat \<Rightarrow> capnp_conn option" where
  "kj_conn s c = (if c < length (kj_tasks s) then kj_tasks s ! c else None)"

definition kj_leave :: "int \<Rightarrow> string \<Rightarrow> kj_server \<Rightarrow> kj_server" where
  "kj_leave code msg s =
     s\<lparr>kj_tasks := map (\<lambda>_. None) (kj_tasks s), kj_exit := Some code, kj_log := kj_log s @ [msg]\<rparr>"

definition accept_failed :: "thrown \<Rightarrow> string" where
  "accept_failed e =
     (case e of
        Kj_exception d \<Rightarrow> ''[ERROR] Server loop: KJ Exception in accept(): '' @ d
      | Std_exception w \<Rightarrow> ''[ERROR] Server loop: STD Exception in accept(): '' @ w
      | Unknown_exception \<Rightarrow> ''[ERROR] Server loop: Unknown exception in accept().'')"

definition outer_caught :: "thrown \<Rightarrow> string" where
  "outer_caught e =
     (case e of
        Kj_exception d \<Rightarrow> ''[ERROR] Server main: Outer KJ Exception caught: '' @ d
      | Std_exception w \<Rightarrow> ''[ERROR] Server main: Outer STD Exception caught: '' @ w
      | Unknown_exception \<Rightarrow> ''[ERROR] Server main: Outer Unknown exception caught.'')"

definition kj_accept :: "accept_result \<Rightarrow> kj_server \<Rightarrow> kj_server" where
  "kj_accept r s =
     (case r of
        Accepted \<Rightarrow> s\<lparr>kj_tasks := kj_tasks s @ [Some conn_new]\<rparr>
      | Accepted_null \<Rightarrow> kj_leave 0 ''[ERROR] Server loop: Accept returned null connection, exiting.'' s
      | Accept_throws e \<Rightarrow> kj_leave 0 (accept_failed e) s)"

definition kj_disconnect :: "nat \<Rightarrow> string option \<Rightarrow> kj_server \<Rightarrow> kj_server" where
  "kj_disconnect c why s =
     s\<lparr>kj_tasks := (kj_tasks s)[c := None],
       kj_log := kj_log s @ [case why of None \<Rightarrow> ''[DEBUG] Task: disconnected cleanly.''
                             | Some d \<Rightarrow> ''[ERROR] Task: disconnected with error: '' @ d]\<rparr>"

text \<open>
  The set-up of a task runs synchronously inside the accept loop, so what it throws ends the
  program. A call or a disconnection on a connection that is gone does not exist.
\<close>

definition kj_step :: "kj_server \<Rightarrow> kj_event \<Rightarrow> (nat \<times> conn_reply) list \<times> kj_server" where
  "kj_step s e =
     (if kj_exit s \<noteq> None then ([], s)
      else case e of
        Kj_accept r \<Rightarrow> ([], kj_accept r s)
      | Kj_task_throws x \<Rightarrow> ([], kj_leave 1 (outer_caught x) s)
      | Kj_call c call \<Rightarrow>
          (case kj_conn s c of
             None \<Rightarrow> ([], s)
           | Some cn \<Rightarrow> (case conn_step call cn of
                (r, cn) \<Rightarrow> ([(c, r)], s\<lparr>kj_tasks := (kj_tasks s)[c := Some cn]\<rparr>)))
      | Kj_disconnect c why \<Rightarrow>
          (case kj_conn s c of None \<Rightarrow> ([], s) | Some cn \<Rightarrow> ([], kj_disconnect c why s)))"

fun kj_run :: "kj_server \<Rightarrow> kj_event list \<Rightarrow> (nat \<times> conn_reply) list \<times> kj_server" where
  "kj_run s [] = ([], s)"
| "kj_run s (e # es) = (case kj_step s e of (rs, s) \<Rightarrow> case kj_run s es of (qs, s) \<Rightarrow> (rs @ qs, s))"

section \<open>One connection among the others\<close>

fun fatal :: "kj_event \<Rightarrow> bool" where
  "fatal (Kj_accept r) \<longleftrightarrow> r \<noteq> Accepted"
| "fatal (Kj_task_throws x) \<longleftrightarrow> True"
| "fatal _ \<longleftrightarrow> False"

fun calls_of :: "nat \<Rightarrow> kj_event list \<Rightarrow> conn_call list" where
  "calls_of c [] = []"
| "calls_of c (Kj_call d call # es) = (if d = c then call # calls_of c es else calls_of c es)"
| "calls_of c (e # es) = calls_of c es"

definition replies_to :: "nat \<Rightarrow> (nat \<times> conn_reply) list \<Rightarrow> conn_reply list" where
  "replies_to c qs = map snd (filter (\<lambda>q. fst q = c) qs)"

lemma replies_to_simps [simp]:
  "replies_to c [] = []" "replies_to c (q # qs) = (if fst q = c then [snd q] else []) @ replies_to c qs"
  "replies_to c (qs @ rs) = replies_to c qs @ replies_to c rs"
  by (simp_all add: replies_to_def)

lemmas kj_step_defs = kj_step_def kj_accept_def kj_leave_def kj_disconnect_def

lemma kj_conn_simps:
  "kj_conn (s\<lparr>kj_tasks := kj_tasks s @ [x]\<rparr>) c = (if c = length (kj_tasks s) then x else kj_conn s c)"
  "kj_conn (s\<lparr>kj_tasks := (kj_tasks s)[d := x]\<rparr>) c =
     (if c = d \<and> d < length (kj_tasks s) then x else kj_conn s c)"
  "kj_conn (kj_leave code msg s) c = None"
  "kj_conn (kj_disconnect d why s) c = (if c = d then None else kj_conn s c)"
  by (auto simp: kj_conn_def nth_append kj_leave_def kj_disconnect_def nth_list_update)

lemma kj_conn_bound: "kj_conn s c = Some cn \<Longrightarrow> c < length (kj_tasks s)"
  by (simp add: kj_conn_def split: if_splits)

text \<open>A step keeps a connection that it does not end, and a connection that is gone stays gone.\<close>

lemma kj_step_conn:
  assumes "kj_step s e = (rs, t)" "kj_exit s = None" "kj_conn s c = Some cn" "kj_conn t c = Some cn'"
  shows "conn_run (calls_of c [e]) cn = (replies_to c rs, cn')"
proof -
  note b = kj_conn_bound [OF assms(3)]
  show ?thesis
  proof (cases e)
    case (Kj_accept r)
    with assms b show ?thesis
      by (cases r) (auto simp: kj_step_def kj_accept_def kj_conn_simps)
  next
    case (Kj_call d call)
    show ?thesis
    proof (cases "kj_conn s d")
      case None
      with assms Kj_call show ?thesis by (auto simp: kj_step_def)
    next
      case (Some dn)
      obtain r x where r: "conn_step call dn = (r, x)" by fastforce
      with Some assms Kj_call b show ?thesis
        by (auto simp: kj_step_def kj_conn_simps)
    qed
  qed (use assms in \<open>auto simp: kj_step_def kj_conn_simps split: option.splits if_splits\<close>)
qed

lemma kj_step_gone:
  assumes "kj_step s e = (rs, t)" "c < length (kj_tasks s)" "kj_conn s c = None"
  shows "kj_conn t c = None" "c < length (kj_tasks t)"
  using assms
  by (auto simp: kj_step_def kj_accept_def kj_conn_simps split: if_splits kj_event.splits
      accept_result.splits option.splits prod.splits) (auto simp: kj_leave_def kj_disconnect_def)

lemma kj_run_gone:
  assumes "kj_run s es = (rs, t)" "c < length (kj_tasks s)" "kj_conn s c = None"
  shows "kj_conn t c = None"
  using assms
proof (induction es arbitrary: s rs)
  case (Cons e es)
  obtain qs u where u: "kj_step s e = (qs, u)" by fastforce
  obtain ps where "kj_run u es = (ps, t)" using Cons.prems(1) u by (auto split: prod.splits)
  from Cons.IH [OF this] kj_step_gone [OF u Cons.prems(2,3)] show ?case by blast
qed simp

lemma calls_of_Cons: "calls_of c (e # es) = calls_of c [e] @ calls_of c es"
  by (cases e) simp_all

lemma conn_run_append:
  "conn_run (xs @ ys) cn =
     (case conn_run xs cn of (rs, cn) \<Rightarrow> case conn_run ys cn of (qs, cn) \<Rightarrow> (rs @ qs, cn))"
  by (induction xs arbitrary: cn) (simp_all split: prod.splits)

text \<open>How long the server and a connection live.\<close>

lemma kj_step_exit:
  assumes "kj_step s e = (rs, t)" "kj_exit s = None"
  shows "kj_exit t = None \<longleftrightarrow> \<not> fatal e" "kj_exit t \<noteq> None \<Longrightarrow> \<forall>c. kj_conn t c = None"
  using assms
  by (cases e; auto simp: kj_step_def kj_accept_def kj_leave_def kj_disconnect_def kj_conn_def
      split: accept_result.splits option.splits prod.splits)+

lemma kj_run_over: "kj_exit s \<noteq> None \<Longrightarrow> kj_run s es = ([], s)"
  by (induction es) (simp_all add: kj_step_def)

lemma kj_run_exit:
  assumes "kj_run s es = (rs, t)" "kj_exit s = None"
  shows "kj_exit t = None \<longleftrightarrow> \<not> list_ex fatal es" "kj_exit t \<noteq> None \<Longrightarrow> \<forall>c. kj_conn t c = None"
proof -
  have "(kj_exit t = None \<longleftrightarrow> \<not> list_ex fatal es) \<and> (kj_exit t \<noteq> None \<longrightarrow> (\<forall>c. kj_conn t c = None))"
    using assms
  proof (induction es arbitrary: s rs)
    case (Cons e es)
    obtain qs u where u: "kj_step s e = (qs, u)" by fastforce
    obtain ps where ps: "kj_run u es = (ps, t)" using Cons.prems(1) u by (auto split: prod.splits)
    note x = kj_step_exit [OF u Cons.prems(2)]
    show ?case
    proof (cases "kj_exit u")
      case None
      with Cons.IH [OF ps] x show ?thesis by auto
    next
      case (Some code)
      with kj_run_over [of u es] ps x show ?thesis by auto
    qed
  qed simp
  then show "kj_exit t = None \<longleftrightarrow> \<not> list_ex fatal es"
    "kj_exit t \<noteq> None \<Longrightarrow> \<forall>c. kj_conn t c = None" by blast+
qed

lemma kj_run_conn:
  assumes "kj_run s es = (rs, t)" "kj_exit s = None" "kj_conn s c = Some cn" "kj_conn t c = Some cn'"
  shows "conn_run (calls_of c es) cn = (replies_to c rs, cn')"
  using assms
proof (induction es arbitrary: s rs cn)
  case (Cons e es)
  obtain qs u where u: "kj_step s e = (qs, u)" by fastforce
  obtain ps where ps: "kj_run u es = (ps, t)" "rs = qs @ ps"
    using Cons.prems(1) u by (auto split: prod.splits)
  have "kj_exit u = None"
  proof (rule ccontr)
    assume over: "kj_exit u \<noteq> None"
    with kj_run_over [OF over, of es] ps(1) kj_step_exit(2) [OF u Cons.prems(2) over] Cons.prems(4)
    show False by simp
  qed
  show ?case
  proof (cases "kj_conn u c")
    case None
    have "c < length (kj_tasks u)"
      using kj_conn_bound [OF Cons.prems(3)] u
      by (auto simp: kj_step_def kj_accept_def kj_leave_def kj_disconnect_def
          split: if_splits kj_event.splits accept_result.splits option.splits prod.splits)
    with kj_run_gone [OF ps(1) _ None] Cons.prems(4) show ?thesis by simp
  next
    case (Some dn)
    from kj_step_conn [OF u Cons.prems(2,3) Some]
      Cons.IH [OF ps(1) \<open>kj_exit u = None\<close> Some Cons.prems(4)]
    show ?thesis by (simp add: calls_of_Cons [of c e es] conn_run_append ps(2) del: calls_of.simps)
  qed
qed simp

text \<open>On nothing but accepts this is the accept loop, whose connections are dropped when it ends.\<close>

lemma kj_accepts:
  "kj_exit (snd (kj_run kj_start (map Kj_accept rs))) = fst (capnp_server_main None rs) \<and>
   (fst (capnp_server_main None rs) = None \<longrightarrow>
      kj_tasks (snd (kj_run kj_start (map Kj_accept rs))) = map Some (snd (capnp_server_main None rs)))"
proof -
  have "kj_exit (snd (kj_run s (map Kj_accept rs))) = (if snd (accept_loop rs ts) then Some 0 else None) \<and>
      (\<not> snd (accept_loop rs ts) \<longrightarrow>
         kj_tasks (snd (kj_run s (map Kj_accept rs))) = map Some (fst (accept_loop rs ts)))"
    if "kj_exit s = None" "kj_tasks s = map Some ts" for s ts
    using that
  proof (induction rs arbitrary: s ts)
    case (Cons r rs)
    show ?case
    proof (cases r)
      case Accepted
      with Cons.prems Cons.IH [of "s\<lparr>kj_tasks := kj_tasks s @ [Some conn_new]\<rparr>" "ts @ [conn_new]"]
      show ?thesis by (auto simp: kj_step_def kj_accept_def split: prod.splits)
    next
      case Accepted_null
      with Cons.prems kj_run_over show ?thesis
        by (simp add: kj_step_def kj_accept_def kj_leave_def kj_run_over)
    next
      case (Accept_throws e)
      with Cons.prems show ?thesis
        by (simp add: kj_step_def kj_accept_def kj_leave_def kj_run_over)
    qed
  qed simp
  from this [of kj_start "[]"] show ?thesis
    by (simp add: kj_start_def capnp_server_main_def split: prod.splits)
qed

section \<open>A client among others\<close>

text \<open>
  \<open>others i\<close> is what the server sees between the calls \<open>i\<close> and \<open>i + 1\<close> of the client on
  connection \<open>c\<close>: anything that neither ends the server nor disconnects \<open>c\<close>.
\<close>

fun harmless :: "nat \<Rightarrow> kj_event \<Rightarrow> bool" where
  "harmless c (Kj_disconnect d why) \<longleftrightarrow> d \<noteq> c"
| "harmless c e \<longleftrightarrow> \<not> fatal e"

definition shared_call ::
  "nat \<Rightarrow> (nat \<Rightarrow> kj_event list) \<Rightarrow> conn_call \<Rightarrow> kj_server \<times> nat \<Rightarrow> conn_reply \<times> (kj_server \<times> nat)" where
  "shared_call c others call v =
     (case v of (s, i) \<Rightarrow>
        case kj_step (snd (kj_run s (others i))) (Kj_call c call) of
          ([], s) \<Rightarrow> (Reply_thrown (Kj_exception ''disconnected''), (s, i + 1))
        | ((_, r) # _, s) \<Rightarrow> (r, (s, i + 1)))"

definition shared_start :: "nat \<Rightarrow> (nat \<Rightarrow> kj_event list) \<Rightarrow> kj_server \<times> nat \<Rightarrow>
    (thrown + nat) \<times> (kj_server \<times> nat)" where
  "shared_start c others v =
     (case shared_call c others Call_start v of
        (Reply_handler h, v) \<Rightarrow> (Inr h, v) | (Reply_thrown e, v) \<Rightarrow> (Inl e, v)
      | (_, v) \<Rightarrow> (Inl Unknown_exception, v))"

definition shared_process :: "nat \<Rightarrow> (nat \<Rightarrow> kj_event list) \<Rightarrow> kj_server \<times> nat \<Rightarrow> nat \<Rightarrow> bytes \<Rightarrow>
    (thrown + bytes) \<times> (kj_server \<times> nat)" where
  "shared_process c others v h data =
     (case shared_call c others (Call_process h data) v of
        (Reply_data answer, v) \<Rightarrow> (Inr answer, v) | (Reply_thrown e, v) \<Rightarrow> (Inl e, v)
      | (_, v) \<Rightarrow> (Inl Unknown_exception, v))"

definition shared_done :: "nat \<Rightarrow> (nat \<Rightarrow> kj_event list) \<Rightarrow> kj_server \<times> nat \<Rightarrow> nat \<Rightarrow>
    thrown option \<times> (kj_server \<times> nat)" where
  "shared_done c others v h =
     (case shared_call c others (Call_done h) v of
        (Reply_done, v) \<Rightarrow> (None, v) | (Reply_thrown e, v) \<Rightarrow> (Some e, v)
      | (_, v) \<Rightarrow> (Some Unknown_exception, v))"

definition shared_ready :: "nat \<Rightarrow> (nat \<Rightarrow> kj_event list) \<Rightarrow> kj_server \<times> nat \<Rightarrow> bool" where
  "shared_ready c others v \<longleftrightarrow>
     kj_exit (fst v) = None \<and> kj_conn (fst v) c \<noteq> None \<and> (\<forall>j. list_all (harmless c) (others j))"

definition shared_served :: "nat \<Rightarrow> (nat \<Rightarrow> kj_event list) \<Rightarrow> kj_server \<times> nat \<Rightarrow> nat \<Rightarrow> bool" where
  "shared_served c others v h \<longleftrightarrow>
     kj_exit (fst v) = None \<and> (\<exists>cn. kj_conn (fst v) c = Some cn \<and> h < cc_handlers cn) \<and>
     (\<forall>j. list_all (harmless c) (others j))"

lemma conn_step_handlers: "conn_step call cn = (r, cn') \<Longrightarrow> cc_handlers cn \<le> cc_handlers cn'"
  by (cases call) (auto simp: start_streaming_def conn_process_chunk_def done_streaming_def
      split: if_splits)

lemma harmless_step:
  assumes "kj_step s e = (rs, t)" "harmless c e" "kj_exit s = None" "kj_conn s c = Some cn"
  shows "kj_exit t = None \<and> (\<exists>cn'. kj_conn t c = Some cn' \<and> cc_handlers cn \<le> cc_handlers cn')"
proof (cases e)
  case (Kj_accept r)
  with assms kj_conn_bound [OF assms(4)] show ?thesis
    by (auto simp: kj_step_def kj_accept_def kj_conn_simps split: accept_result.splits)
next
  case (Kj_call d call)
  show ?thesis
  proof (cases "kj_conn s d")
    case None
    with assms Kj_call show ?thesis by (auto simp: kj_step_def)
  next
    case (Some dn)
    obtain r x where r: "conn_step call dn = (r, x)" by fastforce
    from conn_step_handlers [OF r] Some assms Kj_call r kj_conn_bound [OF assms(4)] show ?thesis
      by (auto simp: kj_step_def kj_conn_simps)
  qed
next
  case (Kj_disconnect d why)
  have "kj_exit (kj_disconnect d why s) = None" using assms(3) by (simp add: kj_disconnect_def)
  with Kj_disconnect assms show ?thesis
    by (auto simp: kj_step_def kj_conn_simps split: option.splits)
qed (use assms in simp)

lemma harmless_run:
  assumes "kj_run s es = (rs, t)" "list_all (harmless c) es" "kj_exit s = None" "kj_conn s c = Some cn"
  shows "kj_exit t = None \<and> (\<exists>cn'. kj_conn t c = Some cn' \<and> cc_handlers cn \<le> cc_handlers cn')"
  using assms
proof (induction es arbitrary: s rs cn)
  case (Cons e es)
  obtain qs u where u: "kj_step s e = (qs, u)" by fastforce
  obtain ps where ps: "kj_run u es = (ps, t)" using Cons.prems(1) u by (auto split: prod.splits)
  from harmless_step [OF u] Cons.prems(2-4) obtain dn where
    "kj_exit u = None" "kj_conn u c = Some dn" "cc_handlers cn \<le> cc_handlers dn" by auto
  with Cons.IH [OF ps] Cons.prems(2) show ?case by (auto intro: order_trans)
qed simp

lemma shared_call_served:
  assumes "kj_exit s = None" "kj_conn s c = Some cn" "\<forall>j. list_all (harmless c) (others j)"
  obtains dn r x t where "cc_handlers cn \<le> cc_handlers dn" "conn_step call dn = (r, x)"
    "shared_call c others call (s, i) = (r, (t, i + 1))" "kj_exit t = None" "kj_conn t c = Some x"
proof -
  obtain rs u where u: "kj_run s (others i) = (rs, u)" by fastforce
  obtain dn where dn: "kj_exit u = None" "kj_conn u c = Some dn" "cc_handlers cn \<le> cc_handlers dn"
    using harmless_run [OF u _ assms(1,2)] assms(3) by blast
  obtain r x where r: "conn_step call dn = (r, x)" by fastforce
  let ?t = "u\<lparr>kj_tasks := (kj_tasks u)[c := Some x]\<rparr>"
  have "shared_call c others call (s, i) = (r, (?t, i + 1))"
    by (simp add: shared_call_def u kj_step_def dn r)
  moreover have "kj_conn ?t c = Some x" using kj_conn_bound [OF dn(2)] by (simp add: kj_conn_simps)
  ultimately show ?thesis using that [OF dn(3) r] dn(1) by simp
qed

interpretation shared: reversing_service "shared_start c others" "shared_process c others"
    "shared_done c others" "shared_ready c others" "shared_served c others" for c others
proof unfold_locales
  fix v :: "kj_server \<times> nat" and h :: nat and data :: bytes
  obtain s i where v: "v = (s, i)" by fastforce
  show "\<exists>h w. shared_start c others v = (Inr h, w) \<and> shared_served c others w h"
    if ready: "shared_ready c others v"
  proof -
    obtain cn where cn: "kj_conn s c = Some cn" "kj_exit s = None" "\<forall>j. list_all (harmless c) (others j)"
      using ready by (auto simp: shared_ready_def v)
    from shared_call_served [OF cn(2,1,3)] obtain dn r x t where
      "conn_step Call_start dn = (r, x)" "shared_call c others Call_start (s, i) = (r, (t, i + 1))"
      "kj_exit t = None" "kj_conn t c = Some x" by metis
    with cn(3) show ?thesis
      by (auto simp: shared_start_def v shared_served_def start_streaming_def)
  qed
  assume "shared_served c others v h"
  then obtain cn where cn: "kj_conn s c = Some cn" "kj_exit s = None" "h < cc_handlers cn"
    "\<forall>j. list_all (harmless c) (others j)"
    by (auto simp: shared_served_def v)
  show "\<exists>w. shared_process c others v h data = (Inr (rev data), w) \<and> shared_served c others w h"
  proof -
    from shared_call_served [OF cn(2,1,4)] obtain dn r x t where "cc_handlers cn \<le> cc_handlers dn"
      "conn_step (Call_process h data) dn = (r, x)"
      "shared_call c others (Call_process h data) (s, i) = (r, (t, i + 1))"
      "kj_exit t = None" "kj_conn t c = Some x" by metis
    with cn(3,4) show ?thesis
      by (auto simp: shared_process_def v shared_served_def conn_process_chunk_def)
  qed
  show "\<exists>w. shared_done c others v h = (None, w)"
  proof -
    from shared_call_served [OF cn(2,1,4)] obtain dn r x t where "cc_handlers cn \<le> cc_handlers dn"
      "conn_step (Call_done h) dn = (r, x)"
      "shared_call c others (Call_done h) (s, i) = (r, (t, i + 1))" by metis
    with cn(3) show ?thesis
      by (auto simp: shared_done_def v done_streaming_def)
  qed
qed

section \<open>Properties\<close>



text \<open>
  C14: a client among others. On a device without failures the program verifies all its ten gigabytes and
  exits with 0 and an empty error list also when, between any two of its calls, the server accepts,
  serves and loses any number of other clients.
\<close>

theorem capnp_program_verifies_among_others:
  assumes "healthy fs" "ke_connect env = None" "ke_start env = shared_start c others"
    "ke_process env = shared_process c others" "ke_done env = shared_done c others"
    "shared_ready c others v"
  shows "\<exists>m out fs'. capnp_client_main env rng fs v = (0, m, out, fs') \<and> errors m = [] \<and>
           unat (actual_payload_transferred_bytes m) = 10737418240 \<and> length (chunk_rtt_us m) = 163840 \<and>
           fs_files fs' ''capnp_summary_results.csv'' =
             Some (text_bytes (concat (map csv_line (summary_rows m)))) \<and>
           fs_files fs' ''capnp_detailed_rtt_results.csv'' =
             Some (text_bytes (concat (map csv_line (detailed_rows m))))"
  by (rule shared.program_ok [OF assms])

definition shared_env :: "nat \<Rightarrow> (nat \<Rightarrow> kj_event list) \<Rightarrow> (kj_server \<times> nat) capnp_env" where
  "shared_env c others = \<lparr>ke_connect = None, ke_start = shared_start c others,
     ke_process = shared_process c others, ke_done = shared_done c others, ke_clock = (\<lambda>_. 0)\<rparr>"

lemma capnp_program_verifies_among_others_witness:
  "\<exists>m out fs'. capnp_client_main
       (shared_env 0 (\<lambda>i. [Kj_accept Accepted, Kj_call (i + 1) Call_start, Kj_disconnect (i + 1) None]))
       (\<lambda>_. 0) (plain_fs ''x'' []) (snd (kj_run kj_start [Kj_accept Accepted]), 0) = (0, m, out, fs') \<and>
     errors m = []"
proof -
  let ?others = "\<lambda>i. [Kj_accept Accepted, Kj_call (i + 1) Call_start, Kj_disconnect (i + 1) None]"
  have "shared_ready 0 ?others (snd (kj_run kj_start [Kj_accept Accepted]), 0)"
    by (simp add: shared_ready_def kj_start_def kj_step_defs kj_conn_def)
  from capnp_program_verifies_among_others [OF healthy_plain [of "''x''"], where env = "shared_env 0 ?others",
      OF _ _ _ _ this, where rng = "\<lambda>_. 0"]
  show ?thesis by (auto simp: shared_env_def)
qed

end
