(* ===== verification/Capnp_Refine.thy ===== *)
theory Capnp_Refine
  imports Capnp_Client Transfer_Spec
begin

text \<open>
  The Cap'n Proto client refines the abstract transfer. Its run is seen as a machine: a state
  for each pass of the loop, and one for what follows it. A chunk answered rightly is good, the one
  answered wrongly, at which the loop stops, is bad; the answered chunks are those with a
  round-trip time.
\<close>

section \<open>The client as a machine\<close>

datatype 'v capnp_state = Sending nat "'v capnp_run" | Closed "thrown option" "'v capnp_run"

inductive capnp_moves :: "'v capnp_env \<Rightarrow> u64 \<Rightarrow> 'v capnp_state \<Rightarrow> 'v capnp_state \<Rightarrow> bool"
  for env target where
  go_on: "capnp_round env h s = Inr t \<Longrightarrow> capnp_moves env target (Sending h s) (Sending h t)"
| close: "capnp_round env h s = Inl out \<Longrightarrow> capnp_close env target h out = (ex, t) \<Longrightarrow>
    capnp_moves env target (Sending h s) (Closed ex t)"

inductive_cases capnp_movesE: "capnp_moves env target x y"

lemma loop_moves:
  assumes "capnp_close env target h (capnp_loop env h s) = (ex, t)"
  shows "(capnp_moves env target)\<^sup>*\<^sup>* (Sending h s) (Closed ex t)"
  using assms
proof (induction env h s rule: capnp_loop.induct)
  case (1 env h s)
  show ?case
  proof (cases "capnp_round env h s")
    case (Inl out)
    with "1.prems" have "capnp_moves env target (Sending h s) (Closed ex t)"
      by (auto simp: capnp_loop.simps [of env h s] intro: capnp_moves.close)
    then show ?thesis by blast
  next
    case (Inr u)
    with "1.prems" have "capnp_close env target h (capnp_loop env h u) = (ex, t)"
      by (simp add: capnp_loop.simps [of env h s])
    from "1.IH" [OF Inr this] capnp_moves.go_on [OF Inr, of target] show ?thesis
      by (meson converse_rtranclp_into_rtranclp)
  qed
qed

section \<open>The simulation relation\<close>

definition sound_run :: "bytes list \<Rightarrow> nat \<Rightarrow> 'v capnp_run \<Rightarrow> bool" where
  "sound_run cs k s \<longleftrightarrow> is_opened (cr_stream (k_reader s)) \<and> k \<le> length cs \<and>
     delivered (k_reader s) = drop k cs"

fun capnp_final :: "'v capnp_state \<Rightarrow> 'v capnp_run" where
  "capnp_final (Sending h s) = s"
| "capnp_final (Closed ex s) = s"

fun capnp_result :: "string list \<Rightarrow> 'v capnp_state \<Rightarrow> bool option" where
  "capnp_result E (Sending h s) = None"
| "capnp_result E (Closed ex s) = Some (ex = None \<and> errors (k_metrics s) = E)"

definition capnp_rel ::
  "bytes list \<Rightarrow> string list \<Rightarrow> nat \<Rightarrow> 'v capnp_state \<Rightarrow> transfer \<Rightarrow> bool" where
  "capnp_rel cs E r0 x a \<longleftrightarrow>
     (\<exists>k b. a = Transfer {..<k} b (capnp_result E x) \<and> k \<le> length cs \<and> b \<subseteq> {k} \<and>
        k_verified (capnp_final x) = (\<Sum>i<k. sz (cs ! i)) \<and>
        k_chunks_sent (capnp_final x) = of_nat k \<and>
        length (chunk_rtt_us (k_metrics (capnp_final x))) = r0 + k + card b \<and>
        (case x of
           Sending h s \<Rightarrow> b = {} \<and> sound_run cs k s \<and> errors (k_metrics s) = E
         | Closed ex s \<Rightarrow> b \<noteq> {} \<longrightarrow> ex \<noteq> None \<or> errors (k_metrics s) \<noteq> E))"

section \<open>The passes of the loop\<close>

lemma round_chunk:
  assumes "sound_run cs k s" "fst (next_chunk (k_reader s)) \<noteq> []"
  shows "k < length cs" "fst (next_chunk (k_reader s)) = cs ! k"
    "delivered (snd (next_chunk (k_reader s))) = drop (Suc k) cs"
proof -
  let ?r = "k_reader s"
  have d: "drop k cs = fst (next_chunk ?r) # delivered (snd (next_chunk ?r))"
    using delivered_step [OF prod.collapse [symmetric], of ?r] assms by (simp add: sound_run_def)
  then show k: "k < length cs" by (cases "k < length cs") auto
  with d show "fst (next_chunk ?r) = cs ! k" "delivered (snd (next_chunk ?r)) = drop (Suc k) cs"
    by (simp_all add: Cons_nth_drop_Suc [symmetric])
qed

lemma sound_run_next:
  assumes "sound_run cs k s" "fst (next_chunk (k_reader s)) \<noteq> []"
    "k_reader t = snd (next_chunk (k_reader s))"
  shows "sound_run cs (Suc k) t"
  using assms round_chunk [OF assms(1,2)] next_chunk_any(3) [OF prod.collapse [symmetric], of "k_reader s"]
  by (simp add: sound_run_def)

lemma capnp_rel_go_on:
  assumes "capnp_rel cs E r0 (Sending h s) a" "capnp_round env h s = Inr t"
  shows "\<exists>b. transfer_run (length cs) a b \<and> capnp_rel cs E r0 (Sending h t) b"
proof -
  obtain k where a: "a = Transfer {..<k} {} None" and k: "sound_run cs k s"
    "k_verified s = (\<Sum>i<k. sz (cs ! i))" "k_chunks_sent s = of_nat k"
    "length (chunk_rtt_us (k_metrics s)) = r0 + k" "errors (k_metrics s) = E"
    using assms(1) by (auto simp: capnp_rel_def)
  let ?d = "fst (next_chunk (k_reader s))"
  obtain v where t: "?d \<noteq> []" "t = round_done env ?d v s"
    using capnp_round_goes_on [OF assms(2) prod.collapse [symmetric]] by metis
  note c = round_chunk [OF k(1) t(1)]
  have "transfer_step (length cs) a (Transfer {..<Suc k} {} None)"
    using c(1) by (simp add: a lessThan_Suc transfer_step.right)
  moreover have "sound_run cs (Suc k) t" by (rule sound_run_next [OF k(1) t(1)]) (simp add: t(2))
  moreover have "k_verified t = (\<Sum>i<Suc k. sz (cs ! i))" "k_chunks_sent t = of_nat (Suc k)"
    "length (chunk_rtt_us (k_metrics t)) = r0 + Suc k" "errors (k_metrics t) = E"
    using k(2-) by (simp_all add: t(2) round_done_def c(2) record_chunk_sent_def record_chunk_rtt_us_def
        add.commute)
  ultimately show ?thesis
    using c(1) by (intro exI [of _ "Transfer {..<Suc k} {} None"]) (auto simp: capnp_rel_def)
qed

text \<open>Leaving the loop: at the end of the file, on an exception, or on a wrong answer.\<close>

lemma round_leaves:
  assumes "capnp_round env h s = Inl (ex, t)"
  shows "k_verified t = k_verified s" "k_chunks_sent t = k_chunks_sent s"
    and "length (chunk_rtt_us (k_metrics t)) = length (chunk_rtt_us (k_metrics s)) \<or>
         length (chunk_rtt_us (k_metrics t)) = Suc (length (chunk_rtt_us (k_metrics s))) \<and>
         fst (next_chunk (k_reader s)) \<noteq> [] \<and> errors (k_metrics t) \<noteq> errors (k_metrics s)"
  using assms
  by (auto simp: capnp_round_def Let_def log_error_def record_chunk_sent_def
      record_chunk_rtt_us_def split: prod.splits sum.splits if_splits)

lemma close_keeps:
  assumes "capnp_close env target h (ex, t) = (ex', u)"
  shows "k_verified u = k_verified t" "k_chunks_sent u = k_chunks_sent t"
    "chunk_rtt_us (k_metrics u) = chunk_rtt_us (k_metrics t)"
    "\<exists>es. errors (k_metrics u) = errors (k_metrics t) @ es" "ex' = None \<Longrightarrow> ex = None"
    "ex' = None \<Longrightarrow> errors (k_metrics u) = errors (k_metrics t) \<Longrightarrow> k_verified u = target"
  using assms
  by (auto simp: capnp_close_def Let_def set_total_transaction_time_ms_def log_error_def
      split: option.splits prod.splits if_splits)

lemma capnp_rel_close:
  assumes "capnp_rel cs E r0 (Sending h s) a" "capnp_round env h s = Inl (ex, t)"
    and "capnp_close env target h (ex, t) = (ex', u)"
  shows "\<exists>b. transfer_run (length cs) a b \<and> capnp_rel cs E r0 (Closed ex' u) b"
proof -
  obtain k where a: "a = Transfer {..<k} {} None" and k: "sound_run cs k s"
    "k_verified s = (\<Sum>i<k. sz (cs ! i))" "k_chunks_sent s = of_nat k"
    "length (chunk_rtt_us (k_metrics s)) = r0 + k" "errors (k_metrics s) = E" "k \<le> length cs"
    using assms(1) by (auto simp: capnp_rel_def)
  note l = round_leaves [OF assms(2)] and c = close_keeps [OF assms(3)]
  obtain es where es: "errors (k_metrics t) = E @ es" using capnp_round_errors [OF assms(2)] k(5) by auto
  obtain fs where fs: "errors (k_metrics u) = E @ es @ fs" using c(4) es by auto
  let ?ok = "ex' = None \<and> errors (k_metrics u) = E"
  show ?thesis
  proof (cases "length (chunk_rtt_us (k_metrics t)) = length (chunk_rtt_us (k_metrics s))")
    case True
    have "k = length cs" if ?ok
    proof -
      have "ex = None" "errors (k_metrics t) = errors (k_metrics s)" using that c(5) fs es k(5) by auto
      moreover have "is_opened (cr_stream (k_reader s))" using k(1) by (simp add: sound_run_def)
      ultimately have "delivered (k_reader s) = []" using capnp_round_stops assms(2) by blast
      then have "drop k cs = []" using k(1) by (simp add: sound_run_def)
      with k(6) show ?thesis by simp
    qed
    then have "transfer_run (length cs) a (Transfer {..<k} {} (Some ?ok))"
      unfolding a by (intro transfer_run_close) (use k(6) in auto)
    moreover have "capnp_rel cs E r0 (Closed ex' u) (Transfer {..<k} {} (Some ?ok))"
      using k l(1,2) c(1-3) True by (auto simp: capnp_rel_def)
    ultimately show ?thesis by blast
  next
    case False
    with l(3) have w: "length (chunk_rtt_us (k_metrics t)) = Suc (length (chunk_rtt_us (k_metrics s)))"
      "fst (next_chunk (k_reader s)) \<noteq> []" "errors (k_metrics t) \<noteq> errors (k_metrics s)" by auto
    then have bad: "errors (k_metrics u) \<noteq> E" using fs es k(5) by auto
    have "transfer_step (length cs) a (Transfer {..<k} {k} None)"
      using round_chunk(1) [OF k(1) w(2)] by (simp add: a transfer_step.wrong)
    moreover have "transfer_step (length cs) (Transfer {..<k} {k} None) (Transfer {..<k} {k} (Some ?ok))"
      using bad by (simp add: transfer_step.failure)
    moreover have "capnp_rel cs E r0 (Closed ex' u) (Transfer {..<k} {k} (Some ?ok))"
      using k l(1,2) c(1-3) w(1) bad by (auto simp: capnp_rel_def)
    ultimately show ?thesis by (meson rtranclp.rtrancl_into_rtrancl rtranclp.rtrancl_refl)
  qed
qed

interpretation capnp_client_transfer:
  transfer_refinement "length cs" "capnp_moves env target" "capnp_rel cs E r0" "capnp_result E"
    "\<lambda>x. k_verified (capnp_final x)" "\<lambda>i. sz (cs ! i)" for cs E r0 env target
proof unfold_locales
  fix x y :: "'a capnp_state" and a
  assume r: "capnp_rel cs E r0 x a"
  show "\<exists>b. transfer_run (length cs) a b \<and> capnp_rel cs E r0 y b" if "capnp_moves env target x y"
    using that
  proof cases
    case (go_on h s t)
    with capnp_rel_go_on r show ?thesis by blast
  next
    case (close h s out ex t)
    with capnp_rel_close [of cs E r0 h s a env] r show ?thesis by (cases out) auto
  qed
  show "tr_outcome a = capnp_result E x" "k_verified (capnp_final x) = (\<Sum>i \<in> tr_good a. sz (cs ! i))"
    using r by (auto simp: capnp_rel_def)
qed

section \<open>Properties\<close>

lemma capnp_try_moves:
  assumes "capnp_try env fs f csz target m v = (ex, m', v')" "cr_new fs f csz = Inr r"
  shows "ex \<noteq> None \<and> m' = m \<or>
    (\<exists>h w t. (capnp_moves env target)\<^sup>*\<^sup>*
       (Sending h \<lparr>k_reader = r, k_metrics = m, k_chunks_sent = 0, k_verified = 0, k_service = w, k_ticks = 1\<rparr>)
       (Closed ex t) \<and> m' = k_metrics t)"
proof (cases "ke_connect env")
  case (Some e)
  with assms(1) show ?thesis by (auto simp: capnp_try_def)
next
  case None
  obtain z w where z: "ke_start env v = (z, w)" by fastforce
  show ?thesis
  proof (cases z)
    case (Inl e)
    with None z assms(1) show ?thesis by (auto simp: capnp_try_def)
  next
    case (Inr h)
    let ?s = "\<lparr>k_reader = r, k_metrics = m, k_chunks_sent = 0, k_verified = 0, k_service = w, k_ticks = 1\<rparr>"
    obtain ex1 t where t: "capnp_close env target h (capnp_loop env h ?s) = (ex1, t)" by fastforce
    with None z Inr assms have "ex1 = ex" "m' = k_metrics t" by (simp_all add: capnp_try_def)
    with loop_moves [OF t] show ?thesis by blast
  qed
qed



end
