(* ===== verification/Grpc_Server.thy ===== *)
theory Grpc_Server
  imports Common Text_Format
begin

text \<open>
  The gRPC server (src/grpc_app/grpc_server.cpp). The bidirectional stream of one call is the
  list of the requests the client will have sent when it is done, and the outcome of each
  \<open>Write\<close>; identifiers are 64-bit words, since the code only copies them.
\<close>

record chunk_request =
  data_chunk :: bytes
  client_assigned_chunk_id :: u64

record chunk_response =
  reversed_chunk_data :: bytes
  original_client_chunk_id :: u64

datatype status = Status_OK | Status_error int string

section \<open>One request and a whole call\<close>

text \<open>The body of the loop up to the \<open>Write\<close>.\<close>

definition make_response :: "chunk_request \<Rightarrow> chunk_response" where
  "make_response request =
     (let client_id_from_request = client_assigned_chunk_id request;
          chunk_vec_data = reverse_bytes (data_chunk request)
      in \<lparr>reversed_chunk_data = chunk_vec_data, original_client_chunk_id = client_id_from_request\<rparr>)"

text \<open>
  \<open>write_ok k\<close> is the outcome of the \<open>k\<close>-th \<open>Write\<close>. The result is what was written, the
  number of chunks processed and the status of the call; 2 is \<open>UNKNOWN\<close>.
\<close>

fun process_file_chunks ::
  "(nat \<Rightarrow> bool) \<Rightarrow> nat \<Rightarrow> chunk_request list \<Rightarrow> chunk_response list \<times> nat \<times> status" where
  "process_file_chunks write_ok count [] = ([], count, Status_OK)"
| "process_file_chunks write_ok count (request # rest) =
     (let response = make_response request
      in if \<not> write_ok count
         then ([], count + 1, Status_error 2 ''Server failed to write response to stream.'')
         else (case process_file_chunks write_ok (count + 1) rest of
                 (written, n, st) \<Rightarrow> (response # written, n, st)))"

definition GRPC_SERVER_ADDRESS :: string where
  "GRPC_SERVER_ADDRESS = ''127.0.0.1''"

definition GRPC_SERVER_PORT :: int where
  "GRPC_SERVER_PORT = 50051"

definition grpc_server_address :: string where
  "grpc_server_address = GRPC_SERVER_ADDRESS @ '':'' @ int_to_dec GRPC_SERVER_PORT"

lemma process_file_chunks_prefix:
  "process_file_chunks write_ok count reqs = (written, n, st) \<Longrightarrow>
   written = map make_response (take (length written) reqs) \<and>
   (if st = Status_OK then length written = length reqs \<and> n = count + length reqs
    else length written < length reqs \<and> \<not> write_ok (count + length written) \<and>
         n = count + length written + 1)"
proof (induction write_ok count reqs arbitrary: written n st rule: process_file_chunks.induct)
  case (2 write_ok count request rest)
  show ?case
  proof (cases "write_ok count")
    case False
    with "2.prems" show ?thesis by (auto simp: Let_def)
  next
    case True
    with "2.prems" obtain w where w: "process_file_chunks write_ok (count + 1) rest = (w, n, st)"
      "written = make_response request # w"
      by (auto simp: Let_def split: prod.splits)
    from "2.IH" [OF refl _ w(1)] True w(2) show ?thesis by (auto split: if_splits)
  qed
qed auto

lemma process_file_chunks_writes:
  "process_file_chunks write_ok count reqs = (written, n, st) \<Longrightarrow>
   \<forall>k < length written. write_ok (count + k)"
proof (induction write_ok count reqs arbitrary: written n st rule: process_file_chunks.induct)
  case (2 write_ok count request rest)
  show ?case
  proof (cases "write_ok count")
    case False
    with "2.prems" show ?thesis by (auto simp: Let_def)
  next
    case True
    with "2.prems" obtain w where w: "process_file_chunks write_ok (count + 1) rest = (w, n, st)"
      "written = make_response request # w"
      by (auto simp: Let_def split: prod.splits)
    have "\<forall>k < length w. write_ok (Suc count + k)"
      using "2.IH" [OF refl _ w(1)] True by simp
    with True w(2) show ?thesis by (auto simp: less_Suc_eq_0_disj)
  qed
qed simp

lemma process_file_chunks_ok:
  "(\<And>k. write_ok k) \<Longrightarrow>
   process_file_chunks write_ok count reqs =
     (map make_response reqs, count + length reqs, Status_OK)"
  by (induction reqs arbitrary: count) simp_all

end
