(* ===== verification/Grpc_Client.thy ===== *)
theory Grpc_Client
  imports Grpc_Server Chunk_Reader File_Gen Metrics "HOL-Library.AList"
begin

text \<open>
  The gRPC client (src/grpc_app/grpc_client.cpp). \<open>ProcessFile\<close> runs two threads over a
  bidirectional stream: the writer reads chunks, sends them and enters them into the map of
  requests in flight; the reader takes the responses, looks them up in the map and verifies
  them. A step of the model is what one thread does between two points where the other
  can interfere: acquiring the mutex or the condition variable, an operation of the stream,
  or an access to an atomic. The map is an association list with one entry for each key.

  The environment is the server (\<open>ge_serve\<close>, any number of responses to each request), the
  size of a serialised request (\<open>ge_byte_size\<close>), the clock, and when the stream breaks.
  Spurious wake-ups are left out: the predicate of the wait sends the thread back to sleep.
\<close>

section \<open>State\<close>

record sent_chunk_info =
  client_assigned_id :: u64
  original_payload_size :: u64
  on_wire_request_size_bytes :: u64
  original_data_for_verification :: bytes
  time_sent :: int

datatype writer_pc = W_wait | W_sleep | W_read | W_write sent_chunk_info
  | W_insert sent_chunk_info | W_finish | W_done | W_exit

datatype reader_pc = R_read | R_lookup chunk_response int
  | R_found chunk_response int sent_chunk_info | R_join | R_exit

record grpc_client =
  g_reader :: chunk_reader
  g_wpc :: writer_pc
  g_counter :: u64
  g_rpc :: reader_pc
  g_map :: "(u64 \<times> sent_chunk_info) list"
  g_finished :: bool
  g_broken :: bool
  g_sent :: u64
  g_received :: u64
  g_verified :: u64
  g_metrics :: metrics_aggregator
  g_start :: int
  g_requests :: "chunk_request list"
  g_replies :: "chunk_response list"
  g_writes_done :: bool
  g_alive :: bool

record grpc_env =
  ge_serve :: "chunk_request \<Rightarrow> chunk_response list"
  ge_byte_size :: "chunk_request \<Rightarrow> u64"

definition MAX_INFLIGHT_REQUESTS :: nat where
  "MAX_INFLIGHT_REQUESTS = 2000"

section \<open>The writer\<close>

text \<open>\<open>cv_can_send.wait\<close>: the predicate is tested under the lock before sleeping.\<close>

definition writer_wait :: "grpc_client \<Rightarrow> grpc_client" where
  "writer_wait s =
     (if length (g_map s) < MAX_INFLIGHT_REQUESTS then s\<lparr>g_wpc := W_read\<rparr>
      else s\<lparr>g_wpc := W_sleep\<rparr>)"

definition request_of :: "sent_chunk_info \<Rightarrow> chunk_request" where
  "request_of i = \<lparr>data_chunk = original_data_for_verification i,
                   client_assigned_chunk_id = client_assigned_id i\<rparr>"

definition writer_read :: "grpc_env \<Rightarrow> int \<Rightarrow> grpc_client \<Rightarrow> grpc_client" where
  "writer_read env now s =
     (case next_chunk (g_reader s) of (chunk, r) \<Rightarrow>
        let s = s\<lparr>g_reader := r\<rparr>
        in if chunk = [] \<and> cr_eof r then s\<lparr>g_wpc := W_finish\<rparr>
           else if chunk = [] \<and> \<not> cr_eof r
           then s\<lparr>g_metrics := log_error
                    ''gRPC Client (Writer): Error reading chunk or empty chunk before EOF.'' (g_metrics s),
                  g_broken := True, g_wpc := W_exit\<rparr>
           else let n = g_counter s + 1;
                    request = \<lparr>data_chunk = chunk, client_assigned_chunk_id = n\<rparr>
                in s\<lparr>g_counter := n,
                     g_wpc := W_write \<lparr>client_assigned_id = n, original_payload_size = sz chunk,
                       on_wire_request_size_bytes = ge_byte_size env request,
                       original_data_for_verification = chunk, time_sent = now\<rparr>\<rparr>)"

definition writer_write :: "sent_chunk_info \<Rightarrow> grpc_client \<Rightarrow> grpc_client" where
  "writer_write i s =
     (if \<not> g_alive s then s\<lparr>g_broken := True, g_wpc := W_finish\<rparr>
      else s\<lparr>g_requests := g_requests s @ [request_of i], g_wpc := W_insert i\<rparr>)"

definition writer_insert :: "sent_chunk_info \<Rightarrow> grpc_client \<Rightarrow> grpc_client" where
  "writer_insert i s =
     s\<lparr>g_sent := g_sent s + 1, g_map := AList.update (client_assigned_id i) i (g_map s),
       g_wpc := W_wait\<rparr>"

definition writer_finish :: "grpc_client \<Rightarrow> grpc_client" where
  "writer_finish s =
     (let s = s\<lparr>g_finished := True\<rparr>
      in if \<not> g_broken s then s\<lparr>g_wpc := W_done\<rparr> else s\<lparr>g_wpc := W_exit\<rparr>)"

text \<open>\<open>WritesDone\<close>; the \<open>notify_all\<close> after it finds nobody waiting, since only the writer waits.\<close>

definition writer_done :: "grpc_client \<Rightarrow> grpc_client" where
  "writer_done s = s\<lparr>g_writes_done := True, g_wpc := W_exit\<rparr>"

section \<open>The reader\<close>

definition reader_lookup :: "chunk_response \<Rightarrow> int \<Rightarrow> grpc_client \<Rightarrow> grpc_client" where
  "reader_lookup response received_at s =
     (let cid = original_client_chunk_id response
      in case map_of (g_map s) cid of
           Some i \<Rightarrow> s\<lparr>g_map := AList.delete cid (g_map s), g_rpc := R_found response received_at i\<rparr>
         | None \<Rightarrow> s\<lparr>g_metrics := log_error
               (''gRPC Client (Reader): Warning - received response for client_id '' @ u64_to_dec cid
                @ '', but no such request was in flight map. Processed responses: ''
                @ u64_to_dec (g_received s) @ ''. Map size: '' @ u64_to_dec (sz (g_map s)))
               (g_metrics s), g_rpc := R_read\<rparr>)"

definition notify_one :: "grpc_client \<Rightarrow> grpc_client" where
  "notify_one s = (if g_wpc s = W_sleep then s\<lparr>g_wpc := W_wait\<rparr> else s)"

definition verification_failed :: "u64 \<Rightarrow> string \<Rightarrow> string" where
  "verification_failed cid why = ''VERIFICATION FAILED for client_id '' @ u64_to_dec cid @ why"

definition reader_found ::
  "chunk_response \<Rightarrow> int \<Rightarrow> sent_chunk_info \<Rightarrow> grpc_client \<Rightarrow> grpc_client" where
  "reader_found response received_at i s =
     (let s = notify_one s;
          m = record_chunk_rtt_us (tdiv (received_at - time_sent i) 1000) (g_metrics s);
          m = record_chunk_sent (original_payload_size i) (on_wire_request_size_bytes i) m;
          s = s\<lparr>g_received := g_received s + 1, g_metrics := m, g_rpc := R_read\<rparr>;
          expected = reverse_bytes (original_data_for_verification i);
          received = reversed_chunk_data response
      in if sz received \<noteq> sz expected
         then s\<lparr>g_metrics := log_error (verification_failed (client_assigned_id i)
                  (''. Size mismatch. Expected '' @ u64_to_dec (sz expected)
                   @ '', got '' @ u64_to_dec (sz received))) m\<rparr>
         else if received \<noteq> expected
         then s\<lparr>g_metrics := log_error (verification_failed (client_assigned_id i)
                  ''. Content mismatch.'') m\<rparr>
         else s\<lparr>g_verified := g_verified s + original_payload_size i\<rparr>)"

text \<open>After the writer has been joined: what is left in the map, the status, the totals.\<close>

definition reader_finish :: "status \<Rightarrow> int \<Rightarrow> grpc_client \<Rightarrow> grpc_client" where
  "reader_finish st now s =
     (let m = (if g_map s \<noteq> []
               then log_error (''gRPC Client: Warning - '' @ u64_to_dec (sz (g_map s))
                      @ '' requests remaining in flight map after stream completion.'') (g_metrics s)
               else g_metrics s);
          m = set_total_transaction_time_ms (tdiv (now - g_start s) 1000000) m;
          m = (case st of
                 Status_OK \<Rightarrow> m
               | Status_error code msg \<Rightarrow>
                   log_error (''gRPC Client: RPC failed. Final Status - Error code: ''
                     @ int_to_dec code @ '', message: '' @ msg) m);
          m = (if g_finished s \<and> \<not> g_broken s \<and> st = Status_OK \<and> g_verified s \<noteq> ACTUAL_FILE_SIZE_BYTES
               then log_error (''Potential data loss or incomplete processing: Verified bytes (''
                      @ u64_to_dec (g_verified s) @ '') != Expected total bytes (''
                      @ u64_to_dec ACTUAL_FILE_SIZE_BYTES @ '')'') m
               else m)
      in s\<lparr>g_metrics := m, g_rpc := R_exit\<rparr>)"

section \<open>The threads, the server and the stream together\<close>

text \<open>
  \<open>Read\<close> delivers the next response; it returns false once the stream is broken, or when the
  writer has finished and the server has answered everything. A broken stream ends with a
  status that is not \<open>OK\<close>.
\<close>

inductive g_step :: "grpc_env \<Rightarrow> grpc_client \<Rightarrow> grpc_client \<Rightarrow> bool" for env where
  wait: "g_wpc s = W_wait \<Longrightarrow> g_step env s (writer_wait s)"
| read: "g_wpc s = W_read \<Longrightarrow> g_step env s (writer_read env now s)"
| send: "g_wpc s = W_write i \<Longrightarrow> g_step env s (writer_write i s)"
| insert: "g_wpc s = W_insert i \<Longrightarrow> g_step env s (writer_insert i s)"
| finish: "g_wpc s = W_finish \<Longrightarrow> g_step env s (writer_finish s)"
| writes_done: "g_wpc s = W_done \<Longrightarrow> g_step env s (writer_done s)"
| serve: "g_alive s \<Longrightarrow> g_requests s = q # qs \<Longrightarrow>
    g_step env s (s\<lparr>g_requests := qs, g_replies := g_replies s @ ge_serve env q\<rparr>)"
| receive: "g_rpc s = R_read \<Longrightarrow> g_alive s \<Longrightarrow> g_replies s = p # ps \<Longrightarrow>
    g_step env s (s\<lparr>g_replies := ps, g_rpc := R_lookup p now\<rparr>)"
| ended: "g_rpc s = R_read \<Longrightarrow> \<not> g_alive s \<or> (g_writes_done s \<and> g_requests s = [] \<and> g_replies s = []) \<Longrightarrow>
    g_step env s (s\<lparr>g_rpc := R_join\<rparr>)"
| lookup: "g_rpc s = R_lookup p t \<Longrightarrow> g_step env s (reader_lookup p t s)"
| found: "g_rpc s = R_found p t i \<Longrightarrow> g_step env s (reader_found p t i s)"
| join: "g_rpc s = R_join \<Longrightarrow> g_wpc s = W_exit \<Longrightarrow> (st = Status_OK \<longleftrightarrow> g_alive s) \<Longrightarrow>
    g_step env s (reader_finish st now s)"

text \<open>A run, in which the stream may also break at any time (a reset, the deadline).\<close>

inductive g_reach :: "grpc_env \<Rightarrow> grpc_client \<Rightarrow> grpc_client \<Rightarrow> bool" for env s0 where
  start: "g_reach env s0 s0"
| step: "g_reach env s0 s \<Longrightarrow> g_step env s t \<Longrightarrow> g_reach env s0 t"
| breaks: "g_reach env s0 s \<Longrightarrow> g_reach env s0 (s\<lparr>g_alive := False\<rparr>)"

text \<open>
  \<open>ProcessFile\<close> up to the start of the threads; the constructor of the reader may throw,
  and a stub that gives no stream ends the call with an error.
\<close>

definition process_file_start ::
  "fsys \<Rightarrow> string \<Rightarrow> u64 \<Rightarrow> bool \<Rightarrow> int \<Rightarrow> metrics_aggregator \<Rightarrow> exn + (metrics_aggregator + grpc_client)" where
  "process_file_start fs filename chunk_size stream_ok now m =
     (case cr_new fs filename chunk_size of
        Inl e \<Rightarrow> Inl e
      | Inr r \<Rightarrow>
          if \<not> stream_ok
          then Inr (Inl (log_error ''gRPC Client: Failed to create stream. Stub returned nullptr.'' m))
          else Inr (Inr \<lparr>g_reader = r, g_wpc = W_wait, g_counter = 0, g_rpc = R_read, g_map = [],
                         g_finished = False, g_broken = False, g_sent = 0, g_received = 0,
                         g_verified = 0, g_metrics = m, g_start = now, g_requests = [],
                         g_replies = [], g_writes_done = False, g_alive = True\<rparr>))"

definition honest :: "grpc_env \<Rightarrow> bool" where
  "honest env \<longleftrightarrow> (\<forall>q. ge_serve env q = [make_response q])"

section \<open>The invariant\<close>

text \<open>\<open>entry_ok cs k i\<close>: \<open>i\<close> describes one of the first \<open>k\<close> chunks.\<close>

definition entry_ok :: "bytes list \<Rightarrow> nat \<Rightarrow> sent_chunk_info \<Rightarrow> bool" where
  "entry_ok cs k i \<longleftrightarrow> 0 < unat (client_assigned_id i) \<and> unat (client_assigned_id i) \<le> k \<and>
     original_data_for_verification i = cs ! (unat (client_assigned_id i) - 1) \<and>
     original_payload_size i = sz (original_data_for_verification i)"

text \<open>\<open>cs\<close> is what the reader delivers from the start, on a device that may fail.\<close>

definition inv_file :: "bytes list \<Rightarrow> nat \<Rightarrow> grpc_client \<Rightarrow> bool" where
  "inv_file cs n s \<longleftrightarrow>
     is_opened (cr_stream (g_reader s)) \<and> cr_csize (g_reader s) = n \<and> length cs < 2 ^ 64 \<and>
     unat (g_counter s) \<le> length cs \<and> delivered (g_reader s) = drop (unat (g_counter s)) cs"

definition pending_info :: "grpc_client \<Rightarrow> sent_chunk_info option" where
  "pending_info s = (case g_wpc s of W_write i \<Rightarrow> Some i | W_insert i \<Rightarrow> Some i | _ \<Rightarrow> None)"

definition inv_map :: "bytes list \<Rightarrow> grpc_client \<Rightarrow> bool" where
  "inv_map cs s \<longleftrightarrow>
     distinct (map fst (g_map s)) \<and>
     (\<forall>(k, i) \<in> set (g_map s). k = client_assigned_id i \<and> entry_ok cs (unat (g_counter s)) i) \<and>
     (case pending_info s of
        None \<Rightarrow> True
      | Some i \<Rightarrow> client_assigned_id i = g_counter s \<and> entry_ok cs (unat (g_counter s)) i \<and>
                  g_counter s \<notin> fst ` set (g_map s)) \<and>
     (case g_rpc s of
        R_found p t i \<Rightarrow> entry_ok cs (unat (g_counter s)) i \<and>
                         original_client_chunk_id p = client_assigned_id i
      | _ \<Rightarrow> True)"

definition inv_window :: "grpc_client \<Rightarrow> bool" where
  "inv_window s \<longleftrightarrow>
     length (g_map s) \<le> MAX_INFLIGHT_REQUESTS \<and>
     (case g_wpc s of
        W_read \<Rightarrow> length (g_map s) < MAX_INFLIGHT_REQUESTS
      | W_write i \<Rightarrow> length (g_map s) < MAX_INFLIGHT_REQUESTS
      | W_insert i \<Rightarrow> length (g_map s) < MAX_INFLIGHT_REQUESTS
      | W_sleep \<Rightarrow> length (g_map s) = MAX_INFLIGHT_REQUESTS \<or> (\<exists>p t i. g_rpc s = R_found p t i)
      | _ \<Rightarrow> True)"

definition inv_flow :: "bytes list \<Rightarrow> grpc_client \<Rightarrow> bool" where
  "inv_flow cs s \<longleftrightarrow>
     (g_broken s \<longrightarrow> \<not> g_alive s \<and> g_wpc s \<in> {W_finish, W_exit} \<and> g_counter s \<noteq> 0) \<and>
     (g_wpc s \<in> {W_finish, W_done, W_exit} \<longrightarrow> g_broken s \<or> unat (g_counter s) = length cs) \<and>
     (g_finished s \<longleftrightarrow> g_wpc s \<in> {W_done, W_exit}) \<and>
     (g_writes_done s \<longleftrightarrow> g_wpc s = W_exit \<and> \<not> g_broken s) \<and>
     (g_rpc s \<in> {R_join, R_exit} \<and> g_alive s \<longrightarrow> g_writes_done s) \<and>
     (g_rpc s = R_exit \<longrightarrow> g_wpc s = W_exit)"

definition g_inv :: "bytes list \<Rightarrow> nat \<Rightarrow> grpc_client \<Rightarrow> bool" where
  "g_inv cs n s \<longleftrightarrow> inv_file cs n s \<and> inv_map cs s \<and> inv_window s \<and> inv_flow cs s"

lemma length_delete_Suc:
  "distinct (map fst xs) \<Longrightarrow> map_of xs k = Some v \<Longrightarrow> length xs = Suc (length (AList.delete k xs))"
proof (induction xs)
  case (Cons x xs)
  then show ?case by (cases x) (auto simp: AList.delete_id split: if_splits)
qed simp

lemma set_delete: "set (AList.delete k xs) = {x \<in> set xs. fst x \<noteq> k}"
  by (auto simp: AList.delete_eq)

lemma update_new: "k \<notin> fst ` set xs \<Longrightarrow> AList.update k v xs = xs @ [(k, v)]"
  by (induction xs) auto

lemma entry_mono: "entry_ok cs k i \<Longrightarrow> k \<le> l \<Longrightarrow> entry_ok cs l i"
  by (simp add: entry_ok_def)

lemmas g_inv_defs = g_inv_def inv_file_def inv_map_def inv_window_def inv_flow_def pending_info_def

subsection \<open>The writer's steps\<close>

lemma writer_wait_inv: "g_inv cs n s \<Longrightarrow> g_wpc s = W_wait \<Longrightarrow> g_inv cs n (writer_wait s)"
  by (auto simp: g_inv_defs writer_wait_def split: reader_pc.splits)

lemma writer_read_chunk:
  assumes "inv_file cs n s" "unat (g_counter s) < length cs"
  shows "writer_read env now s =
      (let n = g_counter s + 1; chunk = cs ! unat (g_counter s);
           request = \<lparr>data_chunk = chunk, client_assigned_chunk_id = n\<rparr>
       in s\<lparr>g_reader := snd (next_chunk (g_reader s)), g_counter := n,
            g_wpc := W_write \<lparr>client_assigned_id = n, original_payload_size = sz chunk,
              on_wire_request_size_bytes = ge_byte_size env request,
              original_data_for_verification = chunk, time_sent = now\<rparr>\<rparr>)"
    and "unat (g_counter s + 1) = Suc (unat (g_counter s))"
    and "delivered (snd (next_chunk (g_reader s))) = drop (Suc (unat (g_counter s))) cs"
proof -
  let ?r = "g_reader s" and ?k = "unat (g_counter s)"
  have "delivered ?r = drop ?k cs" "drop ?k cs \<noteq> []" using assms by (simp_all add: inv_file_def)
  then have ne: "fst (next_chunk ?r) \<noteq> []"
    and "drop ?k cs = fst (next_chunk ?r) # delivered (snd (next_chunk ?r))"
    using delivered_step [OF prod.collapse [symmetric], of ?r] by (auto split: if_splits)
  then have d: "fst (next_chunk ?r) = cs ! ?k"
    and "delivered (snd (next_chunk ?r)) = drop (Suc ?k) cs"
    using assms(2) by (simp_all add: Cons_nth_drop_Suc [symmetric])
  then show "delivered (snd (next_chunk ?r)) = drop (Suc ?k) cs" by simp
  from ne d show "writer_read env now s =
      (let n = g_counter s + 1; chunk = cs ! unat (g_counter s);
           request = \<lparr>data_chunk = chunk, client_assigned_chunk_id = n\<rparr>
       in s\<lparr>g_reader := snd (next_chunk (g_reader s)), g_counter := n,
            g_wpc := W_write \<lparr>client_assigned_id = n, original_payload_size = sz chunk,
              on_wire_request_size_bytes = ge_byte_size env request,
              original_data_for_verification = chunk, time_sent = now\<rparr>\<rparr>)"
    by (cases "next_chunk ?r") (simp add: writer_read_def Let_def)
  show "unat (g_counter s + 1) = Suc ?k"
    using assms by (intro unat_Suc_u64) (simp add: inv_file_def)
qed

lemma writer_read_end:
  assumes "inv_file cs n s" "unat (g_counter s) = length cs"
  shows "writer_read env now s = s\<lparr>g_reader := snd (next_chunk (g_reader s)), g_wpc := W_finish\<rparr>"
proof -
  obtain data r where d: "next_chunk (g_reader s) = (data, r)" by fastforce
  have f: "delivered (g_reader s) = []" "is_opened (cr_stream (g_reader s))"
    using assms by (simp_all add: inv_file_def)
  then have "data = []" using delivered_step [OF d] by (simp split: if_splits)
  with next_chunk_any(4) [OF d] f(2) show ?thesis by (simp add: writer_read_def d)
qed

lemma inv_file_next:
  assumes "inv_file cs n s"
  shows "is_opened (cr_stream (snd (next_chunk (g_reader s))))" "cr_csize (snd (next_chunk (g_reader s))) = n"
    "unat (g_counter s) = length cs \<Longrightarrow> delivered (snd (next_chunk (g_reader s))) = []"
proof -
  obtain data r where d: "next_chunk (g_reader s) = (data, r)" by fastforce
  have f: "is_opened (cr_stream (g_reader s))" "cr_csize (g_reader s) = n"
    using assms by (simp_all add: inv_file_def)
  with next_chunk_any [OF d] d
  show "is_opened (cr_stream (snd (next_chunk (g_reader s))))" "cr_csize (snd (next_chunk (g_reader s))) = n"
    by simp_all
  assume "unat (g_counter s) = length cs"
  then have "delivered (g_reader s) = []" using assms by (simp add: inv_file_def)
  then have "data = []" using delivered_step [OF d] by (simp split: if_splits)
  with delivered_end [of "g_reader s" r] d
  show "delivered (snd (next_chunk (g_reader s))) = []" by simp
qed

lemma writer_read_inv:
  assumes "g_inv cs n s" "g_wpc s = W_read"
  shows "g_inv cs n (writer_read env now s)"
proof (cases "unat (g_counter s) = length cs")
  case True
  have f: "inv_file cs n s" using assms(1) by (simp add: g_inv_def)
  from writer_read_end [OF f True] inv_file_next [OF f] assms True show ?thesis
    by (auto simp: g_inv_defs split: reader_pc.splits)
next
  case False
  have f: "inv_file cs n s" using assms(1) by (simp add: g_inv_def)
  then have lt: "unat (g_counter s) < length cs" using False by (simp add: inv_file_def)
  note rd = writer_read_chunk [OF f lt]
  have new: "g_counter s + 1 \<notin> fst ` set (g_map s)"
  proof
    assume "g_counter s + 1 \<in> fst ` set (g_map s)"
    then obtain i where "(g_counter s + 1, i) \<in> set (g_map s)" by auto
    then have "unat (g_counter s + 1) \<le> unat (g_counter s)"
      using assms(1) by (auto simp: g_inv_def inv_map_def entry_ok_def)
    with rd(2) show False by simp
  qed
  have mono: "entry_ok cs (unat (g_counter s)) i \<Longrightarrow> entry_ok cs (Suc (unat (g_counter s))) i" for i
    by (erule entry_mono) simp
  let ?t = "writer_read env now s"
  have "inv_file cs n ?t"
    using rd inv_file_next [OF f] f lt by (auto simp: inv_file_def Let_def)
  moreover have "inv_map cs ?t"
    using assms new rd(2) mono
    by (auto simp: rd(1) g_inv_def inv_map_def pending_info_def Let_def entry_ok_def
        split: reader_pc.splits)
  moreover have "inv_window ?t" "inv_flow cs ?t"
    using assms by (auto simp: rd(1) g_inv_defs Let_def split: reader_pc.splits)
  ultimately show ?thesis by (simp add: g_inv_def)
qed

lemma entry_pos: "entry_ok cs (unat w) i \<Longrightarrow> w \<noteq> 0"
  by (auto simp: entry_ok_def)

lemma inv_map_pending:
  assumes "inv_map cs s" "pending_info s = Some i"
  shows "client_assigned_id i = g_counter s" "entry_ok cs (unat (g_counter s)) i"
    "g_counter s \<notin> fst ` set (g_map s)"
  using assms by (simp_all add: inv_map_def)

lemma writer_write_inv:
  assumes "g_inv cs n s" "g_wpc s = W_write i"
  shows "g_inv cs n (writer_write i s)"
proof -
  have m: "inv_map cs s" using assms(1) by (simp add: g_inv_def)
  have p: "pending_info s = Some i" using assms(2) by (simp add: pending_info_def)
  have "g_counter s \<noteq> 0" using inv_map_pending(2) [OF m p] by (rule entry_pos)
  then have "inv_flow cs (writer_write i s)"
    using assms by (auto simp: g_inv_def inv_flow_def writer_write_def)
  moreover have "inv_map cs (writer_write i s)"
    using m assms(2)
    by (cases "g_rpc s") (simp_all add: inv_map_def pending_info_def writer_write_def)
  ultimately show ?thesis
    using assms by (simp add: g_inv_def inv_file_def inv_window_def writer_write_def)
qed

lemma writer_insert_inv:
  assumes "g_inv cs n s" "g_wpc s = W_insert i"
  shows "g_inv cs n (writer_insert i s)"
proof -
  have m: "inv_map cs s" using assms(1) by (simp add: g_inv_def)
  have p: "pending_info s = Some i" using assms(2) by (simp add: pending_info_def)
  note pi = inv_map_pending [OF m p]
  have t: "writer_insert i s =
      s\<lparr>g_sent := g_sent s + 1, g_map := g_map s @ [(g_counter s, i)], g_wpc := W_wait\<rparr>"
    using pi(1,3) by (simp add: writer_insert_def update_new)
  have "inv_map cs (writer_insert i s)"
    using m pi by (cases "g_rpc s") (simp_all add: t inv_map_def pending_info_def)
  moreover have "inv_window (writer_insert i s)" "inv_flow cs (writer_insert i s)"
    using assms by (auto simp: t g_inv_def inv_window_def inv_flow_def)
  ultimately show ?thesis using assms(1) by (simp add: g_inv_def inv_file_def t)
qed

lemma writer_finish_inv:
  "g_inv cs n s \<Longrightarrow> g_wpc s = W_finish \<Longrightarrow> g_inv cs n (writer_finish s)"
  by (auto simp: g_inv_defs writer_finish_def Let_def split: reader_pc.splits)

lemma writer_done_inv:
  "g_inv cs n s \<Longrightarrow> g_wpc s = W_done \<Longrightarrow> g_inv cs n (writer_done s)"
  by (auto simp: g_inv_defs writer_done_def split: reader_pc.splits)

subsection \<open>The reader's steps, the server's and a break\<close>

lemma reader_lookup_inv:
  assumes "g_inv cs n s" "g_rpc s = R_lookup p t"
  shows "g_inv cs n (reader_lookup p t s)"
proof (cases "map_of (g_map s) (original_client_chunk_id p)")
  case None
  with assms show ?thesis
    by (auto simp: g_inv_defs reader_lookup_def Let_def split: writer_pc.splits)
next
  case (Some i)
  let ?k = "original_client_chunk_id p" and ?t = "reader_lookup p t s"
  have t: "?t = s\<lparr>g_map := AList.delete ?k (g_map s), g_rpc := R_found p t i\<rparr>"
    using Some by (simp add: reader_lookup_def Let_def)
  have m: "inv_map cs s" using assms(1) by (simp add: g_inv_def)
  have mem: "(?k, i) \<in> set (g_map s)" using Some by (rule map_of_SomeD)
  have len: "length (g_map s) = Suc (length (AList.delete ?k (g_map s)))"
    using m Some by (intro length_delete_Suc) (auto simp: inv_map_def)
  have "inv_map cs ?t"
    using m mem by (auto simp: t inv_map_def set_delete pending_info_def AList.distinct_delete
        split: option.splits)
  moreover have "inv_window ?t"
    using assms(1) len by (auto simp: t g_inv_def inv_window_def split: writer_pc.splits)
  moreover have "inv_file cs n ?t" "inv_flow cs ?t"
    using assms by (auto simp: t g_inv_def inv_file_def inv_flow_def)
  ultimately show ?thesis by (simp add: g_inv_def)
qed

text \<open>What \<open>reader_found\<close> comes to: the metrics of one answered chunk, and its verdict.\<close>

definition good_answer :: "chunk_response \<Rightarrow> sent_chunk_info \<Rightarrow> bool" where
  "good_answer p i \<longleftrightarrow> reversed_chunk_data p = rev (original_data_for_verification i)"

definition found_metrics ::
  "chunk_response \<Rightarrow> int \<Rightarrow> sent_chunk_info \<Rightarrow> metrics_aggregator \<Rightarrow> metrics_aggregator" where
  "found_metrics p t i m =
     (let m = record_chunk_sent (original_payload_size i) (on_wire_request_size_bytes i)
                (record_chunk_rtt_us (tdiv (t - time_sent i) 1000) m);
          received = reversed_chunk_data p; expected = rev (original_data_for_verification i)
      in if sz received \<noteq> sz expected
         then log_error (verification_failed (client_assigned_id i)
                (''. Size mismatch. Expected '' @ u64_to_dec (sz expected)
                 @ '', got '' @ u64_to_dec (sz received))) m
         else if received \<noteq> expected
         then log_error (verification_failed (client_assigned_id i) ''. Content mismatch.'') m
         else m)"

lemma reader_found_eq:
  "reader_found p t i s =
     (notify_one s)\<lparr>g_rpc := R_read, g_received := g_received s + 1,
       g_metrics := found_metrics p t i (g_metrics s),
       g_verified := g_verified s + (if good_answer p i then original_payload_size i else 0)\<rparr>"
  by (cases s) (simp add: reader_found_def notify_one_def found_metrics_def good_answer_def Let_def)

lemma found_metrics_errors:
  "errors (found_metrics p t i m) = errors m \<longleftrightarrow> good_answer p i"
  "\<exists>es. errors (found_metrics p t i m) = errors m @ es"
  by (auto simp: found_metrics_def good_answer_def Let_def log_error_def record_chunk_sent_def
      record_chunk_rtt_us_def)

lemma notify_one_frame [simp]:
  "g_reader (notify_one s) = g_reader s" "g_counter (notify_one s) = g_counter s"
  "g_rpc (notify_one s) = g_rpc s" "g_map (notify_one s) = g_map s"
  "g_finished (notify_one s) = g_finished s" "g_broken (notify_one s) = g_broken s"
  "g_requests (notify_one s) = g_requests s" "g_replies (notify_one s) = g_replies s"
  "g_writes_done (notify_one s) = g_writes_done s" "g_alive (notify_one s) = g_alive s"
  "g_verified (notify_one s) = g_verified s" "g_metrics (notify_one s) = g_metrics s"
  "g_wpc (notify_one s) = (if g_wpc s = W_sleep then W_wait else g_wpc s)"
  by (simp_all add: notify_one_def)

lemma reader_found_inv:
  assumes "g_inv cs n s" "g_rpc s = R_found p t i"
  shows "g_inv cs n (reader_found p t i s)"
  using assms by (cases "g_wpc s") (simp_all add: g_inv_defs reader_found_eq, auto)

lemma reader_finish_inv:
  assumes "g_inv cs n s" "g_rpc s = R_join" "g_wpc s = W_exit"
  shows "g_inv cs n (reader_finish st now s)"
  using assms by (auto simp: g_inv_defs reader_finish_def Let_def)

lemma g_step_inv:
  assumes "g_step env s t" "g_inv cs n s"
  shows "g_inv cs n t"
  using assms
proof (cases rule: g_step.cases)
  case (serve q qs)
  with assms(2) show ?thesis by (cases "g_rpc s"; cases "g_wpc s") (simp_all add: g_inv_defs)
next
  case (receive p ps now)
  with assms(2) show ?thesis by (auto simp: g_inv_defs split: writer_pc.splits)
next
  case ended
  with assms(2) show ?thesis by (auto simp: g_inv_defs split: writer_pc.splits)
qed (use assms(2) in \<open>simp_all add: writer_wait_inv writer_read_inv writer_write_inv
  writer_insert_inv writer_finish_inv writer_done_inv reader_lookup_inv reader_found_inv
  reader_finish_inv\<close>)

lemma g_break_inv: "g_inv cs n s \<Longrightarrow> g_inv cs n (s\<lparr>g_alive := False\<rparr>)"
  by (cases "g_rpc s"; cases "g_wpc s") (simp_all add: g_inv_defs, auto)

lemma g_reach_inv: "g_reach env s0 s \<Longrightarrow> g_inv cs n s0 \<Longrightarrow> g_inv cs n s"
  by (induction rule: g_reach.induct) (auto intro: g_step_inv g_break_inv)

text \<open>A call that starts its threads, on any device: the chunks its reader will deliver.\<close>

lemma process_file_start_any:
  assumes "process_file_start fs f csz ok now m = Inr (Inr s)"
    and "fs_files fs f = Some bs" "fits bs"
  shows "g_inv (delivered (g_reader s)) (unat csz) s" "g_metrics s = m" "g_rpc s = R_read"
    "g_wpc s = W_wait" "g_map s = []" "g_requests s = []" "g_replies s = []" "g_alive s"
    "g_verified s = 0" "g_counter s = 0" "\<not> g_writes_done s" "\<not> g_broken s" "cr_left (g_reader s) = bs"
proof -
  obtain r where r: "cr_new fs f csz = Inr r" and ok
    using assms(1) by (auto simp: process_file_start_def split: sum.splits if_splits)
  have a: "cr_left r = bs" "cr_csize r = unat csz" "is_opened (cr_stream r)"
    using cr_new_any [OF r] assms(2) by simp_all
  have "length (delivered r) < 2 ^ 64"
    using delivered_length [of r] assms(3) a(1) by (simp add: fits_def)
  moreover have s: "s = \<lparr>g_reader = r, g_wpc = W_wait, g_counter = 0, g_rpc = R_read, g_map = [],
      g_finished = False, g_broken = False, g_sent = 0, g_received = 0, g_verified = 0, g_metrics = m,
      g_start = now, g_requests = [], g_replies = [], g_writes_done = False, g_alive = True\<rparr>"
    using assms(1) r \<open>ok\<close> by (simp add: process_file_start_def)
  ultimately show "g_inv (delivered (g_reader s)) (unat csz) s"
    using a by (auto simp: g_inv_defs MAX_INFLIGHT_REQUESTS_def)
  show "g_metrics s = m" "g_rpc s = R_read"
    "g_wpc s = W_wait" "g_map s = []" "g_requests s = []" "g_replies s = []" "g_alive s"
    "g_verified s = 0" "g_counter s = 0" "\<not> g_writes_done s" "\<not> g_broken s" "cr_left (g_reader s) = bs"
    using a(1) by (simp_all add: s)
qed

lemma process_file_start_inv:
  assumes "readable fs f bs" "fits bs" "0 < unat csz"
  obtains s where "process_file_start fs f csz True now m = Inr (Inr s)"
    "delivered (g_reader s) = chunks_of (unat csz) bs"
proof -
  obtain r where r: "cr_new fs f csz = Inr r" using cr_new_sound [OF assms] by metis
  with delivered_new [OF assms r] show ?thesis
    by (intro that) (auto simp: process_file_start_def)
qed

end
