(* ===== verification/Grpc_Runs.thy ===== *)
theory Grpc_Runs
  imports Grpc_Client
begin

text \<open>
  What the runs of the gRPC client come to: the books of the bytes sent, verified and still
  in flight; the two threads never block each other unless the map is full of entries that
  no response will remove; a run on an unbroken stream has a bounded number of steps; and
  the window between \<open>Write\<close> and the insertion into the map, through which a response can be
  lost.
\<close>

section \<open>The books\<close>

abbreviation payload_of :: "u64 \<times> sent_chunk_info \<Rightarrow> u64" where
  "payload_of e \<equiv> original_payload_size (snd e)"

definition unanswered :: "grpc_client \<Rightarrow> u64" where
  "unanswered s = sum_list (map payload_of (g_map s))"

definition inflight :: "grpc_client \<Rightarrow> u64" where
  "inflight s = unanswered s
     + (case g_wpc s of W_insert i \<Rightarrow> original_payload_size i | _ \<Rightarrow> 0)
     + (case g_rpc s of R_found p t i \<Rightarrow> original_payload_size i | _ \<Rightarrow> 0)"

definition written :: "grpc_client \<Rightarrow> nat" where
  "written s = (if g_broken s \<or> (\<exists>i. g_wpc s = W_write i) then unat (g_counter s) - 1
                else unat (g_counter s))"

definition balanced :: "bytes list \<Rightarrow> grpc_client \<Rightarrow> bool" where
  "balanced cs s \<longleftrightarrow> g_verified s + inflight s = sum_list (map sz (take (written s) cs))"

lemma sum_delete:
  "distinct (map fst xs) \<Longrightarrow> map_of xs k = Some v \<Longrightarrow>
   sum_list (map payload_of (AList.delete k xs)) + original_payload_size v = sum_list (map payload_of xs)"
proof (induction xs)
  case (Cons x xs)
  then show ?case by (cases x) (auto simp: AList.delete_id add.commute add.left_commute split: if_splits)
qed simp

lemma sum_list_sz_concat: "sum_list (map sz cs) = sz (concat cs)"
  by (induction cs) (simp_all add: sz_append)

lemma balanced_read:
  assumes "g_inv cs n s" "g_wpc s = W_read" "balanced cs s"
  shows "balanced cs (writer_read env now s)"
proof -
  have f: "inv_file cs n s" and nb: "\<not> g_broken s"
    using assms(1,2) by (auto simp: g_inv_def inv_flow_def)
  show ?thesis
  proof (cases "unat (g_counter s) = length cs")
    case True
    with writer_read_end [OF f True] assms(2,3) show ?thesis
      by (simp add: balanced_def inflight_def unanswered_def written_def)
  next
    case False
    then have "unat (g_counter s) < length cs" using f by (simp add: inv_file_def)
    from writer_read_chunk [OF f this] assms(2,3) nb show ?thesis
      by (simp add: balanced_def inflight_def unanswered_def written_def Let_def)
  qed
qed

lemma balanced_write:
  assumes "g_inv cs n s" "g_wpc s = W_write i" "balanced cs s"
  shows "balanced cs (writer_write i s)"
proof (cases "g_alive s")
  case False
  with assms(2,3) show ?thesis
    by (simp add: balanced_def inflight_def unanswered_def written_def writer_write_def)
next
  case True
  have "inv_map cs s" "pending_info s = Some i" "\<not> g_broken s" "unat (g_counter s) \<le> length cs"
    using assms(1,2) by (auto simp: g_inv_def pending_info_def inv_flow_def inv_file_def)
  note facts = this and p = inv_map_pending [OF this(1,2)]
  obtain k where k: "unat (g_counter s) = Suc k" "original_payload_size i = sz (cs ! k)" "k < length cs"
    using p facts(4) by (cases "unat (g_counter s)") (auto simp: entry_ok_def)
  then have "sum_list (map sz (take (Suc k) cs)) = sum_list (map sz (take k cs)) + original_payload_size i"
    by (simp add: take_Suc_conv_app_nth)
  with True assms(2,3) facts(3) k(1) show ?thesis
    by (simp add: balanced_def inflight_def unanswered_def written_def writer_write_def
        add.assoc [symmetric])
qed

lemma balanced_insert:
  assumes "g_inv cs n s" "g_wpc s = W_insert i" "balanced cs s"
  shows "balanced cs (writer_insert i s)"
proof -
  have "inv_map cs s" "pending_info s = Some i"
    using assms(1,2) by (auto simp: g_inv_def pending_info_def)
  from inv_map_pending [OF this] have "client_assigned_id i \<notin> fst ` set (g_map s)" by simp
  with assms(2,3) show ?thesis
    by (simp add: balanced_def inflight_def unanswered_def written_def writer_insert_def update_new
        algebra_simps)
qed

lemma balanced_lookup:
  assumes "g_inv cs n s" "g_rpc s = R_lookup p t" "balanced cs s"
  shows "balanced cs (reader_lookup p t s)"
proof (cases "map_of (g_map s) (original_client_chunk_id p)")
  case None
  with assms(2,3) show ?thesis
    by (simp add: balanced_def inflight_def unanswered_def written_def reader_lookup_def Let_def)
next
  case (Some i)
  have "distinct (map fst (g_map s))" using assms(1) by (simp add: g_inv_def inv_map_def)
  from sum_delete [OF this Some] assms(2) Some
  have "inflight (reader_lookup p t s) = inflight s"
    by (cases "g_wpc s") (simp_all add: inflight_def unanswered_def reader_lookup_def Let_def
        algebra_simps flip: add.assoc)
  with assms(3) Some show ?thesis
    by (simp add: balanced_def written_def reader_lookup_def Let_def)
qed

lemma balanced_found:
  assumes "g_rpc s = R_found p t i" "balanced cs s" "good_answer p i"
  shows "balanced cs (reader_found p t i s)"
proof -
  have "written (reader_found p t i s) = written s"
    by (auto simp: written_def reader_found_eq)
  with assms show ?thesis
    by (cases "g_wpc s")
       (simp_all add: balanced_def inflight_def unanswered_def reader_found_eq algebra_simps)
qed

lemma balanced_step:
  assumes "g_step env s t" "g_inv cs n s" "balanced cs s"
    and "\<And>p u i. g_rpc s = R_found p u i \<Longrightarrow> t = reader_found p u i s \<Longrightarrow> good_answer p i"
  shows "balanced cs t"
  using assms(1)
proof (cases rule: g_step.cases)
  case (read now)
  then show ?thesis using balanced_read assms(2,3) by simp
next
  case (send i)
  then show ?thesis using balanced_write assms(2,3) by simp
next
  case (insert i)
  then show ?thesis using balanced_insert assms(2,3) by simp
next
  case (lookup p t)
  then show ?thesis using balanced_lookup assms(2,3) by simp
next
  case (found p t i)
  then show ?thesis using balanced_found assms(3,4) by simp
next
  case wait
  then show ?thesis using assms(3)
    by (simp add: balanced_def inflight_def unanswered_def written_def writer_wait_def)
next
  case finish
  then show ?thesis using assms(3)
    by (simp add: balanced_def inflight_def unanswered_def written_def writer_finish_def Let_def)
next
  case writes_done
  then show ?thesis using assms(3)
    by (simp add: balanced_def inflight_def unanswered_def written_def writer_done_def)
qed (use assms(3) in \<open>simp_all add: balanced_def inflight_def unanswered_def written_def
  reader_finish_def Let_def\<close>)

lemma balanced_break: "balanced cs s \<Longrightarrow> balanced cs (s\<lparr>g_alive := False\<rparr>)"
  by (simp add: balanced_def inflight_def unanswered_def written_def)

section \<open>Errors only accumulate, and none means everything was verified\<close>

lemma finish_errors:
  "\<exists>es. errors (g_metrics (reader_finish st now s)) = errors (g_metrics s) @ es"
  by (auto simp: reader_finish_def Let_def log_error_def set_total_transaction_time_ms_def
      split: status.split)

lemma g_step_errors:
  assumes "g_step env s t"
  shows "\<exists>es. errors (g_metrics t) = errors (g_metrics s) @ es"
  using assms
proof (cases rule: g_step.cases)
  case (read now)
  then show ?thesis by (auto simp: writer_read_def log_error_def Let_def split: prod.splits)
next
  case (lookup p t)
  then show ?thesis by (auto simp: reader_lookup_def log_error_def Let_def split: option.splits)
next
  case (found p t i)
  then show ?thesis using found_metrics_errors(2) by (simp add: reader_found_eq)
next
  case (join st now)
  then show ?thesis using finish_errors by simp
qed (simp_all add: writer_wait_def writer_write_def writer_insert_def writer_finish_def
  writer_done_def Let_def)

lemma balanced_quiet_step:
  assumes "g_step env s t" "g_inv cs n s" "balanced cs s"
    and "errors (g_metrics t) = errors (g_metrics s)"
  shows "balanced cs t"
proof (rule balanced_step [OF assms(1-3)])
  fix p u i assume "t = reader_found p u i s"
  then show "good_answer p i"
    using assms(4) found_metrics_errors(1) by (simp add: reader_found_eq)
qed

lemma reach_errors:
  "g_reach env s0 s \<Longrightarrow> \<exists>es. errors (g_metrics s) = errors (g_metrics s0) @ es"
proof (induction rule: g_reach.induct)
  case (step s t)
  from step.IH g_step_errors [OF step.hyps(2)] show ?case by (metis append.assoc)
qed simp_all

lemma quiet_step:
  assumes "g_reach env s0 s" "g_step env s t" "errors (g_metrics t) = errors (g_metrics s0)"
  shows "errors (g_metrics s) = errors (g_metrics s0)" "errors (g_metrics t) = errors (g_metrics s)"
proof -
  obtain es fs where "errors (g_metrics s) = errors (g_metrics s0) @ es"
    "errors (g_metrics t) = errors (g_metrics s) @ fs"
    using reach_errors [OF assms(1)] g_step_errors [OF assms(2)] by blast
  with assms(3) show "errors (g_metrics s) = errors (g_metrics s0)"
    "errors (g_metrics t) = errors (g_metrics s)" by simp_all
qed

lemma reach_balanced:
  assumes "g_reach env s0 s" "g_inv cs n s0" "balanced cs s0"
    and "errors (g_metrics s) = errors (g_metrics s0)"
  shows "balanced cs s"
  using assms
proof (induction rule: g_reach.induct)
  case (step s t)
  from quiet_step [OF step.hyps step.prems(3)] step.IH [OF step.prems(1,2)]
    balanced_quiet_step [OF step.hyps(2) g_reach_inv [OF step.hyps(1) step.prems(1)]]
  show ?case by blast
qed (simp_all add: balanced_break)

text \<open>What the reader has checked when it exits without logging anything.\<close>

definition exit_ok :: "grpc_client \<Rightarrow> bool" where
  "exit_ok s \<longleftrightarrow> g_map s = [] \<and> \<not> g_broken s \<and> g_verified s = ACTUAL_FILE_SIZE_BYTES"

lemma finish_exit_ok:
  assumes "g_inv cs n s" "g_wpc s = W_exit" "st = Status_OK \<longleftrightarrow> g_alive s"
    and "errors (g_metrics (reader_finish st now s)) = errors (g_metrics s)"
  shows "exit_ok (reader_finish st now s)"
proof -
  have "g_finished s" "g_broken s \<Longrightarrow> \<not> g_alive s"
    using assms(1,2) by (auto simp: g_inv_def inv_flow_def)
  then show ?thesis
    using assms(3,4)
    by (cases st)
       (auto simp: exit_ok_def reader_finish_def log_error_def set_total_transaction_time_ms_def Let_def
        split: if_splits)
qed

lemma exit_step:
  assumes "g_step env s t" "g_inv cs n s" "g_rpc s = R_exit"
  shows "g_rpc t = R_exit" "g_map t = g_map s" "g_broken t = g_broken s" "g_verified t = g_verified s"
    "g_wpc t = W_exit" "g_counter t = g_counter s"
proof -
  have "g_wpc s = W_exit" using assms(2,3) by (simp add: g_inv_def inv_flow_def)
  with assms(1,3) show "g_rpc t = R_exit" "g_map t = g_map s" "g_broken t = g_broken s"
    "g_verified t = g_verified s" "g_wpc t = W_exit" "g_counter t = g_counter s"
    by (cases rule: g_step.cases; simp)+
qed

lemma reach_exit_ok:
  assumes "g_reach env s0 s" "g_inv cs n s0" "g_rpc s0 \<noteq> R_exit" "g_rpc s = R_exit"
    and "errors (g_metrics s) = errors (g_metrics s0)"
  shows "exit_ok s"
  using assms
proof (induction rule: g_reach.induct)
  case (step s t)
  note q = quiet_step [OF step.hyps step.prems(4)]
  have inv: "g_inv cs n s" using g_reach_inv [OF step.hyps(1) step.prems(1)] .
  show ?case
  proof (cases "g_rpc s = R_exit")
    case True
    with step.IH [OF step.prems(1,2) True q(1)] exit_step [OF step.hyps(2) inv True]
    show ?thesis by (simp add: exit_ok_def)
  next
    case False
    from step.hyps(2) show ?thesis
    proof (cases rule: g_step.cases)
      case (join st now)
      with finish_exit_ok [OF inv] q(2) show ?thesis by simp
    qed (use False step.prems(3) in \<open>simp_all add: writer_wait_def writer_read_def writer_write_def
      writer_insert_def writer_finish_def writer_done_def reader_lookup_def reader_found_eq Let_def
      split: prod.splits if_splits option.splits\<close>)
  qed
qed (simp_all add: exit_ok_def)

lemma exit_books:
  assumes "g_inv cs n s" "balanced cs s" "g_rpc s = R_exit" "\<not> g_broken s"
  shows "g_verified s + unanswered s = sz (concat cs)"
proof -
  have w: "g_wpc s = W_exit" using assms(1,3) by (simp add: g_inv_def inv_flow_def)
  with assms(1,4) have "unat (g_counter s) = length cs" by (simp add: g_inv_def inv_flow_def)
  with assms(2-4) w show ?thesis
    by (simp add: balanced_def inflight_def written_def sum_list_sz_concat)
qed

section \<open>An honest server\<close>

text \<open>Every request, response and verdict under way is about the right bytes.\<close>

definition honest_inv :: "bytes list \<Rightarrow> grpc_client \<Rightarrow> bool" where
  "honest_inv cs s \<longleftrightarrow>
     (\<forall>q \<in> set (g_requests s). data_chunk q = cs ! (unat (client_assigned_chunk_id q) - 1)) \<and>
     (\<forall>p \<in> set (g_replies s).
        reversed_chunk_data p = rev (cs ! (unat (original_client_chunk_id p) - 1))) \<and>
     (case g_rpc s of
        R_lookup p t \<Rightarrow> reversed_chunk_data p = rev (cs ! (unat (original_client_chunk_id p) - 1))
      | R_found p t i \<Rightarrow> good_answer p i
      | _ \<Rightarrow> True)"

lemma make_response_simps [simp]:
  "reversed_chunk_data (make_response q) = rev (data_chunk q)"
  "original_client_chunk_id (make_response q) = client_assigned_chunk_id q"
  by (simp_all add: make_response_def Let_def)

lemma honest_lookup:
  assumes "g_inv cs n s" "honest_inv cs s" "g_rpc s = R_lookup p t"
  shows "honest_inv cs (reader_lookup p t s)"
proof (cases "map_of (g_map s) (original_client_chunk_id p)")
  case None
  with assms show ?thesis by (simp add: honest_inv_def reader_lookup_def Let_def)
next
  case (Some i)
  from map_of_SomeD [OF this] assms(1)
  have "original_client_chunk_id p = client_assigned_id i" "entry_ok cs (unat (g_counter s)) i"
    by (auto simp: g_inv_def inv_map_def)
  with assms(2,3) Some show ?thesis
    by (simp add: honest_inv_def reader_lookup_def good_answer_def entry_ok_def Let_def)
qed

lemma honest_send:
  assumes "g_inv cs n s" "honest_inv cs s" "g_wpc s = W_write i"
  shows "honest_inv cs (writer_write i s)"
proof -
  have "inv_map cs s" "pending_info s = Some i"
    using assms(1,3) by (auto simp: g_inv_def pending_info_def)
  from inv_map_pending(2) [OF this] assms(2) show ?thesis
    by (auto simp: honest_inv_def writer_write_def entry_ok_def request_of_def)
qed

lemma honest_step:
  assumes "g_step env s t" "g_inv cs n s" "honest_inv cs s" "honest env"
  shows "honest_inv cs t"
  using assms(1)
proof (cases rule: g_step.cases)
  case (send i)
  then show ?thesis using honest_send assms(2,3) by simp
next
  case (lookup p t)
  then show ?thesis using honest_lookup assms(2,3) by simp
next
  case (serve q qs)
  then show ?thesis using assms(3,4) by (auto simp: honest_inv_def honest_def)
next
  case (receive p ps now)
  then show ?thesis using assms(3) by (simp add: honest_inv_def)
qed (use assms(3) in \<open>auto simp: honest_inv_def writer_wait_def writer_read_def
  writer_insert_def writer_finish_def writer_done_def reader_found_eq reader_finish_def Let_def
  split: prod.splits\<close>)

lemma honest_reach:
  assumes "g_reach env s0 s" "g_inv cs n s0" "balanced cs s0" "honest_inv cs s0" "honest env"
  shows "honest_inv cs s \<and> balanced cs s"
  using assms
proof (induction rule: g_reach.induct)
  case (step s t)
  have inv: "g_inv cs n s" using g_reach_inv [OF step.hyps(1) step.prems(1)] .
  from step.IH [OF step.prems] have h: "honest_inv cs s" "balanced cs s" by simp_all
  have "balanced cs t"
  proof (rule balanced_step [OF step.hyps(2) inv h(2)])
    show "good_answer p i" if "g_rpc s = R_found p u i" for p u i
      using h(1) that by (simp add: honest_inv_def)
  qed
  with honest_step [OF step.hyps(2) inv h(1) step.prems(4)] show ?case by simp
next
  case (breaks s)
  from breaks.IH [OF breaks.prems] show ?case by (simp add: balanced_break honest_inv_def)
qed simp

section \<open>The threads do not block each other\<close>

definition stuck :: "grpc_env \<Rightarrow> grpc_client \<Rightarrow> bool" where
  "stuck env s \<longleftrightarrow> (\<forall>t. \<not> g_step env s t)"

text \<open>
  On an unbroken stream the client can only stop for good with its result, or with the map
  full, the writer asleep and nothing left that could empty the map.
\<close>

lemma stuck_cases:
  assumes "g_inv cs n s" "stuck env s" "g_alive s"
  shows "g_rpc s = R_exit \<or>
         (g_wpc s = W_sleep \<and> g_rpc s = R_read \<and> length (g_map s) = MAX_INFLIGHT_REQUESTS \<and>
          g_requests s = [] \<and> g_replies s = [])"
proof -
  note no = assms(2) [unfolded stuck_def, rule_format]
  have req: "g_requests s = []"
    using no g_step.serve [OF assms(3)] by (metis list.exhaust)
  have w: "g_wpc s = W_sleep \<or> g_wpc s = W_exit"
    using no g_step.wait [of s env] g_step.read [of s env] g_step.send [of s _ env]
      g_step.insert [of s _ env] g_step.finish [of s env] g_step.writes_done [of s env]
    by (cases "g_wpc s") blast+
  have flow: "g_writes_done s \<longleftrightarrow> g_wpc s = W_exit \<and> \<not> g_broken s" "\<not> g_broken s"
    "g_rpc s \<in> {R_join, R_exit} \<Longrightarrow> g_writes_done s"
    using assms(1,3) by (auto simp: g_inv_def inv_flow_def)
  show ?thesis
  proof (cases "g_rpc s")
    case R_read
    then have rep: "g_replies s = []"
      using no g_step.receive [OF R_read assms(3)] by (metis list.exhaust)
    have "\<not> g_writes_done s" using no g_step.ended [OF R_read] req rep by blast
    then have "g_wpc s = W_sleep" using w flow by blast
    moreover from this have "length (g_map s) = MAX_INFLIGHT_REQUESTS"
      using assms(1) R_read by (simp add: g_inv_def inv_window_def)
    ultimately show ?thesis using R_read req rep by blast
  next
    case (R_lookup p t)
    then show ?thesis using no g_step.lookup by blast
  next
    case (R_found p t i)
    then show ?thesis using no g_step.found by blast
  next
    case R_join
    then have "g_wpc s = W_exit" using flow by simp
    moreover have "Status_OK = Status_OK \<longleftrightarrow> g_alive s" using assms(3) by simp
    ultimately have "g_step env s (reader_finish Status_OK 0 s)"
      by (intro g_step.join [OF R_join])
    then show ?thesis using no by blast
  next
    case R_exit
    then show ?thesis by simp
  qed
qed

text \<open>The map never holds more entries than chunks were read.\<close>

lemma map_le_counter:
  assumes "g_inv cs n s"
  shows "length (g_map s) \<le> unat (g_counter s)"
proof -
  let ?ids = "map (\<lambda>e. unat (fst e)) (g_map s)"
  have d: "distinct (map fst (g_map s))" using assms by (simp add: g_inv_def inv_map_def)
  have "?ids = map unat (map fst (g_map s))" by simp
  then have dist: "distinct ?ids"
    using d by (metis (no_types) distinct_map inj_onI word_unat_eq_iff)
  have "set ?ids \<subseteq> {1..unat (g_counter s)}"
    using assms by (fastforce simp: g_inv_def inv_map_def entry_ok_def)
  then have "card (set ?ids) \<le> card {1..unat (g_counter s)}" by (intro card_mono) auto
  with distinct_card [OF dist] show ?thesis by simp
qed

section \<open>A bound on the steps\<close>

definition g_measure :: "bytes list \<Rightarrow> grpc_client \<Rightarrow> nat" where
  "g_measure cs s =
     12 * (length cs - unat (g_counter s))
     + (case g_wpc s of W_wait \<Rightarrow> 4 | W_sleep \<Rightarrow> 3 | W_read \<Rightarrow> 3 | W_write i \<Rightarrow> 14 | W_insert i \<Rightarrow> 7
        | W_finish \<Rightarrow> 2 | W_done \<Rightarrow> 1 | W_exit \<Rightarrow> 0)
     + 6 * length (g_requests s) + 4 * length (g_replies s)
     + (case g_rpc s of R_exit \<Rightarrow> 0 | R_join \<Rightarrow> 1 | R_read \<Rightarrow> 2 | R_lookup p t \<Rightarrow> 5 | R_found p t i \<Rightarrow> 4)"

lemma measure_read:
  assumes "g_inv cs n s" "g_wpc s = W_read"
  shows "g_measure cs (writer_read env now s) < g_measure cs s"
proof -
  have f: "inv_file cs n s" using assms(1) by (simp add: g_inv_def)
  show ?thesis
  proof (cases "unat (g_counter s) = length cs")
    case True
    with writer_read_end [OF f True] assms(2) show ?thesis by (simp add: g_measure_def)
  next
    case False
    then have "unat (g_counter s) < length cs" using f by (simp add: inv_file_def)
    from writer_read_chunk [OF f this] this assms(2) show ?thesis
      by (simp add: g_measure_def Let_def)
  qed
qed

lemma measure_step:
  assumes "g_step env s t" "g_inv cs n s" "\<And>q. length (ge_serve env q) \<le> 1"
  shows "g_measure cs t < g_measure cs s"
  using assms(1)
proof (cases rule: g_step.cases)
  case (read now)
  then show ?thesis using measure_read assms(2) by simp
next
  case (serve q qs)
  then show ?thesis using assms(3) [of q] by (simp add: g_measure_def)
next
  case (lookup p u)
  then show ?thesis by (simp add: g_measure_def reader_lookup_def Let_def split: option.split)
next
  case (found p u i)
  then show ?thesis by (simp add: g_measure_def reader_found_eq)
qed (simp_all add: g_measure_def writer_wait_def writer_write_def writer_insert_def
  writer_finish_def writer_done_def reader_finish_def Let_def)

lemma g_run_bound:
  assumes "(g_step env ^^ k) s t" "g_inv cs n s" "\<And>q. length (ge_serve env q) \<le> 1"
  shows "k + g_measure cs t \<le> g_measure cs s \<and> g_reach env s t"
  using assms(1)
proof (induction k arbitrary: t)
  case 0
  then show ?case by (simp add: g_reach.start)
next
  case (Suc k)
  from Suc.prems obtain u where u: "(g_step env ^^ k) s u" "g_step env u t" by auto
  note ih = Suc.IH [OF u(1)]
  have "g_inv cs n u" using ih assms(2) g_reach_inv by blast
  from measure_step [OF u(2) this assms(3)] ih g_reach.step [OF _ u(2), of s] show ?case by simp
qed

lemma g_step_alive:
  assumes "g_step env s t"
  shows "g_alive t = g_alive s"
  using assms
  by (cases rule: g_step.cases)
     (simp_all add: writer_wait_def writer_read_def writer_write_def writer_insert_def
       writer_finish_def writer_done_def reader_lookup_def reader_found_eq reader_finish_def Let_def
       split: prod.split option.split)

lemma g_run_alive: "(g_step env ^^ k) s t \<Longrightarrow> g_alive t = g_alive s"
  by (induction k arbitrary: t) (auto dest: g_step_alive)

lemma run_alive: "(g_step env)\<^sup>*\<^sup>* s t \<Longrightarrow> g_alive t = g_alive s"
  by (induction rule: rtranclp_induct) (auto dest: g_step_alive)

text \<open>Every run can be continued until nothing is left to do.\<close>

lemma run_to_stuck:
  assumes "g_inv cs n s" "\<And>q. length (ge_serve env q) \<le> 1"
  shows "\<exists>t. (g_step env)\<^sup>*\<^sup>* s t \<and> stuck env t"
  using assms(1)
proof (induction "g_measure cs s" arbitrary: s rule: less_induct)
  case less
  show ?case
  proof (cases "stuck env s")
    case False
    then obtain t where t: "g_step env s t" by (auto simp: stuck_def)
    from less.hyps [OF measure_step [OF t less.prems assms(2)] g_step_inv [OF t less.prems]] t
    show ?thesis by (meson converse_rtranclp_into_rtranclp)
  qed blast
qed

section \<open>The window between Write and the insertion into the map\<close>

text \<open>
  \<open>raced cs n k s\<close>: \<open>k\<close> chunks were sent and answered, and each answer was looked up before
  the writer had entered the request, so that all \<open>k\<close> entries are left in the map.
\<close>

definition raced :: "bytes list \<Rightarrow> nat \<Rightarrow> nat \<Rightarrow> grpc_client \<Rightarrow> bool" where
  "raced cs n k s \<longleftrightarrow> g_inv cs n s \<and> g_wpc s = W_wait \<and> g_rpc s = R_read \<and>
     unat (g_counter s) = k \<and> length (g_map s) = k \<and> g_requests s = [] \<and> g_replies s = [] \<and>
     g_alive s \<and> g_verified s = 0"

lemma run_inv: "(g_step env)\<^sup>*\<^sup>* s t \<Longrightarrow> g_inv cs n s \<Longrightarrow> g_inv cs n t"
  by (induction rule: rtranclp_induct) (auto intro: g_step_inv)

lemma run_reach: "(g_step env)\<^sup>*\<^sup>* s t \<Longrightarrow> g_reach env s0 s \<Longrightarrow> g_reach env s0 t"
  by (induction rule: rtranclp_induct) (auto intro: g_reach.step)

text \<open>
  The writer's half of a round in which the answer overtakes the entry in the map: the request is on
  the stream, the entry still to be made.
\<close>

lemma race_writes:
  assumes "raced cs n k s" "k < length cs" "k < MAX_INFLIGHT_REQUESTS"
  obtains i r where "(g_step env)\<^sup>*\<^sup>* s (s\<lparr>g_reader := r, g_counter := g_counter s + 1,
      g_requests := [request_of i], g_wpc := W_insert i\<rparr>)" "unat (g_counter s + 1) = Suc k"
    "client_assigned_id i \<notin> fst ` set (g_map s)"
proof -
  have inv: "g_inv cs n s" using assms(1) by (simp add: raced_def)
  define s1 where "s1 = writer_wait s"
  have s1: "s1 = s\<lparr>g_wpc := W_read\<rparr>" using assms(1,3) by (simp add: s1_def raced_def writer_wait_def)
  have 1: "g_step env s s1" unfolding s1_def using assms(1) by (intro g_step.wait) (simp add: raced_def)
  have i1: "g_inv cs n s1" using g_step_inv [OF 1 inv] .
  define s2 where "s2 = writer_read env 0 s1"
  have 2: "g_step env s1 s2" unfolding s2_def by (intro g_step.read) (simp add: s1)
  have i2: "g_inv cs n s2" using g_step_inv [OF 2 i1] .
  have f: "inv_file cs n s1" "unat (g_counter s1) < length cs"
    using i1 assms(1,2) by (simp_all add: g_inv_def s1 raced_def)
  obtain i r where s2: "s2 = s1\<lparr>g_reader := r, g_counter := g_counter s + 1, g_wpc := W_write i\<rparr>"
    using writer_read_chunk(1) [OF f, of env 0] by (simp add: s2_def s1 Let_def)
  have k2: "unat (g_counter s + 1) = Suc k"
    using writer_read_chunk(2) [OF f] assms(1) by (simp add: s1 raced_def)
  have "inv_map cs s2" "pending_info s2 = Some i"
    using i2 by (simp_all add: g_inv_def s2 pending_info_def)
  note p = inv_map_pending [OF this]
  define s3 where "s3 = writer_write i s2"
  have 3: "g_step env s2 s3" unfolding s3_def by (intro g_step.send) (simp add: s2)
  have "s3 = s\<lparr>g_reader := r, g_counter := g_counter s + 1, g_requests := [request_of i], g_wpc := W_insert i\<rparr>"
    using assms(1) by (simp add: s3_def writer_write_def s2 s1 raced_def)
  moreover have "(g_step env)\<^sup>*\<^sup>* s s3" using 1 2 3 by (meson rtranclp.rtrancl_into_rtrancl rtranclp.rtrancl_refl)
  moreover have "client_assigned_id i \<notin> fst ` set (g_map s)" using p(1,3) by (simp add: s2 s1)
  ultimately show ?thesis using that k2 by metis
qed

lemma race_round:
  assumes "raced cs n k s" "k < length cs" "k < MAX_INFLIGHT_REQUESTS" "honest env"
  shows "\<exists>t. (g_step env)\<^sup>*\<^sup>* s t \<and> raced cs n (Suc k) t"
proof -
  have inv: "g_inv cs n s" using assms(1) by (simp add: raced_def)
  obtain i r where w: "(g_step env)\<^sup>*\<^sup>* s (s\<lparr>g_reader := r, g_counter := g_counter s + 1,
      g_requests := [request_of i], g_wpc := W_insert i\<rparr>)" "unat (g_counter s + 1) = Suc k"
    "client_assigned_id i \<notin> fst ` set (g_map s)"
    using race_writes [OF assms(1-3)] .
  define s3 where "s3 = s\<lparr>g_reader := r, g_counter := g_counter s + 1,
      g_requests := [request_of i], g_wpc := W_insert i\<rparr>"
  define s4 where "s4 = s3\<lparr>g_requests := [], g_replies := g_replies s3 @ ge_serve env (request_of i)\<rparr>"
  have 4: "g_step env s3 s4"
    unfolding s4_def using assms(1) by (intro g_step.serve) (simp_all add: s3_def raced_def)
  have r4: "g_replies s4 = [make_response (request_of i)]"
    using assms(1,4) by (simp add: s4_def s3_def raced_def honest_def)
  define s5 where "s5 = s4\<lparr>g_replies := [], g_rpc := R_lookup (make_response (request_of i)) 0\<rparr>"
  have 5: "g_step env s4 s5"
    unfolding s5_def using assms(1) r4 by (intro g_step.receive) (simp_all add: s4_def s3_def raced_def)
  define s6 where "s6 = reader_lookup (make_response (request_of i)) 0 s5"
  have 6: "g_step env s5 s6" unfolding s6_def by (intro g_step.lookup) (simp add: s5_def)
  have "map_of (g_map s5) (client_assigned_id i) = None"
    using w(3) by (simp add: map_of_eq_None_iff s5_def s4_def s3_def)
  then obtain m where s6: "s6 = s5\<lparr>g_metrics := m, g_rpc := R_read\<rparr>"
    by (simp add: s6_def reader_lookup_def request_of_def Let_def)
  define s7 where "s7 = writer_insert i s6"
  have 7: "g_step env s6 s7"
    unfolding s7_def by (intro g_step.insert) (simp add: s6 s5_def s4_def s3_def)
  have "g_map s7 = g_map s @ [(client_assigned_id i, i)]"
    using w(3) by (simp add: s7_def writer_insert_def s6 s5_def s4_def s3_def update_new)
  moreover have run: "(g_step env)\<^sup>*\<^sup>* s s7"
    using w(1) 4 5 6 7 unfolding s3_def [symmetric]
    by (meson rtranclp.rtrancl_into_rtrancl)
  ultimately have "raced cs n (Suc k) s7"
    using run_inv [OF run inv] w(2) assms(1)
    by (simp add: raced_def s7_def writer_insert_def s6 s5_def s4_def s3_def)
  with run show ?thesis by blast
qed

lemma race_rounds:
  assumes "raced cs n 0 s" "honest env" "k \<le> length cs" "k \<le> MAX_INFLIGHT_REQUESTS"
  shows "\<exists>t. (g_step env)\<^sup>*\<^sup>* s t \<and> raced cs n k t"
  using assms(3,4)
proof (induction k)
  case 0
  then show ?case using assms(1) by blast
next
  case (Suc k)
  then obtain t where t: "(g_step env)\<^sup>*\<^sup>* s t" "raced cs n k t" by auto
  from race_round [OF t(2) _ _ assms(2)] Suc.prems obtain u where
    "(g_step env)\<^sup>*\<^sup>* t u" "raced cs n (Suc k) u" by auto
  with t(1) show ?case by (meson rtranclp_trans)
qed

text \<open>With every answer lost, the run ends with nothing verified.\<close>

lemma race_end:
  assumes "raced cs n (length cs) s" "length cs < MAX_INFLIGHT_REQUESTS"
  shows "\<exists>t. (g_step env)\<^sup>*\<^sup>* s t \<and> g_rpc t = R_exit \<and> g_alive t \<and> g_verified t = 0 \<and>
           length (g_map t) = length cs"
proof -
  have inv: "g_inv cs n s" using assms(1) by (simp add: raced_def)
  let ?s1 = "s\<lparr>g_wpc := W_read\<rparr>"
  have 1: "g_step env s ?s1"
    using g_step.wait [of s env] assms by (simp add: raced_def writer_wait_def)
  have f: "inv_file cs n ?s1" "unat (g_counter ?s1) = length cs"
    using g_step_inv [OF 1 inv] assms(1) by (simp_all add: g_inv_def raced_def)
  obtain r where r: "writer_read env 0 ?s1 = s\<lparr>g_reader := r, g_wpc := W_finish\<rparr>"
    using writer_read_end [OF f, of env 0] by simp
  let ?s2 = "s\<lparr>g_reader := r, g_wpc := W_finish\<rparr>"
  have 2: "g_step env ?s1 ?s2" using g_step.read [of ?s1 env 0] r by simp
  have nb: "\<not> g_broken s" using inv assms(1) by (simp add: g_inv_def inv_flow_def raced_def)
  let ?s3 = "s\<lparr>g_reader := r, g_finished := True, g_wpc := W_done\<rparr>"
  have 3: "g_step env ?s2 ?s3"
    using g_step.finish [of ?s2 env] nb by (simp add: writer_finish_def Let_def)
  let ?s4 = "s\<lparr>g_reader := r, g_finished := True, g_writes_done := True, g_wpc := W_exit\<rparr>"
  have 4: "g_step env ?s3 ?s4" using g_step.writes_done [of ?s3 env] by (simp add: writer_done_def)
  let ?s5 = "?s4\<lparr>g_rpc := R_join\<rparr>"
  have 5: "g_step env ?s4 ?s5"
    using assms(1) by (intro g_step.ended) (simp_all add: raced_def)
  let ?s6 = "reader_finish Status_OK 0 ?s5"
  have 6: "g_step env ?s5 ?s6"
    using assms(1) by (intro g_step.join) (simp_all add: raced_def)
  have "(g_step env)\<^sup>*\<^sup>* s ?s6"
    using 1 2 3 4 5 6 by (meson rtranclp.rtrancl_into_rtrancl rtranclp.rtrancl_refl)
  with assms(1) show ?thesis
    by (intro exI [of _ ?s6]) (simp add: reader_finish_def raced_def Let_def)
qed

text \<open>
  With the map full of such entries the writer sleeps for ever, and once the stream breaks
  the reader waits for it for ever.
\<close>

lemma race_deadlock:
  assumes "raced cs n MAX_INFLIGHT_REQUESTS s" "(g_step env)\<^sup>*\<^sup>* s0 s" "g_reach env s0 s"
  shows "(\<exists>t. (g_step env)\<^sup>*\<^sup>* s0 t \<and> stuck env t \<and> g_rpc t = R_read \<and> g_wpc t = W_sleep) \<and>
         (\<exists>u. g_reach env s0 u \<and> stuck env u \<and> g_rpc u = R_join \<and> g_wpc u = W_sleep)"
proof -
  let ?t = "s\<lparr>g_wpc := W_sleep\<rparr>"
  have 1: "g_step env s ?t"
    using g_step.wait [of s env] assms(1) by (simp add: raced_def writer_wait_def)
  have inv: "g_inv cs n ?t" using g_step_inv [OF 1] assms(1) by (simp add: raced_def)
  have nw: "\<not> g_writes_done s" using inv by (simp add: g_inv_def inv_flow_def)
  have run: "(g_step env)\<^sup>*\<^sup>* s0 ?t" using assms(2) 1 by (rule rtranclp.rtrancl_into_rtrancl)
  have reach: "g_reach env s0 ?t" using assms(3) 1 by (rule g_reach.step)
  have st: "stuck env ?t"
    unfolding stuck_def using assms(1) nw by (auto simp: raced_def elim: g_step.cases)
  let ?b = "?t\<lparr>g_alive := False\<rparr>"
  let ?u = "?b\<lparr>g_rpc := R_join\<rparr>"
  have "g_step env ?b ?u" using assms(1) by (intro g_step.ended) (simp_all add: raced_def)
  with g_reach.breaks [OF reach] have ru: "g_reach env s0 ?u" by (rule g_reach.step)
  have "stuck env ?u"
    unfolding stuck_def using assms(1) by (auto simp: raced_def elim: g_step.cases)
  with run st ru assms(1) show ?thesis
    by (intro conjI exI [of _ ?t] exI [of _ ?u]) (simp_all add: raced_def)
qed

end
