(* ===== verification/Grpc_Main.thy ===== *)
theory Grpc_Main
  imports Grpc_Runs
begin

text \<open>
  The main program of the gRPC client (src/grpc_app/grpc_client.cpp, \<open>main\<close>) around
  \<open>ProcessFile\<close>, the run in which every answer finds its request, and the properties of the
  gRPC programs. The first part of the main program ends with an exit code, with a call that
  is already over, or with the state in which the two threads start; the second part saves
  the results.
\<close>

section \<open>The program\<close>

definition grpc_ensure_file :: "(nat \<Rightarrow> byte) \<Rightarrow> fsys \<Rightarrow> string \<Rightarrow> u64 \<Rightarrow> bool \<times> fsys" where
  "grpc_ensure_file rng fs filename target =
     (let test_file_check_stream = ifs_open fs filename;
          generate_new_file =
            (if is_opened test_file_check_stream
             then (if ifs_size test_file_check_stream = target then False else True)
             else True)
      in if generate_new_file then generate_test_file rng fs filename target else (True, fs))"

datatype grpc_begin = Exit_code int | Call_over metrics_aggregator | Threads grpc_client

text \<open>\<open>std::exception\<close> carries a message; the division trap of the hardware is not one.\<close>

definition grpc_catch :: "exn \<Rightarrow> metrics_aggregator \<Rightarrow> metrics_aggregator" where
  "grpc_catch e m =
     (case e of
        Runtime_error w \<Rightarrow> log_error (''gRPC Client (main): Exception caught: '' @ w) m
      | Division_trap \<Rightarrow> log_error ''gRPC Client (main): Unknown exception caught.'' m)"

definition grpc_main_begin :: "(nat \<Rightarrow> byte) \<Rightarrow> fsys \<Rightarrow> bool \<Rightarrow> int \<Rightarrow> grpc_begin \<times> fsys" where
  "grpc_main_begin rng fs stream_ok now =
     (case grpc_ensure_file rng fs test_filename ACTUAL_FILE_SIZE_BYTES of
        (False, fs) \<Rightarrow> (Exit_code 1, fs)
      | (True, fs) \<Rightarrow>
          let m = ma_new ''gRPC'' ACTUAL_FILE_SIZE_BYTES CHUNK_SIZE_BYTES
          in (case process_file_start fs test_filename CHUNK_SIZE_BYTES stream_ok now m of
                Inl e \<Rightarrow> Call_over (grpc_catch e m)
              | Inr (Inl m) \<Rightarrow> Call_over m
              | Inr (Inr s) \<Rightarrow> Threads s, fs))"

definition grpc_main_end :: "metrics_aggregator \<Rightarrow> fsys \<Rightarrow> int \<times> string \<times> fsys" where
  "grpc_main_end m fs =
     (0, print_summary_to_console m,
      save_both m (CSV_OUTPUT_FILE_PREFIX @ ''grpc_summary.csv'')
        (CSV_OUTPUT_FILE_PREFIX @ ''grpc_detailed_rtt.csv'') fs)"

lemma grpc_ensure_file_ensured: "grpc_ensure_file rng fs f target = ensured rng fs f target"
  using ensured_open [of fs f target] by (auto simp: grpc_ensure_file_def ensured_def Let_def)

section \<open>The state in which the threads start\<close>

definition launched :: "bytes list \<Rightarrow> nat \<Rightarrow> metrics_aggregator \<Rightarrow> grpc_client \<Rightarrow> bool" where
  "launched cs n m s \<longleftrightarrow> g_inv cs n s \<and> balanced cs s \<and> honest_inv cs s \<and> raced cs n 0 s \<and>
     g_metrics s = m \<and> g_map s = [] \<and> g_measure cs s = 12 * length cs + 6"

lemma start_launched_any:
  assumes "process_file_start fs f csz ok now m = Inr (Inr s)" "fs_files fs f = Some bs" "fits bs"
  shows "launched (delivered (g_reader s)) (unat csz) m s"
  using process_file_start_any [OF assms]
  by (simp add: launched_def raced_def balanced_def inflight_def unanswered_def written_def
      honest_inv_def g_measure_def)

lemma start_delivers:
  assumes "process_file_start fs f csz ok now m = Inr (Inr s)" "fs_files fs f = Some bs" "fits bs"
  shows "\<exists>rest. bs = concat (delivered (g_reader s)) @ rest \<and>
           (readable fs f bs \<and> 0 < unat csz \<longrightarrow> rest = [])"
proof -
  obtain r where r: "cr_new fs f csz = Inr r" "g_reader s = r"
    using assms(1) by (auto simp: process_file_start_def split: sum.splits if_splits)
  obtain rest where "bs = concat (delivered r) @ rest"
    using delivered_prefix [of r] process_file_start_any(13) [OF assms] r(2) by auto
  moreover have "concat (delivered r) = bs" if "readable fs f bs" "0 < unat csz"
    using delivered_new [OF that(1) assms(3) that(2) r(1)] that(2) by (simp add: concat_chunks_of)
  ultimately show ?thesis using r(2) by (metis append_Nil2 same_append_eq)
qed

lemma start_launched:
  assumes "readable fs f bs" "fits bs" "0 < unat csz"
    and "process_file_start fs f csz True now m = Inr (Inr s)"
  shows "launched (chunks_of (unat csz) bs) (unat csz) m s"
proof -
  have "delivered (g_reader s) = chunks_of (unat csz) bs"
    using process_file_start_inv [OF assms(1-3), of now m] assms(4) by auto
  moreover have "fs_files fs f = Some bs" using assms(1) by (simp add: readable_def)
  ultimately show ?thesis using start_launched_any [OF assms(4) _ assms(2)] by simp
qed

lemma start_ok:
  assumes "readable fs f bs" "fits bs" "0 < unat csz"
  obtains s where "process_file_start fs f csz True now m = Inr (Inr s)"
    "launched (chunks_of (unat csz) bs) (unat csz) m s"
  using process_file_start_inv [OF assms] start_launched [OF assms] by metis

lemma race_exit:
  assumes "launched cs n m s0" "length cs < MAX_INFLIGHT_REQUESTS" "honest env"
  shows "\<exists>s. g_reach env s0 s \<and> g_rpc s = R_exit \<and> g_alive s \<and> g_verified s = 0 \<and>
           length (g_map s) = length cs"
proof -
  obtain t where t: "(g_step env)\<^sup>*\<^sup>* s0 t" "raced cs n (length cs) t"
    using race_rounds [of cs n s0 env "length cs"] assms by (auto simp: launched_def)
  obtain s where "(g_step env)\<^sup>*\<^sup>* t s" "g_rpc s = R_exit" "g_alive s" "g_verified s = 0"
    "length (g_map s) = length cs"
    using race_end [OF t(2) assms(2), of env] by blast
  with run_reach [OF t(1) g_reach.start] run_reach show ?thesis by blast
qed

section \<open>The run in which every answer finds its request\<close>

definition calm :: "bytes list \<Rightarrow> nat \<Rightarrow> string list \<Rightarrow> nat \<Rightarrow> grpc_client \<Rightarrow> bool" where
  "calm cs n E k s \<longleftrightarrow> g_inv cs n s \<and> g_wpc s = W_wait \<and> g_rpc s = R_read \<and>
     unat (g_counter s) = k \<and> g_map s = [] \<and> g_requests s = [] \<and> g_replies s = [] \<and> g_alive s \<and>
     errors (g_metrics s) = E \<and> length (chunk_rtt_us (g_metrics s)) = k"

lemma found_metrics_rtts: "length (chunk_rtt_us (found_metrics p t i m)) = Suc (length (chunk_rtt_us m))"
  by (simp add: found_metrics_def Let_def log_error_def record_chunk_sent_def record_chunk_rtt_us_def)

text \<open>The writer's part of a round: wait, read, write, insert.\<close>

lemma calm_send:
  assumes "calm cs n E k s" "k < length cs"
  shows "\<exists>t i. (g_step env)\<^sup>*\<^sup>* s t \<and> g_inv cs n t \<and> g_wpc t = W_wait \<and> g_rpc t = R_read \<and>
           unat (g_counter t) = Suc k \<and> g_map t = [(client_assigned_id i, i)] \<and>
           g_requests t = [request_of i] \<and> g_replies t = [] \<and> g_alive t \<and> g_metrics t = g_metrics s"
proof -
  have inv: "g_inv cs n s" using assms(1) by (simp add: calm_def)
  define s1 where "s1 = writer_wait s"
  have s1: "s1 = s\<lparr>g_wpc := W_read\<rparr>"
    using assms(1) by (simp add: s1_def calm_def writer_wait_def MAX_INFLIGHT_REQUESTS_def)
  have 1: "g_step env s s1" unfolding s1_def using assms(1) by (intro g_step.wait) (simp add: calm_def)
  have i1: "g_inv cs n s1" using g_step_inv [OF 1 inv] .
  define s2 where "s2 = writer_read env 0 s1"
  have 2: "g_step env s1 s2" unfolding s2_def by (intro g_step.read) (simp add: s1)
  have i2: "g_inv cs n s2" using g_step_inv [OF 2 i1] .
  have f: "inv_file cs n s1" "unat (g_counter s1) < length cs"
    using i1 assms(1,2) by (simp_all add: g_inv_def s1 calm_def)
  obtain i r where s2: "s2 = s1\<lparr>g_reader := r, g_counter := g_counter s + 1, g_wpc := W_write i\<rparr>"
    using writer_read_chunk(1) [OF f, of env 0] by (simp add: s2_def s1 Let_def)
  have k2: "unat (g_counter s2) = Suc k"
    using writer_read_chunk(2) [OF f] assms(1) by (simp add: s2 s1 calm_def)
  define s3 where "s3 = writer_write i s2"
  have s3: "s3 = s2\<lparr>g_requests := [request_of i], g_wpc := W_insert i\<rparr>"
    using assms(1) by (simp add: s3_def writer_write_def s2 s1 calm_def)
  have 3: "g_step env s2 s3" unfolding s3_def by (intro g_step.send) (simp add: s2)
  define s4 where "s4 = writer_insert i s3"
  have 4: "g_step env s3 s4" unfolding s4_def by (intro g_step.insert) (simp add: s3)
  have run: "(g_step env)\<^sup>*\<^sup>* s s4"
    using 1 2 3 4 by (meson rtranclp.rtrancl_into_rtrancl rtranclp.rtrancl_refl)
  with run_inv [OF run inv] k2 assms(1) show ?thesis
    by (intro exI [of _ s4] exI [of _ i])
       (simp add: s4_def writer_insert_def s3 s2 s1 calm_def)
qed

text \<open>The rest of the round: the server answers, and the reader takes the answer.\<close>

lemma calm_round:
  assumes "calm cs n E k s" "k < length cs" "honest env"
  shows "\<exists>t. (g_step env)\<^sup>*\<^sup>* s t \<and> calm cs n E (Suc k) t"
proof -
  obtain s4 i where s4: "(g_step env)\<^sup>*\<^sup>* s s4" "g_inv cs n s4" "g_wpc s4 = W_wait" "g_rpc s4 = R_read"
    "unat (g_counter s4) = Suc k" "g_map s4 = [(client_assigned_id i, i)]"
    "g_requests s4 = [request_of i]" "g_replies s4 = []" "g_alive s4" "g_metrics s4 = g_metrics s"
    using calm_send [OF assms(1,2), of env] by blast
  let ?p = "make_response (request_of i)"
  let ?s5 = "s4\<lparr>g_requests := [], g_replies := [?p]\<rparr>"
  have 5: "g_step env s4 ?s5"
    using g_step.serve [OF s4(9,7), of env] s4(8) assms(3) by (simp add: honest_def)
  let ?s6 = "s4\<lparr>g_requests := [], g_replies := [], g_rpc := R_lookup ?p 0\<rparr>"
  have 6: "g_step env ?s5 ?s6"
    using g_step.receive [of ?s5 ?p "[]" env 0] s4(4,9) by simp
  let ?s7 = "reader_lookup ?p 0 ?s6"
  have 7: "g_step env ?s6 ?s7" by (intro g_step.lookup) simp
  have s7: "?s7 = s4\<lparr>g_requests := [], g_replies := [], g_map := [], g_rpc := R_found ?p 0 i\<rparr>"
    using s4(6) by (simp add: reader_lookup_def request_of_def Let_def)
  let ?s8 = "reader_found ?p 0 i ?s7"
  have 8: "g_step env ?s7 ?s8" by (intro g_step.found) (simp add: s7)
  have "good_answer ?p i" by (simp add: good_answer_def request_of_def)
  then have e: "errors (found_metrics ?p 0 i (g_metrics s)) = errors (g_metrics s)"
    by (simp add: found_metrics_errors(1))
  have run: "(g_step env)\<^sup>*\<^sup>* s4 ?s8"
    using 5 6 7 8 by (meson rtranclp.rtrancl_into_rtrancl rtranclp.rtrancl_refl)
  have "g_inv cs n ?s8" using run_inv [OF run s4(2)] .
  then have "calm cs n E (Suc k) ?s8"
    using s4 assms(1) e by (simp add: calm_def reader_found_eq s7 found_metrics_rtts)
  with s4(1) run show ?thesis by (meson rtranclp_trans)
qed

lemma calm_rounds:
  assumes "calm cs n E 0 s" "honest env" "k \<le> length cs"
  shows "\<exists>t. (g_step env)\<^sup>*\<^sup>* s t \<and> calm cs n E k t"
  using assms(3)
proof (induction k)
  case 0
  then show ?case using assms(1) by blast
next
  case (Suc k)
  then obtain t where t: "(g_step env)\<^sup>*\<^sup>* s t" "calm cs n E k t" by auto
  from calm_round [OF t(2) _ assms(2)] Suc.prems obtain u where
    "(g_step env)\<^sup>*\<^sup>* t u" "calm cs n E (Suc k) u" by auto
  with t(1) show ?case by (meson rtranclp_trans)
qed

text \<open>The end of a run without entries left over.\<close>

lemma quiet_finish:
  assumes "g_map s = []" "g_verified s = ACTUAL_FILE_SIZE_BYTES"
  shows "reader_finish Status_OK now s =
    s\<lparr>g_metrics := set_total_transaction_time_ms (tdiv (now - g_start s) 1000000) (g_metrics s),
      g_rpc := R_exit\<rparr>"
  using assms by (simp add: reader_finish_def Let_def)

lemma calm_end:
  assumes "calm cs n E (length cs) s" "g_verified s = ACTUAL_FILE_SIZE_BYTES"
  shows "\<exists>t. (g_step env)\<^sup>*\<^sup>* s t \<and> g_rpc t = R_exit \<and> errors (g_metrics t) = E \<and>
           g_verified t = ACTUAL_FILE_SIZE_BYTES \<and>
           length (chunk_rtt_us (g_metrics t)) = length cs"
proof -
  have inv: "g_inv cs n s" using assms(1) by (simp add: calm_def)
  let ?s1 = "s\<lparr>g_wpc := W_read\<rparr>"
  have 1: "g_step env s ?s1"
    using g_step.wait [of s env] assms by (simp add: calm_def writer_wait_def MAX_INFLIGHT_REQUESTS_def)
  have f: "inv_file cs n ?s1" "unat (g_counter ?s1) = length cs"
    using g_step_inv [OF 1 inv] assms(1) by (simp_all add: g_inv_def calm_def)
  obtain r where r: "writer_read env 0 ?s1 = s\<lparr>g_reader := r, g_wpc := W_finish\<rparr>"
    using writer_read_end [OF f, of env 0] by simp
  let ?s2 = "s\<lparr>g_reader := r, g_wpc := W_finish\<rparr>"
  have 2: "g_step env ?s1 ?s2" using g_step.read [of ?s1 env 0] r by simp
  have nb: "\<not> g_broken s" using inv assms(1) by (simp add: g_inv_def inv_flow_def calm_def)
  let ?s3 = "s\<lparr>g_reader := r, g_finished := True, g_wpc := W_done\<rparr>"
  have 3: "g_step env ?s2 ?s3"
    using g_step.finish [of ?s2 env] nb by (simp add: writer_finish_def Let_def)
  let ?s4 = "s\<lparr>g_reader := r, g_finished := True, g_writes_done := True, g_wpc := W_exit\<rparr>"
  have 4: "g_step env ?s3 ?s4" using g_step.writes_done [of ?s3 env] by (simp add: writer_done_def)
  let ?s5 = "?s4\<lparr>g_rpc := R_join\<rparr>"
  have 5: "g_step env ?s4 ?s5"
    using assms(1) by (intro g_step.ended) (simp_all add: calm_def)
  let ?s6 = "reader_finish Status_OK 0 ?s5"
  have 6: "g_step env ?s5 ?s6"
    using assms(1) by (intro g_step.join) (simp_all add: calm_def)
  have "(g_step env)\<^sup>*\<^sup>* s ?s6"
    using 1 2 3 4 5 6 by (meson rtranclp.rtrancl_into_rtrancl rtranclp.rtrancl_refl)
  with assms show ?thesis
    by (intro exI [of _ ?s6]) (simp add: quiet_finish calm_def set_total_transaction_time_ms_def)
qed

lemma launched_calm:
  "launched cs n m s \<Longrightarrow> chunk_rtt_us m = [] \<Longrightarrow> calm cs n (errors m) 0 s"
  by (simp add: launched_def raced_def calm_def)

lemma calm_verified:
  assumes "launched cs n m s" "chunk_rtt_us m = []" "honest env"
  shows "\<exists>t. (g_step env)\<^sup>*\<^sup>* s t \<and> calm cs n (errors m) (length cs) t \<and> g_verified t = sz (concat cs)"
proof -
  obtain t where t: "(g_step env)\<^sup>*\<^sup>* s t" "calm cs n (errors m) (length cs) t"
    using calm_rounds [OF launched_calm [OF assms(1,2)] assms(3), of "length cs"] by blast
  have "g_reach env s t" using run_reach [OF t(1)] g_reach.start by blast
  then have "balanced cs t"
    using honest_reach [of env s t cs n] assms(1,3) by (simp add: launched_def)
  moreover have "\<not> g_broken t" using t(2) by (auto simp: calm_def g_inv_def inv_flow_def)
  ultimately have "g_verified t = sz (concat cs)"
    using t(2) by (simp add: calm_def balanced_def inflight_def unanswered_def written_def
        sum_list_sz_concat)
  with t show ?thesis by blast
qed

lemma calm_run:
  assumes "launched cs n m s" "chunk_rtt_us m = []" "honest env" "sz (concat cs) = ACTUAL_FILE_SIZE_BYTES"
  shows "\<exists>t. (g_step env)\<^sup>*\<^sup>* s t \<and> g_rpc t = R_exit \<and> errors (g_metrics t) = errors m \<and>
           g_verified t = ACTUAL_FILE_SIZE_BYTES \<and> length (chunk_rtt_us (g_metrics t)) = length cs"
proof -
  obtain t where t: "(g_step env)\<^sup>*\<^sup>* s t" "calm cs n (errors m) (length cs) t"
    "g_verified t = sz (concat cs)"
    using calm_verified [OF assms(1-3)] by blast
  then obtain u where "(g_step env)\<^sup>*\<^sup>* t u" "g_rpc u = R_exit" "errors (g_metrics u) = errors m"
    "g_verified u = ACTUAL_FILE_SIZE_BYTES" "length (chunk_rtt_us (g_metrics u)) = length cs"
    using calm_end [OF t(2), of env] assms(4) by auto
  with t(1) show ?thesis by (meson rtranclp_trans)
qed

section \<open>Properties\<close>

text \<open>
  C32: the server's call. What it writes are the responses to the first requests, in order, each with
  the identifier of its request and the data reversed; the status is OK exactly when every request
  has been answered, and otherwise a write has failed at the first request left unanswered.
\<close>

theorem grpc_call_answers_in_order:
  "case process_file_chunks write_ok 0 reqs of (answers, n, st) \<Rightarrow>
     map original_client_chunk_id answers = map client_assigned_chunk_id (take (length answers) reqs) \<and>
     map reversed_chunk_data answers = map (rev \<circ> data_chunk) (take (length answers) reqs) \<and>
     (st = Status_OK \<longleftrightarrow> (\<forall>k < length reqs. write_ok k)) \<and>
     (st = Status_OK \<longleftrightarrow> length answers = length reqs) \<and>
     (\<forall>k < length answers. write_ok k)"
proof -
  obtain answers n st where r: "process_file_chunks write_ok 0 reqs = (answers, n, st)"
    using prod_cases3 by blast
  from process_file_chunks_prefix [OF r]
  have p: "answers = map make_response (take (length answers) reqs)"
    "if st = Status_OK then length answers = length reqs
     else length answers < length reqs \<and> \<not> write_ok (length answers)"
    by (auto split: if_splits)
  from process_file_chunks_writes [OF r] have w: "\<forall>k < length answers. write_ok k" by simp
  have "map original_client_chunk_id answers = map client_assigned_chunk_id (take (length answers) reqs)"
    "map reversed_chunk_data answers = map (rev \<circ> data_chunk) (take (length answers) reqs)"
    by (subst p(1), simp)+
  moreover have "st = Status_OK \<longleftrightarrow> (\<forall>k < length reqs. write_ok k)"
    using p(2) w by (auto split: if_splits)
  moreover have "st = Status_OK \<longleftrightarrow> length answers = length reqs" using p(2) by (auto split: if_splits)
  ultimately show ?thesis using w by (simp add: r)
qed

lemma grpc_call_answers_in_order_witness:
  "case process_file_chunks (\<lambda>k. k < 1) 0
      [\<lparr>data_chunk = [1, 2], client_assigned_chunk_id = 1\<rparr>, \<lparr>data_chunk = [3], client_assigned_chunk_id = 2\<rparr>]
   of (answers, n, st) \<Rightarrow> map original_client_chunk_id answers = [1] \<and> st \<noteq> Status_OK"
  using grpc_call_answers_in_order [where write_ok = "\<lambda>k. k < 1"
      and reqs = "[\<lparr>data_chunk = [1, 2], client_assigned_chunk_id = 1\<rparr>, \<lparr>data_chunk = [3], client_assigned_chunk_id = 2\<rparr>]"]
  by (simp add: make_response_def Let_def)

lemma quiet_run:
  assumes "launched cs n m s0" "g_reach env s0 s" "g_rpc s = R_exit" "errors (g_metrics s) = errors m"
  shows "g_map s = []" "\<not> g_broken s" "g_verified s = sz (concat cs)"
    "g_verified s = ACTUAL_FILE_SIZE_BYTES"
proof -
  have l: "g_inv cs n s0" "balanced cs s0" "g_metrics s0 = m" "g_rpc s0 \<noteq> R_exit"
    using assms(1) by (simp_all add: launched_def raced_def)
  have q: "errors (g_metrics s) = errors (g_metrics s0)" using assms(4) l(3) by simp
  have ok: "exit_ok s" using reach_exit_ok [OF assms(2) l(1,4) assms(3) q] .
  then show "g_map s = []" "\<not> g_broken s" "g_verified s = ACTUAL_FILE_SIZE_BYTES"
    by (simp_all add: exit_ok_def)
  show "g_verified s = sz (concat cs)"
    using exit_books [OF g_reach_inv [OF assms(2) l(1)] reach_balanced [OF assms(2) l(1,2) q] assms(3)] ok
    by (simp add: exit_ok_def unanswered_def)
qed

text \<open>
  Soundness of a run without complaint on a readable file: when \<open>ProcessFile\<close> has returned and no
  error was logged, the verified bytes are all bytes of the file, which has the configured size.
\<close>

theorem grpc_quiet_run_verified_all:
  assumes "readable fs f bs" "fits bs" "0 < unat csz"
    and "process_file_start fs f csz True now m = Inr (Inr s0)"
    and "g_reach env s0 s" "g_rpc s = R_exit" "errors (g_metrics s) = errors m"
  shows "g_map s = [] \<and> \<not> g_broken s \<and> g_verified s = sz bs \<and> sz bs = ACTUAL_FILE_SIZE_BYTES"
  using quiet_run [OF start_launched [OF assms(1-4)] assms(5-7)] assms(3)
  by (simp add: concat_chunks_of)


definition reversing_env :: grpc_env where
  "reversing_env = \<lparr>ge_serve = (\<lambda>q. [make_response q]), ge_byte_size = (\<lambda>q. sz (data_chunk q) + 8)\<rparr>"

lemma reversing_env_honest: "honest reversing_env"
  by (simp add: honest_def reversing_env_def)


text \<open>
  C13: the books of a run with the server of this repository. Whatever the device does, whatever the
  interleaving, even when the stream breaks in between: once \<open>ProcessFile\<close> has returned with all written, every
  byte the reader has delivered is either verified or belongs to a request that is left in the map. On a
  device without read errors these are all bytes of the file.
\<close>

theorem grpc_books_balance:
  assumes "process_file_start fs f csz ok now m = Inr (Inr s0)" "fs_files fs f = Some bs" "fits bs"
    and "honest env" "g_reach env s0 s" "g_rpc s = R_exit" "\<not> g_broken s"
  shows "g_verified s + sum_list (map (\<lambda>e. original_payload_size (snd e)) (g_map s)) =
           sz (concat (delivered (g_reader s0))) \<and>
         (\<exists>rest. bs = concat (delivered (g_reader s0)) @ rest \<and>
            (readable fs f bs \<and> 0 < unat csz \<longrightarrow> rest = []))"
proof -
  let ?cs = "delivered (g_reader s0)" and ?n = "unat csz"
  have l: "g_inv ?cs ?n s0" "balanced ?cs s0" "honest_inv ?cs s0"
    using start_launched_any [OF assms(1-3)] by (simp_all add: launched_def)
  have "balanced ?cs s" using honest_reach [OF assms(5) l assms(4)] by simp
  from exit_books [OF g_reach_inv [OF assms(5) l(1)] this assms(6,7)]
  have "g_verified s + sum_list (map (\<lambda>e. original_payload_size (snd e)) (g_map s)) = sz (concat ?cs)"
    by (simp add: unanswered_def case_prod_beta)
  with start_delivers [OF assms(1-3)] show ?thesis by blast
qed

text \<open>A short file, on which the witnesses below run.\<close>

abbreviation short_file :: bytes where
  "short_file \<equiv> [1, 2, 3]"

lemma short_start:
  obtains s0 where
    "process_file_start (plain_fs ''f'' short_file) ''f'' 2 True 0 (ma_new ''gRPC'' 0 0) = Inr (Inr s0)"
    "launched (chunks_of 2 short_file) 2 (ma_new ''gRPC'' 0 0) s0"
    "delivered (g_reader s0) = [[1, 2], [3]]"
proof -
  have f: "fits short_file" "0 < unat (2 :: u64)" by (simp_all add: fits_def)
  obtain s0 where s0:
    "process_file_start (plain_fs ''f'' short_file) ''f'' 2 True 0 (ma_new ''gRPC'' 0 0) = Inr (Inr s0)"
    "delivered (g_reader s0) = chunks_of (unat (2 :: u64)) short_file"
    using process_file_start_inv [OF plain_fs_simps(1) f, where f = "''f''" and now = 0
        and m = "ma_new ''gRPC'' 0 0"] by blast
  with start_launched [OF plain_fs_simps(1) f s0(1)] that show ?thesis
    by (simp add: chunks_of_step)
qed

lemma short_facts: "fits short_file" "0 < unat (2 :: u64)" "length (chunks_of 2 short_file) = 2"
  "chunks_of 2 short_file = [[1, 2], [3]]"
  by (simp_all add: fits_def chunks_of_step)

lemma short_held: "fs_files (plain_fs ''f'' short_file) ''f'' = Some short_file"
  by simp

lemma grpc_books_balance_witness:
  "\<exists>s0 s. process_file_start (plain_fs ''f'' short_file) ''f'' 2 True 0 (ma_new ''gRPC'' 0 0) =
            Inr (Inr s0) \<and> g_reach reversing_env s0 s \<and> g_rpc s = R_exit \<and>
          g_verified s + sum_list (map (\<lambda>e. original_payload_size (snd e)) (g_map s)) = 3"
proof -
  obtain s0 where s0:
    "process_file_start (plain_fs ''f'' short_file) ''f'' 2 True 0 (ma_new ''gRPC'' 0 0) = Inr (Inr s0)"
    "launched (chunks_of 2 short_file) 2 (ma_new ''gRPC'' 0 0) s0"
    "delivered (g_reader s0) = [[1, 2], [3]]"
    by (rule short_start)
  obtain s where s: "g_reach reversing_env s0 s" "g_rpc s = R_exit" "g_alive s"
    using race_exit [OF s0(2) _ reversing_env_honest] short_facts(3)
    by (auto simp: MAX_INFLIGHT_REQUESTS_def)
  have "g_inv (chunks_of 2 short_file) 2 s"
    using g_reach_inv [OF s(1)] s0(2) by (simp add: launched_def)
  then have "\<not> g_broken s" using s(3) by (simp add: g_inv_def inv_flow_def)
  from grpc_books_balance [OF s0(1) short_held short_facts(1) reversing_env_honest s(1,2) this]
    s0(1,3) s show ?thesis by (auto simp: sz_def)
qed

text \<open>
  C15: the window of requests in flight. In every state of every run, on any device, the map holds
  at most 2000 requests under different identifiers, each entry describes the delivered chunk with its
  identifier, and a request is entered only while there is room for it.
\<close>

theorem grpc_window_respected:
  assumes "process_file_start fs f csz ok now m = Inr (Inr s0)" "fs_files fs f = Some bs" "fits bs"
    and "g_reach env s0 s"
  shows "length (g_map s) \<le> 2000 \<and> distinct (map fst (g_map s)) \<and>
         (\<forall>(k, i) \<in> set (g_map s).
            0 < unat k \<and> unat k \<le> length (delivered (g_reader s0)) \<and> client_assigned_id i = k \<and>
            original_data_for_verification i = delivered (g_reader s0) ! (unat k - 1)) \<and>
         (\<forall>i. g_wpc s = W_insert i \<longrightarrow> length (g_map s) < 2000)"
proof -
  let ?cs = "delivered (g_reader s0)"
  have "g_inv ?cs (unat csz) s"
    using start_launched_any [OF assms(1-3)] g_reach_inv [OF assms(4)] by (simp add: launched_def)
  then have "inv_file ?cs (unat csz) s" "inv_map ?cs s" "inv_window s"
    by (simp_all add: g_inv_def)
  then show ?thesis
    by (fastforce simp: inv_file_def inv_map_def inv_window_def entry_ok_def MAX_INFLIGHT_REQUESTS_def
        split: writer_pc.splits)
qed

lemma grpc_window_respected_witness:
  "\<exists>s0. process_file_start (plain_fs ''f'' short_file) ''f'' 2 True 0 (ma_new ''gRPC'' 0 0) = Inr (Inr s0) \<and>
        length (g_map s0) \<le> 2000"
proof -
  obtain s0 where s0:
    "process_file_start (plain_fs ''f'' short_file) ''f'' 2 True 0 (ma_new ''gRPC'' 0 0) = Inr (Inr s0)"
    by (rule short_start)
  from grpc_window_respected [OF s0 short_held short_facts(1) g_reach.start] s0 show ?thesis
    by blast
qed

text \<open>
  C16: no lost wake-up. While the stream is unbroken the two threads and the server can come to a
  stop only with the result of the call, or with the map full of 2000 requests that nobody is
  going to answer, the writer asleep and the reader waiting for a response. The device is arbitrary.
\<close>

theorem grpc_stops_only_when_full:
  assumes "process_file_start fs f csz ok now m = Inr (Inr s0)" "fs_files fs f = Some bs" "fits bs"
    and "g_reach env s0 s" "g_alive s" "\<forall>t. \<not> g_step env s t"
  shows "g_rpc s = R_exit \<or>
         (length (g_map s) = 2000 \<and> g_requests s = [] \<and> g_replies s = [] \<and>
          g_wpc s = W_sleep \<and> g_rpc s = R_read)"
proof -
  have "g_inv (delivered (g_reader s0)) (unat csz) s"
    using start_launched_any [OF assms(1-3)] g_reach_inv [OF assms(4)] by (simp add: launched_def)
  from stuck_cases [OF this _ assms(5)] assms(6) show ?thesis
    by (auto simp: stuck_def MAX_INFLIGHT_REQUESTS_def)
qed

lemma grpc_stops_only_when_full_witness:
  "\<exists>s0 s. process_file_start (plain_fs ''f'' short_file) ''f'' 2 True 0 (ma_new ''gRPC'' 0 0) =
            Inr (Inr s0) \<and> g_reach reversing_env s0 s \<and> (\<forall>t. \<not> g_step reversing_env s t) \<and>
          (g_rpc s = R_exit \<or> length (g_map s) = 2000)"
proof -
  obtain s0 where s0:
    "process_file_start (plain_fs ''f'' short_file) ''f'' 2 True 0 (ma_new ''gRPC'' 0 0) = Inr (Inr s0)"
    "launched (chunks_of 2 short_file) 2 (ma_new ''gRPC'' 0 0) s0"
    by (rule short_start)
  have "\<And>q. length (ge_serve reversing_env q) \<le> 1" by (simp add: reversing_env_def)
  then obtain s where s: "(g_step reversing_env)\<^sup>*\<^sup>* s0 s" "\<forall>t. \<not> g_step reversing_env s t"
    using run_to_stuck [of "chunks_of 2 short_file" 2 s0 reversing_env] s0(2)
    by (auto simp: launched_def stuck_def)
  have r: "g_reach reversing_env s0 s" using run_reach [OF s(1)] g_reach.start by blast
  have "g_alive s" using run_alive [OF s(1)] s0(2) by (simp add: launched_def raced_def)
  from grpc_stops_only_when_full [OF s0(1) short_held short_facts(1) r this s(2)] s0(1) r s(2)
  show ?thesis by blast
qed



text \<open>
  C24: the window between \<open>Write\<close> and the insertion into the map. Although the server answers
  everything correctly and the stream never breaks, a transfer of less than 2000 chunks has a
  run in which every response arrives before its request is in the map: the call ends with not
  one byte verified and all requests left over.
\<close>

theorem grpc_race_loses_every_answer:
  assumes "process_file_start fs f csz ok now m = Inr (Inr s0)" "fs_files fs f = Some bs" "fits bs"
    and "honest env" "length (delivered (g_reader s0)) < 2000"
  shows "\<exists>s. g_reach env s0 s \<and> g_rpc s = R_exit \<and> g_alive s \<and> g_verified s = 0 \<and>
             length (g_map s) = length (delivered (g_reader s0))"
  using race_exit [OF start_launched_any [OF assms(1-3)] _ assms(4)] assms(5)
  by (simp add: MAX_INFLIGHT_REQUESTS_def)

lemma grpc_race_loses_every_answer_witness:
  "\<exists>s0 s. process_file_start (plain_fs ''f'' short_file) ''f'' 2 True 0 (ma_new ''gRPC'' 0 0) =
            Inr (Inr s0) \<and> g_reach reversing_env s0 s \<and> g_verified s = 0 \<and> length (g_map s) = 2"
proof -
  obtain s0 where s0:
    "process_file_start (plain_fs ''f'' short_file) ''f'' 2 True 0 (ma_new ''gRPC'' 0 0) = Inr (Inr s0)"
    "delivered (g_reader s0) = [[1, 2], [3]]"
    by (rule short_start)
  from grpc_race_loses_every_answer [OF s0(1) short_held short_facts(1) reversing_env_honest] s0
  show ?thesis by auto
qed

text \<open>
  C25: the same window blocks a transfer of 2000 chunks or more for good, the server and the stream
  being faultless: the map is full, the writer asleep, and no step is possible. When the stream is
  then broken, the reader leaves its loop and waits for the sleeping writer, again for ever.
\<close>

theorem grpc_race_blocks_large_file:
  assumes "process_file_start fs f csz ok now m = Inr (Inr s0)" "fs_files fs f = Some bs" "fits bs"
    and "honest env" "2000 \<le> length (delivered (g_reader s0))"
  shows "(\<exists>s. (g_step env)\<^sup>*\<^sup>* s0 s \<and> (\<forall>t. \<not> g_step env s t) \<and> g_rpc s = R_read \<and> g_wpc s = W_sleep) \<and>
         (\<exists>s. g_reach env s0 s \<and> (\<forall>t. \<not> g_step env s t) \<and> g_rpc s = R_join \<and> g_wpc s = W_sleep)"
proof -
  let ?cs = "delivered (g_reader s0)"
  have "raced ?cs (unat csz) 0 s0"
    using start_launched_any [OF assms(1-3)] by (simp add: launched_def)
  from race_rounds [OF this assms(4), of MAX_INFLIGHT_REQUESTS] assms(5)
  obtain s where s: "(g_step env)\<^sup>*\<^sup>* s0 s" "raced ?cs (unat csz) MAX_INFLIGHT_REQUESTS s"
    by (auto simp: MAX_INFLIGHT_REQUESTS_def)
  have reach: "g_reach env s0 s" using run_reach [OF s(1)] g_reach.start by blast
  from race_deadlock [OF s(2) s(1) reach] show ?thesis by (simp add: stuck_def)
qed

lemma grpc_race_blocks_large_file_witness:
  "\<exists>s0 s. process_file_start (plain_fs ''f'' (replicate 4000 7)) ''f'' 2 True 0 (ma_new ''gRPC'' 0 0) =
            Inr (Inr s0) \<and> (g_step reversing_env)\<^sup>*\<^sup>* s0 s \<and> (\<forall>t. \<not> g_step reversing_env s t) \<and>
          g_rpc s = R_read"
proof -
  define bs where "bs = replicate 4000 (7 :: byte)"
  have fit: "fits bs" and n: "length (chunks_of (unat (2 :: u64)) bs) = 2000"
    by (simp_all add: bs_def fits_def length_chunks_of)
  have c: "0 < unat (2 :: u64)" by simp
  obtain s0 where s0: "process_file_start (plain_fs ''f'' bs) ''f'' 2 True 0 (ma_new ''gRPC'' 0 0) = Inr (Inr s0)"
    "delivered (g_reader s0) = chunks_of (unat (2 :: u64)) bs"
    by (rule process_file_start_inv [OF plain_fs_simps(1) fit c, where now = 0 and m = "ma_new ''gRPC'' 0 0"])
  have held: "fs_files (plain_fs ''f'' bs) ''f'' = Some bs" by simp
  have "2000 \<le> length (delivered (g_reader s0))" using s0(2) n by simp
  from grpc_race_blocks_large_file [OF s0(1) held fit reversing_env_honest this] s0(1)
  show ?thesis unfolding bs_def by blast
qed

text \<open>
  C23: the gRPC client from start to end. On a device without failures and with the server of this
  repository there is a run of the program that verifies all ten gigabytes in 163840 chunks
  without logging an error, exits with 0 and leaves both result files.
\<close>

theorem grpc_program_can_verify:
  assumes "healthy fs" "honest env"
  shows "\<exists>s0 fs1 s out fs2. grpc_main_begin rng fs True now = (Threads s0, fs1) \<and>
           (g_step env)\<^sup>*\<^sup>* s0 s \<and> g_rpc s = R_exit \<and> errors (g_metrics s) = [] \<and>
           unat (g_verified s) = 10737418240 \<and> length (chunk_rtt_us (g_metrics s)) = 163840 \<and>
           grpc_main_end (g_metrics s) fs1 = (0, out, fs2) \<and>
           fs_files fs2 ''benchmarkgrpc_summary.csv'' =
             Some (text_bytes (concat (map csv_line (summary_rows (g_metrics s))))) \<and>
           fs_files fs2 ''benchmarkgrpc_detailed_rtt.csv'' =
             Some (text_bytes (concat (map csv_line (detailed_rows (g_metrics s)))))"
proof -
  let ?m = "ma_new ''gRPC'' ACTUAL_FILE_SIZE_BYTES CHUNK_SIZE_BYTES"
  obtain fs1 bs where f: "grpc_ensure_file rng fs test_filename ACTUAL_FILE_SIZE_BYTES = (True, fs1)"
    "readable fs1 test_filename bs" "length bs = 10737418240" and ok: "healthy fs1"
    by (rule healthy_ensured [OF assms(1), of rng test_filename ACTUAL_FILE_SIZE_BYTES])
       (simp add: grpc_ensure_file_ensured)
  have fit: "fits bs" by (simp add: fits_def f(3))
  have size: "sz bs = ACTUAL_FILE_SIZE_BYTES"
    by (simp add: sz_def f(3) ACTUAL_FILE_SIZE_BYTES_def TEST_FILE_SIZE_GB_def)
  obtain s0 where s0: "process_file_start fs1 test_filename CHUNK_SIZE_BYTES True now ?m = Inr (Inr s0)"
    "launched (chunks_of (unat CHUNK_SIZE_BYTES) bs) (unat CHUNK_SIZE_BYTES) ?m s0"
    by (rule start_ok [OF f(2) fit, where csz = CHUNK_SIZE_BYTES and now = now and m = ?m]) simp_all
  obtain s where s: "(g_step env)\<^sup>*\<^sup>* s0 s" "g_rpc s = R_exit" "errors (g_metrics s) = []"
    "g_verified s = ACTUAL_FILE_SIZE_BYTES"
    "length (chunk_rtt_us (g_metrics s)) = length (chunks_of 65536 bs)"
    using calm_run [OF s0(2) _ assms(2)] size by (auto simp: concat_chunks_of ma_new_def)
  have n: "length (chunk_rtt_us (g_metrics s)) = 163840"
    using s(5) by (simp add: length_chunks_of f(3))
  then have ne: "chunk_rtt_us (g_metrics s) \<noteq> []" by auto
  have w: "fs_can_write fs1 g" "\<not> fs_write_fault fs1 g p" for g p using ok by (simp_all add: healthy_def)
  have "''benchmarkgrpc_summary.csv'' \<noteq> ''benchmarkgrpc_detailed_rtt.csv''" by simp
  note files = save_both_files [OF w(1) w(1) w(2) w(2) this ne]
  have "grpc_main_begin rng fs True now = (Threads s0, fs1)"
    by (simp add: grpc_main_begin_def f(1) s0(1) Let_def)
  with s n files show ?thesis by (auto simp: grpc_main_end_def CSV_OUTPUT_FILE_PREFIX_def)
qed

lemma grpc_program_can_verify_witness:
  "\<exists>s0 fs1 s. grpc_main_begin (\<lambda>_. 0) (plain_fs ''x'' []) True 0 = (Threads s0, fs1) \<and>
     (g_step reversing_env)\<^sup>*\<^sup>* s0 s \<and> g_rpc s = R_exit \<and> errors (g_metrics s) = []"
  using grpc_program_can_verify [OF healthy_plain [of "''x''"] reversing_env_honest,
      where rng = "\<lambda>_. 0" and now = 0]
  by blast

text \<open>
  C11: what counts as verified. A step that changes the count of verified bytes, in any run with any
  server and any device, is the verification of one response: it carries the identifier of a chunk the
  reader has delivered, its data is exactly the reverse of that chunk, and the count grows by the size of the chunk.
\<close>

theorem grpc_counts_reversed_chunks:
  assumes "process_file_start fs f csz ok now m = Inr (Inr s0)" "fs_files fs f = Some bs" "fits bs"
    and "g_reach env s0 s" "g_step env s t" "g_verified t \<noteq> g_verified s"
  shows "\<exists>p u i k. g_rpc s = R_found p u i \<and> unat (original_client_chunk_id p) = Suc k \<and>
           k < length (delivered (g_reader s0)) \<and>
           reversed_chunk_data p = rev (delivered (g_reader s0) ! k) \<and>
           g_verified t = g_verified s + sz (delivered (g_reader s0) ! k)"
proof -
  let ?cs = "delivered (g_reader s0)"
  have "launched ?cs (unat csz) m s0" using start_launched_any [OF assms(1-3)] .
  then have "g_inv ?cs (unat csz) s"
    using g_reach_inv [OF assms(4)] by (simp add: launched_def raced_def)
  then have inv: "inv_map ?cs s" "unat (g_counter s) \<le> length ?cs"
    by (simp_all add: g_inv_def inv_file_def)
  from assms(5,6) obtain p u i where f: "g_rpc s = R_found p u i" "t = reader_found p u i s"
    by (cases rule: g_step.cases)
       (auto simp: writer_wait_def writer_read_def writer_write_def writer_insert_def writer_finish_def
          writer_done_def reader_lookup_def reader_finish_def Let_def
          split: prod.splits if_splits option.splits)
  have g: "good_answer p i" using assms(6) f(2) by (auto simp: reader_found_eq split: if_splits)
  have e: "entry_ok ?cs (unat (g_counter s)) i" "original_client_chunk_id p = client_assigned_id i"
    using inv(1) f(1) by (simp_all add: inv_map_def)
  obtain k where k: "unat (client_assigned_id i) = Suc k"
    using e(1) by (cases "unat (client_assigned_id i)") (auto simp: entry_ok_def)
  have "original_data_for_verification i = ?cs ! k" "original_payload_size i = sz (?cs ! k)"
    and "Suc k \<le> unat (g_counter s)"
    using e(1) k by (simp_all add: entry_ok_def)
  with inv(2) f g e(2) k show ?thesis
    by (intro exI [of _ p] exI [of _ u] exI [of _ i] exI [of _ k])
       (simp add: good_answer_def reader_found_eq)
qed

lemma run_changes:
  assumes "(g_step env)\<^sup>*\<^sup>* s t" "g_verified t \<noteq> g_verified s"
  shows "\<exists>u w. (g_step env)\<^sup>*\<^sup>* s u \<and> g_step env u w \<and> g_verified w \<noteq> g_verified u"
  using assms
proof (induction rule: rtranclp_induct)
  case (step u w)
  then show ?case by (cases "g_verified w = g_verified u") auto
qed simp

lemma grpc_counts_reversed_chunks_witness:
  "\<exists>s0 s t (p :: chunk_response) k. process_file_start (plain_fs ''f'' short_file) ''f'' 2 True 0 (ma_new ''gRPC'' 0 0) =
            Inr (Inr s0) \<and> g_reach reversing_env s0 s \<and> g_step reversing_env s t \<and>
          k < 2 \<and> reversed_chunk_data p = rev ([[1, 2], [3]] ! k) \<and> g_verified t \<noteq> g_verified s"
proof -
  obtain s0 where s0:
    "process_file_start (plain_fs ''f'' short_file) ''f'' 2 True 0 (ma_new ''gRPC'' 0 0) = Inr (Inr s0)"
    "launched (chunks_of 2 short_file) 2 (ma_new ''gRPC'' 0 0) s0"
    "delivered (g_reader s0) = [[1, 2], [3]]"
    by (rule short_start)
  have "chunk_rtt_us (ma_new ''gRPC'' 0 0) = []" by (simp add: ma_new_def)
  from calm_verified [OF s0(2) this reversing_env_honest] obtain t where
    t: "(g_step reversing_env)\<^sup>*\<^sup>* s0 t" "g_verified t = sz (concat (chunks_of 2 short_file))" by blast
  have "g_verified t \<noteq> g_verified s0"
    using t(2) s0(2) by (simp add: launched_def raced_def concat_chunks_of sz_def)
  from run_changes [OF t(1) this] obtain u w where u: "(g_step reversing_env)\<^sup>*\<^sup>* s0 u"
    "g_step reversing_env u w" "g_verified w \<noteq> g_verified u" by blast
  have "g_reach reversing_env s0 u" using run_reach [OF u(1) g_reach.start] .
  from grpc_counts_reversed_chunks [OF s0(1) _ short_facts(1)
      \<open>g_reach reversing_env s0 u\<close> u(2,3)]
  obtain p :: chunk_response and k where k: "k < length [[1, 2], [3 :: byte]]" "reversed_chunk_data p = rev ([[1, 2], [3]] ! k)"
    unfolding s0(3) by auto
  from k(1) have "k < 2" by simp
  with s0(1) \<open>g_reach reversing_env s0 u\<close> u(2,3) k(2) show ?thesis by blast
qed

text \<open>
  C22: the states of the gRPC client are well-formed, whatever the server answers, the device does and
  however the threads interleave. The map has one entry for each key, the key is the identifier of the entry, and the entry
  describes the chunk with that number; an entry under verification belongs to the response it was
  found for; the flags the threads share agree with where the threads are.
\<close>

theorem grpc_client_well_formed:
  assumes "process_file_start fs f csz ok now m = Inr (Inr s0)" "fs_files fs f = Some bs" "fits bs"
    and "g_reach env s0 s"
  shows "distinct (map fst (g_map s)) \<and>
         (\<forall>(k, i) \<in> set (g_map s). k = client_assigned_id i \<and> 0 < unat k \<and> unat k \<le> unat (g_counter s) \<and>
            original_data_for_verification i = delivered (g_reader s0) ! (unat k - 1) \<and>
            original_payload_size i = sz (delivered (g_reader s0) ! (unat k - 1))) \<and>
         (\<forall>p t i. g_rpc s = R_found p t i \<longrightarrow>
            original_client_chunk_id p = client_assigned_id i \<and> unat (client_assigned_id i) \<le> unat (g_counter s)) \<and>
         (g_finished s \<longleftrightarrow> g_wpc s \<in> {W_done, W_exit}) \<and>
         (g_writes_done s \<longleftrightarrow> g_wpc s = W_exit \<and> \<not> g_broken s) \<and>
         (g_broken s \<longrightarrow> \<not> g_alive s) \<and> (g_rpc s = R_exit \<longrightarrow> g_wpc s = W_exit)"
proof -
  let ?cs = "delivered (g_reader s0)"
  have "launched ?cs (unat csz) m s0" using start_launched_any [OF assms(1-3)] .
  then have "g_inv ?cs (unat csz) s"
    using g_reach_inv [OF assms(4)] by (simp add: launched_def raced_def)
  then have inv: "inv_map ?cs s" "inv_flow ?cs s" by (simp_all add: g_inv_def)
  then have "\<forall>(k, i) \<in> set (g_map s). k = client_assigned_id i \<and> entry_ok ?cs (unat (g_counter s)) i"
    by (simp add: inv_map_def)
  then have "\<forall>(k, i) \<in> set (g_map s). k = client_assigned_id i \<and> 0 < unat k \<and>
      unat k \<le> unat (g_counter s) \<and> original_data_for_verification i = ?cs ! (unat k - 1) \<and>
      original_payload_size i = sz (?cs ! (unat k - 1))"
    by (auto simp: entry_ok_def)
  moreover have "\<forall>p t i. g_rpc s = R_found p t i \<longrightarrow>
      original_client_chunk_id p = client_assigned_id i \<and> unat (client_assigned_id i) \<le> unat (g_counter s)"
    using inv(1) by (auto simp: inv_map_def entry_ok_def)
  moreover have "distinct (map fst (g_map s))" using inv(1) by (simp add: inv_map_def)
  ultimately show ?thesis using inv(2) by (simp add: inv_flow_def)
qed

lemma grpc_client_well_formed_witness:
  "\<exists>s0 s. process_file_start (plain_fs ''f'' short_file) ''f'' 2 True 0 (ma_new ''gRPC'' 0 0) =
            Inr (Inr s0) \<and> g_reach reversing_env s0 s \<and> length (g_map s) = 2 \<and>
          (\<forall>(k, i) \<in> set (g_map s). original_data_for_verification i = [[1, 2], [3]] ! (unat k - 1))"
proof -
  obtain s0 where s0:
    "process_file_start (plain_fs ''f'' short_file) ''f'' 2 True 0 (ma_new ''gRPC'' 0 0) = Inr (Inr s0)"
    "launched (chunks_of 2 short_file) 2 (ma_new ''gRPC'' 0 0) s0"
    "delivered (g_reader s0) = [[1, 2], [3]]"
    by (rule short_start)
  obtain s where s: "g_reach reversing_env s0 s" "length (g_map s) = 2"
    using race_exit [OF s0(2) _ reversing_env_honest] short_facts(3)
    by (auto simp: MAX_INFLIGHT_REQUESTS_def)
  from grpc_client_well_formed [OF s0(1) _ short_facts(1) s(1)]
  have "\<forall>(k, i) \<in> set (g_map s). original_data_for_verification i = [[1, 2], [3]] ! (unat k - 1)"
    unfolding s0(3) by auto
  with s0(1) s show ?thesis by blast
qed

text \<open>
  A failed call does not show in the exit code. When the test file cannot be opened after it was
  generated, the exception of the reader is the only entry of the error list, no thread is started,
  and the program ends with 0.
\<close>

theorem grpc_unreadable_file_exits_zero:
  assumes "\<not> fs_can_read fs test_filename" "fs_can_write fs test_filename"
    "\<forall>p. \<not> fs_write_fault fs test_filename p"
  shows "\<exists>m fs1 out fs2. grpc_main_begin rng fs ok now = (Call_over m, fs1) \<and>
           errors m = [''gRPC Client (main): Exception caught: '' @
                       ''Could not open file to get_file_size: '' @ test_filename] \<and>
           chunk_rtt_us m = [] \<and> grpc_main_end m fs1 = (0, out, fs2)"
proof -
  obtain b fs1 where g: "generate_test_file rng fs test_filename ACTUAL_FILE_SIZE_BYTES = (b, fs1)"
    by fastforce
  from generate_test_file_outcome [OF g] assms(2,3)
  have g': "b" "fs1 = fs_put test_filename (repeated rng (unat ACTUAL_FILE_SIZE_BYTES)) fs" by auto
  have e: "grpc_ensure_file rng fs test_filename ACTUAL_FILE_SIZE_BYTES = (True, fs1)"
    using g g'(1) assms(1) by (simp add: grpc_ensure_file_ensured ensured_def)
  have "\<not> fs_can_read fs1 test_filename" using g'(2) assms(1) by simp
  then have "get_file_size fs1 test_filename =
      Inl (Runtime_error (''Could not open file to get_file_size: '' @ test_filename))"
    by (simp add: get_file_size_def ifs_open_def ifs_closed_def Let_def split: option.split)
  then show ?thesis
    by (simp add: grpc_main_begin_def e process_file_start_def cr_new_def grpc_catch_def
        grpc_main_end_def log_error_def ma_new_def Let_def)
qed

lemma grpc_unreadable_file_exits_zero_witness:
  "\<exists>m fs1 out fs2.
     grpc_main_begin (\<lambda>_. 0) ((plain_fs ''x'' [])\<lparr>fs_can_read := \<lambda>_. False\<rparr>) True 0 = (Call_over m, fs1) \<and>
     errors m \<noteq> [] \<and> grpc_main_end m fs1 = (0, out, fs2)"
  using grpc_unreadable_file_exits_zero [where fs = "(plain_fs ''x'' [])\<lparr>fs_can_read := \<lambda>_. False\<rparr>"
      and rng = "\<lambda>_. 0" and ok = True and now = 0]
  by (auto simp: plain_fs_def)

end
