(* ===== verification/Grpc_Console.thy ===== *)
theory Grpc_Console
  imports Grpc_Server
begin

text \<open>
  What the gRPC programs print and how the server ends: the progress lines of a call and the
  start of the server (src/grpc_app/grpc_server.cpp), and the hexadecimal dump the client
  prints of a chunk that failed the verification (src/grpc_app/grpc_client.cpp).
\<close>

section \<open>The console of a call, from its loop on\<close>

text \<open>The identifiers are \<open>long long\<close> here; \<open>%\<close> keeps the sign of its left operand.\<close>

definition progress_due :: "nat \<Rightarrow> chunk_request \<Rightarrow> bool" where
  "progress_due count request \<longleftrightarrow>
     (let client_id = sint (client_assigned_chunk_id request)
      in count mod 500 = 0 \<or> count = 1 \<or> client_id - 500 * tdiv client_id 500 = 0)"

definition progress_line :: "chunk_request \<Rightarrow> string" where
  "progress_line request =
     ''[gRPC SERVER PROGRESS] Received client_id: ''
     @ int_to_dec (sint (client_assigned_chunk_id request)) @ '', size: ''
     @ u64_to_dec (sz (data_chunk request)) @ '' bytes.''"

definition failed_line :: "nat \<Rightarrow> string" where
  "failed_line n =
     ''[gRPC SERVER ERROR] Failed to write response to stream for server_id '' @ nat_to_dec n @ ''.''"

definition session_line :: "nat \<Rightarrow> string" where
  "session_line n =
     ''[gRPC SERVER INFO] Client finished streaming or stream broken. Total chunks processed in this session: ''
     @ nat_to_dec n @ ''.''"

fun call_console :: "(nat \<Rightarrow> bool) \<Rightarrow> nat \<Rightarrow> chunk_request list \<Rightarrow> string list" where
  "call_console write_ok count [] = [session_line count]"
| "call_console write_ok count (request # rest) =
     (if progress_due count request then [progress_line request] else [])
     @ (if \<not> write_ok count then [failed_line (count + 1)]
        else call_console write_ok (count + 1) rest)"

lemma tdiv_rem_zero: "a - b * tdiv a b = 0 \<longleftrightarrow> b dvd a" for a b :: int
proof -
  have "a - b * tdiv a b = sgn a * (\<bar>a\<bar> - \<bar>b\<bar> * (\<bar>a\<bar> div \<bar>b\<bar>))"
    by (simp add: tdiv_def algebra_simps abs_if sgn_if)
  also have "\<dots> = sgn a * (\<bar>a\<bar> mod \<bar>b\<bar>)" by (simp add: minus_mult_div_eq_mod)
  finally show ?thesis
    by (cases "a = 0") (simp_all add: sgn_eq_0_iff dvd_eq_mod_eq_0 [symmetric])
qed

text \<open>When a line is due for the \<open>k\<close>-th chunk (from 0) of a client that numbers from 1.\<close>

definition due :: "nat \<Rightarrow> bool" where
  "due k \<longleftrightarrow> k mod 500 = 0 \<or> k = 1 \<or> (k + 1) mod 500 = 0"

lemma progress_due_numbered:
  assumes "client_assigned_chunk_id request = of_nat (k + 1)" "k + 1 < 2 ^ 63"
  shows "progress_due k request \<longleftrightarrow> due k"
proof -
  have "sint (of_nat (k + 1) :: u64) = int (k + 1)"
    using assms(2) by (simp only: signed_of_nat) (simp add: signed_take_bit_int_eq_self)
  then have "progress_due k request \<longleftrightarrow> k mod 500 = 0 \<or> k = 1 \<or> 500 dvd int (k + 1)"
    by (simp only: progress_due_def assms(1) Let_def tdiv_rem_zero)
  moreover have "500 dvd int (k + 1) \<longleftrightarrow> (k + 1) mod 500 = 0" by presburger
  ultimately show ?thesis by (simp add: due_def)
qed

fun numbered :: "nat \<Rightarrow> chunk_request list \<Rightarrow> bool" where
  "numbered n [] = True"
| "numbered n (q # qs) = (client_assigned_chunk_id q = of_nat (n + 1) \<and> numbered (n + 1) qs)"

lemma call_console_ok:
  assumes "numbered n reqs" "n + length reqs < 2 ^ 63" "\<And>k. write_ok k"
  shows "call_console write_ok n reqs =
    map (\<lambda>k. progress_line (reqs ! (k - n))) (filter due [n..<n + length reqs])
    @ [session_line (n + length reqs)]"
  using assms(1,2)
proof (induction reqs arbitrary: n)
  case (Cons q qs)
  have q: "client_assigned_chunk_id q = of_nat (n + 1)" "n + 1 < 2 ^ 63"
    and qs: "numbered (n + 1) qs" "n + 1 + length qs < 2 ^ 63"
    using Cons.prems by simp_all
  note ih = Cons.IH [OF qs]
  have shift: "map (\<lambda>k. progress_line (qs ! (k - (n + 1)))) (filter due [n + 1..<n + length (q # qs)]) =
      map (\<lambda>k. progress_line ((q # qs) ! (k - n))) (filter due [n + 1..<n + length (q # qs)])"
    by (rule map_cong) (auto simp: nth_Cons' diff_diff_left)
  have upt: "[n..<n + length (q # qs)] = n # [n + 1..<n + length (q # qs)]" by (simp add: upt_rec)
  from ih shift show ?case
    unfolding upt using progress_due_numbered [OF q] assms(3) by simp
qed simp

lemma due_count:
  "length (filter due [0..<n]) = (n + 499) div 500 + n div 500 + (if 2 \<le> n then 1 else 0)"
proof (induction n)
  case (Suc n)
  define p q where "p \<longleftrightarrow> n mod 500 = 0" and "q \<longleftrightarrow> (n + 1) mod 500 = 0"
  have up: "(Suc n + 499) div 500 = (n + 499) div 500 + (if p then 1 else 0)"
    using div_Suc [of "n + 499" 500] by (simp add: p_def)
  have down: "Suc n div 500 = n div 500 + (if q then 1 else 0)"
    using div_Suc [of n 500] by (simp add: q_def)
  have two: "(if 2 \<le> Suc n then 1 else 0 :: nat) = (if 2 \<le> n then 1 else 0) + (if n = 1 then 1 else 0)"
    by simp
  have len: "length (filter due [0..<Suc n]) =
      length (filter due [0..<n]) + (if p \<or> q \<or> n = 1 then 1 else 0)"
    by (auto simp: due_def p_def q_def)
  have "\<not> (p \<and> q)" by (auto simp: p_def q_def mod_Suc)
  moreover have "\<not> (p \<and> n = 1)" by (auto simp: p_def)
  moreover have "\<not> (q \<and> n = 1)" unfolding q_def by (cases "n = 1") simp_all
  ultimately show ?case unfolding len Suc up down two by (cases p; cases q; cases "n = 1") simp_all
qed simp

section \<open>Starting the server\<close>

text \<open>What \<open>RunServer\<close> configures; \<open>BuildAndStart\<close> is a parameter, as is whether \<open>Wait\<close> returns.\<close>

record server_builder =
  sb_max_receive :: int
  sb_max_send :: int
  sb_ports :: "string list"
  sb_services :: "string list"

definition grpc_builder :: server_builder where
  "grpc_builder = \<lparr>sb_max_receive = -1, sb_max_send = -1, sb_ports = [grpc_server_address],
                   sb_services = [''FileProcessor'']\<rparr>"

text \<open>The console lines, and whether the function has returned.\<close>

definition run_server :: "(server_builder \<Rightarrow> bool) \<Rightarrow> bool \<Rightarrow> string list \<times> bool" where
  "run_server build_and_start shut_down =
     (if \<not> build_and_start grpc_builder
      then ([''[gRPC SERVER ERROR] Failed to build or start server on '' @ grpc_server_address @ ''.''], True)
      else ([''[gRPC SERVER INFO] Server listening on '' @ grpc_server_address @ ''.'',
             ''[gRPC SERVER INFO] Reflection service hopefully enabled (via static plugin instance).''],
            shut_down))"

definition grpc_server_main :: "(server_builder \<Rightarrow> bool) \<Rightarrow> bool \<Rightarrow> string list \<times> int option" where
  "grpc_server_main build_and_start shut_down =
     (case run_server build_and_start shut_down of
        (out, returned) \<Rightarrow>
          ([''[gRPC SERVER INFO] Server process starting...''] @ out
           @ (if returned then [''[gRPC SERVER INFO] Server process shut down.''] else []),
           if returned then Some 0 else None))"

text \<open>The exit code is 0 also when the server could not be started.\<close>

lemma grpc_server_exits_zero:
  "snd (grpc_server_main build shut_down) =
     (if build grpc_builder \<and> \<not> shut_down then None else Some 0)"
  by (simp add: grpc_server_main_def run_server_def)

section \<open>The dump of a chunk\<close>

definition hex_digit :: "nat \<Rightarrow> char" where
  "hex_digit d = (if d < 10 then char_of (48 + d) else char_of (87 + d))"

text \<open>\<open>std::hex << std::setw(2) << std::setfill('0')\<close> of a byte.\<close>

definition hex_byte :: "byte \<Rightarrow> string" where
  "hex_byte b = [hex_digit (unat b div 16), hex_digit (unat b mod 16)]"

definition hex_bytes :: "bytes \<Rightarrow> string" where
  "hex_bytes bs = concat (map (\<lambda>b. hex_byte b @ '' '') bs)"

definition dump_header :: "string \<Rightarrow> nat \<Rightarrow> nat \<Rightarrow> string" where
  "dump_header title shown all =
     ''[CLIENT DEBUG HEX] '' @ title @ '' (first '' @ nat_to_dec shown @ '' of '' @ nat_to_dec all
     @ '' bytes): ''"

definition print_client_hex_data :: "string \<Rightarrow> bytes \<Rightarrow> nat \<Rightarrow> string" where
  "print_client_hex_data title data count =
     dump_header title (min count (length data)) (length data)
     @ hex_bytes (map (\<lambda>i. data ! i) [0..<min count (length data)]) @ [CHR 0x0A]"

definition mismatch_dump :: "u64 \<Rightarrow> bytes \<Rightarrow> bytes \<Rightarrow> bytes \<Rightarrow> string" where
  "mismatch_dump cid original expected received =
     ''==== ERROR DEBUG CLIENT_ID: '' @ u64_to_dec cid @ '' ===='' @ [CHR 0x0A]
     @ print_client_hex_data ''Original Data'' original 64
     @ print_client_hex_data ''Expected Reversed'' expected 64
     @ print_client_hex_data ''Received Reversed'' received 64
     @ ''===================================='' @ [CHR 0x0A]"

text \<open>Reading a dump back.\<close>

definition hex_value :: "char \<Rightarrow> nat" where
  "hex_value c = (let n = of_char c in if n < 58 then n - 48 else n - 87)"

fun read_hex :: "string \<Rightarrow> bytes" where
  "read_hex (a # b # c # rest) = of_nat (16 * hex_value a + hex_value b) # read_hex rest"
| "read_hex _ = []"

lemma hex_value_digit: "d < 16 \<Longrightarrow> hex_value (hex_digit d) = d"
  by (auto simp: hex_value_def hex_digit_def of_char_of Let_def)

lemma read_hex_byte: "read_hex (hex_byte b @ c # rest) = b # read_hex rest"
proof -
  have n: "unat b < 256" using unsigned_less [of b] by simp
  then have "unat b div 16 < 16" by (simp add: less_mult_imp_div_less)
  then have "16 * hex_value (hex_digit (unat b div 16)) + hex_value (hex_digit (unat b mod 16)) = unat b"
    by (simp add: hex_value_digit)
  then show ?thesis by (simp add: hex_byte_def)
qed

lemma read_hex_bytes: "read_hex (hex_bytes bs @ rest) = bs @ read_hex rest"
  by (induction bs) (simp_all add: hex_bytes_def read_hex_byte)

section \<open>Properties\<close>

text \<open>
  What the server prints about a call. For a client that numbers its chunks from 1, the lines are
  those of the first two chunks, of every chunk whose position or identifier is a multiple of 500, and
  the closing line: two lines for each 500 chunks and two more at most.
\<close>

theorem grpc_server_progress:
  assumes "numbered 0 reqs" "length reqs < 2 ^ 63"
  shows "call_console (\<lambda>_. True) 0 reqs =
           map (\<lambda>k. progress_line (reqs ! k)) (filter due [0..<length reqs]) @ [session_line (length reqs)] \<and>
         length (call_console (\<lambda>_. True) 0 reqs) =
           (length reqs + 499) div 500 + length reqs div 500 + (if 2 \<le> length reqs then 1 else 0) + 1"
  using call_console_ok [of 0 reqs "\<lambda>_. True"] assms due_count [of "length reqs"] by simp

lemma grpc_server_progress_witness:
  "length (call_console (\<lambda>_. True) 0
     [\<lparr>data_chunk = [1], client_assigned_chunk_id = 1\<rparr>, \<lparr>data_chunk = [2], client_assigned_chunk_id = 2\<rparr>]) = 3"
proof -
  have "numbered 0 [\<lparr>data_chunk = [1], client_assigned_chunk_id = 1\<rparr>,
      \<lparr>data_chunk = [2], client_assigned_chunk_id = 2\<rparr>]"
    by (simp add: numbered.simps)
  with grpc_server_progress [OF this] show ?thesis by simp
qed

text \<open>
  The dump of a chunk can be read back. After its header the line holds three characters for each
  byte shown, from which the first bytes of the chunk, \<open>count\<close> of them or all there are, are
  recovered.
\<close>

theorem hex_dump_roundtrip:
  "\<exists>body. print_client_hex_data title data count =
            dump_header title (min count (length data)) (length data) @ body @ [CHR 0x0A] \<and>
          length body = 3 * min count (length data) \<and> read_hex body = take count data"
proof -
  have t: "map (\<lambda>i. data ! i) [0..<min count (length data)] = take count data"
    by (rule nth_equalityI) simp_all
  have "length (hex_bytes bs) = 3 * length bs" for bs
    by (induction bs) (simp_all add: hex_bytes_def hex_byte_def)
  then show ?thesis
    using read_hex_bytes [of "take count data" "[]"]
    by (simp add: print_client_hex_data_def t min.commute)
qed

end
