(* ===== verification/Grpc_Refine.thy ===== *)
theory Grpc_Refine
  imports Grpc_Main Transfer_Spec
begin

text \<open>
  The gRPC client refines the abstract transfer, whatever the server answers and however the
  threads interleave. Chunk \<open>i\<close> travels under the identifier \<open>i + 1\<close>. The numbers written so
  far are split into the settled ones and those in flight: entered into the map, written and
  about to be entered, or found and about to be verified.
\<close>

section \<open>The simulation relation\<close>

fun entering :: "writer_pc \<Rightarrow> u64 set" where
  "entering (W_insert i) = {client_assigned_id i}"
| "entering _ = {}"

fun settling :: "reader_pc \<Rightarrow> u64 set" where
  "settling (R_found p t i) = {client_assigned_id i}"
| "settling _ = {}"

definition flight_ids :: "grpc_client \<Rightarrow> u64 set" where
  "flight_ids s = fst ` set (g_map s) \<union> entering (g_wpc s) \<union> settling (g_rpc s)"

abbreviation in_flight :: "grpc_client \<Rightarrow> nat set" where
  "in_flight s \<equiv> unat ` flight_ids s"

definition found_fresh :: "grpc_client \<Rightarrow> bool" where
  "found_fresh s \<longleftrightarrow> settling (g_rpc s) \<inter> (fst ` set (g_map s) \<union> entering (g_wpc s)) = {}"

lemma entering_no_insert: "\<forall>i. w \<noteq> W_insert i \<Longrightarrow> entering w = {}"
  by (cases w) auto

definition grpc_result :: "string list \<Rightarrow> grpc_client \<Rightarrow> bool option" where
  "grpc_result E s = (if g_rpc s = R_exit then Some (errors (g_metrics s) = E) else None)"

definition grpc_rel :: "bytes list \<Rightarrow> nat \<Rightarrow> string list \<Rightarrow> grpc_client \<Rightarrow> transfer \<Rightarrow> bool" where
  "grpc_rel cs n E s a \<longleftrightarrow>
     g_inv cs n s \<and> found_fresh s \<and>
     Suc ` (tr_good a \<union> tr_bad a) \<union> in_flight s = {1..written s} \<and>
     Suc ` (tr_good a \<union> tr_bad a) \<inter> in_flight s = {} \<and> tr_good a \<inter> tr_bad a = {} \<and>
     (\<exists>es. errors (g_metrics s) = E @ es \<and> (tr_bad a \<noteq> {} \<longrightarrow> es \<noteq> [])) \<and>
     tr_outcome a = grpc_result E s \<and>
     g_verified s = (\<Sum>i \<in> tr_good a. sz (cs ! i))"

definition grpc_moves :: "grpc_env \<Rightarrow> grpc_client \<Rightarrow> grpc_client \<Rightarrow> bool" where
  "grpc_moves env s t \<longleftrightarrow> g_step env s t \<or> t = s\<lparr>g_alive := False\<rparr>"

text \<open>Numbers written, and a number that is settled, among the positive ones.\<close>

lemma flight_new:
  fixes X :: "nat set"
  assumes "X \<union> F = {1..k - 1}" "X \<inter> F = {}" "0 < k"
  shows "X \<union> insert k F = {1..k}" "X \<inter> insert k F = {}" "k \<notin> F"
proof -
  have "k \<notin> X \<union> F" unfolding assms(1) using assms(3) by simp
  then show "X \<inter> insert k F = {}" "k \<notin> F" using assms(2) by auto
  have "{1..k} = insert k {1..k - 1}" using assms(3) by auto
  then show "X \<union> insert k F = {1..k}" unfolding assms(1) [symmetric] by simp
qed

lemma flight_settled:
  assumes "X \<union> F = W" "X \<inter> F = {}" "k \<in> F"
  shows "insert k X \<union> (F - {k}) = W" "insert k X \<inter> (F - {k}) = {}" "k \<notin> X"
  using assms by auto

section \<open>Steps that settle nothing\<close>

lemma grpc_rel_stutter:
  assumes "grpc_rel cs n E s a" "g_inv cs n t"
    and "found_fresh t" "flight_ids t = flight_ids s" "written t = written s"
    and "\<exists>es. errors (g_metrics t) = errors (g_metrics s) @ es"
    and "grpc_result E t = grpc_result E s" "g_verified t = g_verified s"
  shows "grpc_rel cs n E t a"
  using assms by (auto simp: grpc_rel_def)

lemma grpc_same_flight:
  assumes "g_map t = g_map s" "g_rpc t = g_rpc s"
    and "\<forall>i. g_wpc t \<noteq> W_insert i" "\<forall>i. g_wpc s \<noteq> W_insert i"
  shows "flight_ids t = flight_ids s" "found_fresh t = found_fresh s"
  by (simp_all add: flight_ids_def found_fresh_def entering_no_insert [OF assms(3)]
      entering_no_insert [OF assms(4)] assms(1,2))

text \<open>Where both program counters stay out of the critical points.\<close>

lemma grpc_rel_quiet:
  assumes "grpc_rel cs n E s a" "g_inv cs n t"
    and "g_map t = g_map s" "g_verified t = g_verified s" "written t = written s"
    and "\<forall>i. g_wpc t \<noteq> W_insert i" "\<forall>i. g_wpc s \<noteq> W_insert i" "g_rpc t = g_rpc s"
    and "g_metrics t = g_metrics s"
  shows "grpc_rel cs n E t a"
  using assms grpc_same_flight [OF assms(3,8,6,7)]
  by (intro grpc_rel_stutter [OF assms(1,2)]) (simp_all add: grpc_rel_def grpc_result_def)

lemma written_read:
  assumes "g_inv cs n s" "g_wpc s = W_read"
  shows "written (writer_read env now s) = written s"
    and "g_map (writer_read env now s) = g_map s" "g_rpc (writer_read env now s) = g_rpc s"
    and "\<forall>i. g_wpc (writer_read env now s) \<noteq> W_insert i"
    and "g_metrics (writer_read env now s) = g_metrics s"
    and "g_verified (writer_read env now s) = g_verified s"
proof -
  have f: "inv_file cs n s" and nb: "\<not> g_broken s"
    using assms by (auto simp: g_inv_def inv_flow_def)
  have "written (writer_read env now s) = written s \<and> g_map (writer_read env now s) = g_map s \<and>
      g_rpc (writer_read env now s) = g_rpc s \<and> (\<forall>i. g_wpc (writer_read env now s) \<noteq> W_insert i) \<and>
      g_metrics (writer_read env now s) = g_metrics s \<and>
      g_verified (writer_read env now s) = g_verified s"
  proof (cases "unat (g_counter s) = length cs")
    case True
    with writer_read_end [OF f True] assms(2) show ?thesis by (simp add: written_def)
  next
    case False
    then have "unat (g_counter s) < length cs" using f by (simp add: inv_file_def)
    from writer_read_chunk [OF f this] assms(2) nb show ?thesis by (simp add: written_def Let_def)
  qed
  then show "written (writer_read env now s) = written s" "g_map (writer_read env now s) = g_map s"
    "g_rpc (writer_read env now s) = g_rpc s" "\<forall>i. g_wpc (writer_read env now s) \<noteq> W_insert i"
    "g_metrics (writer_read env now s) = g_metrics s"
    "g_verified (writer_read env now s) = g_verified s" by blast+
qed

section \<open>Writing and entering\<close>

lemma grpc_rel_send:
  assumes "grpc_rel cs n E s a" "g_wpc s = W_write i" "g_inv cs n (writer_write i s)"
  shows "grpc_rel cs n E (writer_write i s) a"
proof (cases "g_alive s")
  case False
  with assms show ?thesis
    by (intro grpc_rel_quiet [OF assms(1,3)]) (simp_all add: writer_write_def written_def)
next
  case True
  have inv: "g_inv cs n s" using assms(1) by (simp add: grpc_rel_def)
  have "inv_map cs s" "pending_info s = Some i" and nb: "\<not> g_broken s"
    using inv assms(2) by (auto simp: g_inv_def pending_info_def inv_flow_def)
  note p = inv_map_pending [OF this(1,2)]
  define k where "k = unat (g_counter s)"
  have k: "0 < k" using p(2) by (auto simp: entry_ok_def k_def p(1))
  let ?t = "writer_write i s"
  have t: "?t = s\<lparr>g_requests := g_requests s @ [request_of i], g_wpc := W_insert i\<rparr>"
    using True by (simp add: writer_write_def)
  have w: "written s = k - 1" "written ?t = k"
    using assms(2) nb by (simp_all add: written_def t k_def)
  have fl: "in_flight ?t = insert k (in_flight s)"
    using assms(2) p(1) by (simp add: flight_ids_def t k_def)
  have old: "Suc ` (tr_good a \<union> tr_bad a) \<union> in_flight s = {1..k - 1}"
    "Suc ` (tr_good a \<union> tr_bad a) \<inter> in_flight s = {}"
    using assms(1) w(1) by (simp_all add: grpc_rel_def)
  note new = flight_new [OF this k]
  have "Suc ` (tr_good a \<union> tr_bad a) \<union> in_flight ?t = {1..written ?t}"
    "Suc ` (tr_good a \<union> tr_bad a) \<inter> in_flight ?t = {}"
    unfolding fl w(2) by (fact new(1), fact new(2))
  moreover have "client_assigned_id i \<notin> flight_ids s" using new(3) p(1) by (auto simp: k_def)
  then have "found_fresh ?t"
    using assms(1,2) by (auto simp: grpc_rel_def found_fresh_def flight_ids_def t)
  ultimately show ?thesis
    using assms(1,3) by (simp add: grpc_rel_def grpc_result_def t)
qed

lemma grpc_rel_insert:
  assumes "grpc_rel cs n E s a" "g_wpc s = W_insert i" "g_inv cs n (writer_insert i s)"
  shows "grpc_rel cs n E (writer_insert i s) a"
proof -
  have inv: "g_inv cs n s" using assms(1) by (simp add: grpc_rel_def)
  then have "inv_map cs s" "pending_info s = Some i"
    using assms(2) by (auto simp: g_inv_def pending_info_def)
  from inv_map_pending [OF this] have new: "client_assigned_id i \<notin> fst ` set (g_map s)" by simp
  have t: "writer_insert i s =
      s\<lparr>g_sent := g_sent s + 1, g_map := g_map s @ [(client_assigned_id i, i)], g_wpc := W_wait\<rparr>"
    using new by (simp add: writer_insert_def update_new)
  have "flight_ids (writer_insert i s) = flight_ids s"
    using assms(2) by (auto simp: flight_ids_def t)
  moreover have "found_fresh (writer_insert i s)"
    using assms(1,2) by (auto simp: grpc_rel_def found_fresh_def t)
  ultimately show ?thesis
    using assms(2) by (intro grpc_rel_stutter [OF assms(1,3)]) (auto simp: t written_def grpc_result_def)
qed

section \<open>Looking up and verifying\<close>

lemma grpc_rel_lookup:
  assumes "grpc_rel cs n E s a" "g_rpc s = R_lookup p u" "g_inv cs n (reader_lookup p u s)"
  shows "grpc_rel cs n E (reader_lookup p u s) a"
proof (cases "map_of (g_map s) (original_client_chunk_id p)")
  case None
  then have "flight_ids (reader_lookup p u s) = flight_ids s" "found_fresh (reader_lookup p u s)"
    using assms(2) by (simp_all add: flight_ids_def found_fresh_def reader_lookup_def Let_def)
  with None assms(2) show ?thesis
    by (intro grpc_rel_stutter [OF assms(1,3)])
       (simp_all add: reader_lookup_def written_def grpc_result_def log_error_def Let_def)
next
  case (Some i)
  let ?k = "original_client_chunk_id p" and ?t = "reader_lookup p u s"
  have t: "?t = s\<lparr>g_map := AList.delete ?k (g_map s), g_rpc := R_found p u i\<rparr>"
    using Some by (simp add: reader_lookup_def Let_def)
  have m: "inv_map cs s" using assms(1) by (simp add: grpc_rel_def g_inv_def)
  have mem: "(?k, i) \<in> set (g_map s)" using Some by (rule map_of_SomeD)
  with m have k: "?k = client_assigned_id i" by (auto simp: inv_map_def)
  have keys: "fst ` set (AList.delete ?k (g_map s)) = fst ` set (g_map s) - {?k}"
    by (auto simp: set_delete)
  then have out: "client_assigned_id i \<notin> fst ` set (g_map ?t)" by (simp add: t k)
  have "?k \<in> fst ` set (g_map s)" using mem by (rule image_eqI [rotated]) simp
  with keys have "fst ` set (g_map s) = fst ` set (AList.delete ?k (g_map s)) \<union> {?k}" by blast
  moreover have "g_map ?t = AList.delete ?k (g_map s)" by (simp add: t)
  ultimately have dom: "fst ` set (g_map s) = fst ` set (g_map ?t) \<union> {client_assigned_id i}"
    by (simp only: k)
  have pcs: "entering (g_wpc ?t) = entering (g_wpc s)" "settling (g_rpc s) = {}"
    "settling (g_rpc ?t) = {client_assigned_id i}"
    using assms(2) by (simp_all add: t)
  have "flight_ids ?t = flight_ids s" unfolding flight_ids_def dom pcs by blast
  moreover have "client_assigned_id i \<notin> entering (g_wpc s)"
  proof (cases "g_wpc s")
    case (W_insert j)
    with inv_map_pending(1,3) [OF m, of j] mem k show ?thesis by (force simp: pending_info_def)
  qed simp_all
  with out have "found_fresh ?t" by (simp add: found_fresh_def t)
  ultimately show ?thesis
    using assms(2) by (intro grpc_rel_stutter [OF assms(1,3)])
      (auto simp: t written_def grpc_result_def)
qed

text \<open>The answered chunk is in flight until it is verified, and is a chunk of the file.\<close>

lemma found_flight:
  assumes "found_fresh s" "g_rpc s = R_found p u i"
  shows "unat (client_assigned_id i) \<in> in_flight s"
    and "in_flight (reader_found p u i s) = in_flight s - {unat (client_assigned_id i)}"
proof -
  let ?t = "reader_found p u i s"
  let ?A = "fst ` set (g_map s) \<union> entering (g_wpc s)"
  have "client_assigned_id i \<notin> ?A" using assms by (simp add: found_fresh_def)
  then have "unat (client_assigned_id i) \<notin> unat ` ?A"
    by (force simp: word_unat_eq_iff [symmetric])
  moreover have s: "in_flight s = insert (unat (client_assigned_id i)) (unat ` ?A)"
    using assms(2) by (simp add: flight_ids_def)
  moreover have "entering (g_wpc ?t) = entering (g_wpc s)" by (simp add: reader_found_eq)
  then have "flight_ids ?t = ?A" by (simp add: flight_ids_def reader_found_eq)
  ultimately show "in_flight ?t = in_flight s - {unat (client_assigned_id i)}" by simp
  show "unat (client_assigned_id i) \<in> in_flight s" unfolding s by simp
qed

lemma found_entry:
  assumes "g_inv cs n s" "g_rpc s = R_found p u i"
  obtains k where "unat (client_assigned_id i) = Suc k" "k < length cs"
    "original_payload_size i = sz (cs ! k)"
proof -
  have inv: "inv_map cs s" "unat (g_counter s) \<le> length cs"
    using assms(1) by (simp_all add: g_inv_def inv_file_def)
  then have e: "entry_ok cs (unat (g_counter s)) i" using assms(2) by (simp add: inv_map_def)
  then obtain k where k: "unat (client_assigned_id i) = Suc k"
    by (cases "unat (client_assigned_id i)") (auto simp: entry_ok_def)
  moreover have "k < length cs" "original_payload_size i = sz (cs ! k)"
    using e inv(2) k by (simp_all add: entry_ok_def)
  ultimately show ?thesis using that by blast
qed

lemma found_errors:
  "\<exists>es. errors (found_metrics p u i m) = errors m @ es \<and> (\<not> good_answer p i \<longrightarrow> es \<noteq> [])"
  using found_metrics_errors [of p u i m] by auto

lemma grpc_rel_found:
  assumes "grpc_rel cs n E s a" "g_rpc s = R_found p u i" "g_inv cs n (reader_found p u i s)"
  shows "\<exists>b. transfer_run (length cs) a b \<and> grpc_rel cs n E (reader_found p u i s) b"
proof -
  let ?t = "reader_found p u i s"
  have s: "g_inv cs n s" "found_fresh s" using assms(1) by (simp_all add: grpc_rel_def)
  obtain k where k: "unat (client_assigned_id i) = Suc k" "k < length cs"
    "original_payload_size i = sz (cs ! k)"
    using found_entry [OF s(1) assms(2)] by blast
  note fl = found_flight [OF s(2) assms(2), unfolded k(1)]
  have w: "written ?t = written s" by (auto simp: written_def reader_found_eq)
  obtain g d where a: "a = Transfer g d None"
    using assms(1,2) by (cases a) (simp add: grpc_rel_def grpc_result_def)
  have S: "Suc ` (g \<union> d) \<union> in_flight s = {1..written s}" "Suc ` (g \<union> d) \<inter> in_flight s = {}"
    "g \<inter> d = {}" using assms(1) by (simp_all add: grpc_rel_def a)
  note set = flight_settled [OF S(1,2) fl(1)]
  have new: "k \<notin> g \<union> d" using set(3) by blast
  have "finite (Suc ` (g \<union> d))" by (rule finite_subset [of _ "{1..written s}"]) (use S(1) in auto)
  then have fin: "finite g" by (simp add: finite_image_iff)
  let ?b = "if good_answer p i then Transfer (insert k g) d None else Transfer g (insert k d) None"
  have b: "tr_good ?b \<union> tr_bad ?b = insert k (g \<union> d)" "tr_good ?b \<inter> tr_bad ?b = {}"
    using S(3) new by auto
  have gs: "Suc ` (tr_good ?b \<union> tr_bad ?b) \<union> in_flight ?t = {1..written ?t}"
    "Suc ` (tr_good ?b \<union> tr_bad ?b) \<inter> in_flight ?t = {}"
    unfolding fl(2) w b(1) image_insert by (fact set(1), fact set(2))
  have logged: "\<exists>es. errors (g_metrics ?t) = E @ es \<and> (tr_bad ?b \<noteq> {} \<longrightarrow> es \<noteq> [])"
    using assms(1) found_errors [of p u i "g_metrics s"] by (auto simp: grpc_rel_def a reader_found_eq)
  have "sum f (insert k g) = f k + sum f g" for f :: "nat \<Rightarrow> u64" using fin new by simp
  then have sums: "g_verified ?t = (\<Sum>j \<in> tr_good ?b. sz (cs ! j))"
    using assms(1) by (simp add: reader_found_eq k(3) grpc_rel_def a add.commute)
  have quiet: "found_fresh ?t" "tr_outcome ?b = grpc_result E ?t"
    by (simp_all add: found_fresh_def grpc_result_def reader_found_eq)
  have "transfer_step (length cs) a ?b"
    using k(2) new by (auto simp: a intro: transfer_step.intros)
  moreover have "grpc_rel cs n E ?t ?b"
    unfolding grpc_rel_def by (intro conjI assms(3) quiet gs b(2) logged sums)
  ultimately show ?thesis by blast
qed

section \<open>The end of the call, and the simulation\<close>

text \<open>When the reader exits without an entry in the error list, every chunk has been settled well.\<close>

lemma grpc_rel_finish:
  assumes "grpc_rel cs n E s a" "g_rpc s = R_join" "g_wpc s = W_exit"
    and "st = Status_OK \<longleftrightarrow> g_alive s" "g_inv cs n (reader_finish st now s)"
  shows "\<exists>b. transfer_run (length cs) a b \<and> grpc_rel cs n E (reader_finish st now s) b"
proof -
  let ?t = "reader_finish st now s"
  obtain g d where a: "a = Transfer g d None"
    using assms(1,2) by (cases a) (simp add: grpc_rel_def grpc_result_def)
  obtain es where es: "errors (g_metrics s) = E @ es" "d \<noteq> {} \<longrightarrow> es \<noteq> []"
    using assms(1) by (auto simp: grpc_rel_def a)
  obtain fs where fs: "errors (g_metrics ?t) = errors (g_metrics s) @ fs"
    using finish_errors by blast
  have keep: "g_map ?t = g_map s" "g_wpc ?t = g_wpc s" "g_rpc ?t = R_exit"
    "g_verified ?t = g_verified s" "g_broken ?t = g_broken s" "g_counter ?t = g_counter s"
    by (simp_all add: reader_finish_def Let_def)
  have flight: "flight_ids ?t = flight_ids s" "written ?t = written s" "found_fresh ?t"
    using assms(2) by (simp_all add: flight_ids_def written_def found_fresh_def keep)
  have rel: "grpc_rel cs n E ?t (Transfer g d (Some (errors (g_metrics ?t) = E)))"
    using assms(1,5) flight es fs keep by (auto simp: grpc_rel_def grpc_result_def a)
  have "transfer_step (length cs) a (Transfer g d (Some (errors (g_metrics ?t) = E)))"
  proof (cases "errors (g_metrics ?t) = E")
    case True
    with es fs have d: "d = {}" and "errors (g_metrics ?t) = errors (g_metrics s)" by auto
    moreover have "g_inv cs n s" using assms(1) by (simp add: grpc_rel_def)
    ultimately have "exit_ok ?t" using finish_exit_ok [OF _ assms(3,4)] by blast
    then have out: "flight_ids s = {}" "\<not> g_broken s"
      using assms(2,3) keep by (simp_all add: flight_ids_def exit_ok_def)
    have "unat (g_counter s) = length cs"
      using assms(1,3) out(2) by (simp add: grpc_rel_def g_inv_def inv_flow_def)
    then have "Suc ` g = {1..length cs}"
      using assms(1,3) out d by (simp add: grpc_rel_def written_def a)
    also have "\<dots> = Suc ` {..<length cs}" by (simp add: image_Suc_lessThan)
    finally have "g = {..<length cs}" by (simp add: inj_image_eq_iff)
    with d True show ?thesis by (simp add: a transfer_step.success)
  qed (simp add: a transfer_step.failure)
  with rel show ?thesis by blast
qed

text \<open>The steps that can still be made after the reader has left change no field of the relation.\<close>

lemma grpc_rel_exited:
  assumes "grpc_rel cs n E s a" "g_step env s t" "g_rpc s = R_exit" "g_inv cs n t"
  shows "grpc_rel cs n E t a"
proof -
  have inv: "g_inv cs n s" using assms(1) by (simp add: grpc_rel_def)
  then have w: "g_wpc s = W_exit" using assms(3) by (simp add: g_inv_def inv_flow_def)
  from exit_step [OF assms(2) inv assms(3)] have e: "g_rpc t = R_exit" "g_map t = g_map s"
    "g_broken t = g_broken s" "g_verified t = g_verified s" "g_wpc t = W_exit"
    "g_counter t = g_counter s" .
  have "g_metrics t = g_metrics s"
    using assms(2,3) w by (cases rule: g_step.cases) simp_all
  with e w assms show ?thesis
    by (intro grpc_rel_quiet [OF assms(1,4)]) (simp_all add: written_def)
qed

text \<open>The reader waits for a response, takes one, or sees the end: nothing is settled yet.\<close>

lemma grpc_rel_reading:
  assumes "grpc_rel cs n E s a" "g_inv cs n t" "g_rpc s = R_read" "g_rpc t = R_lookup p u \<or> g_rpc t = R_join"
    and "g_map t = g_map s" "g_wpc t = g_wpc s" "g_broken t = g_broken s" "g_counter t = g_counter s"
    and "g_verified t = g_verified s" "g_metrics t = g_metrics s"
  shows "grpc_rel cs n E t a"
  using assms(3-)
  by (intro grpc_rel_stutter [OF assms(1,2)])
     (auto simp: found_fresh_def flight_ids_def written_def grpc_result_def)

text \<open>The writer's steps outside of \<open>Write\<close> and the map, and the server's.\<close>

lemma grpc_rel_silent:
  assumes "grpc_rel cs n E s a" "g_inv cs n t"
    and "g_wpc s = W_wait \<and> t = writer_wait s \<or> g_wpc s = W_read \<and> t = writer_read env now s \<or>
         g_wpc s = W_finish \<and> t = writer_finish s \<or> g_wpc s = W_done \<and> t = writer_done s \<or>
         t = s\<lparr>g_requests := qs, g_replies := ps\<rparr> \<or> t = s\<lparr>g_alive := False\<rparr>"
  shows "grpc_rel cs n E t a"
  using assms(3)
proof (elim disjE conjE)
  assume t: "t = s\<lparr>g_requests := qs, g_replies := ps\<rparr>"
  show ?thesis
    using assms(1) by (intro grpc_rel_stutter [OF assms(1,2)])
      (simp_all add: t found_fresh_def flight_ids_def written_def grpc_result_def grpc_rel_def)
next
  assume t: "t = s\<lparr>g_alive := False\<rparr>"
  show ?thesis
    using assms(1) by (intro grpc_rel_stutter [OF assms(1,2)])
      (simp_all add: t found_fresh_def flight_ids_def written_def grpc_result_def grpc_rel_def)
next
  assume "g_wpc s = W_read" "t = writer_read env now s"
  moreover have "g_inv cs n s" using assms(1) by (simp add: grpc_rel_def)
  ultimately show ?thesis
    using written_read [of cs n s env now] by (intro grpc_rel_quiet [OF assms(1,2)]) simp_all
qed (use assms(2) in \<open>intro grpc_rel_quiet [OF assms(1)];
  simp add: writer_wait_def writer_finish_def writer_done_def written_def Let_def\<close>)+

lemma grpc_step_simulates:
  assumes "grpc_rel cs n E s a" "g_step env s t"
  shows "\<exists>b. transfer_run (length cs) a b \<and> grpc_rel cs n E t b"
proof -
  have inv: "g_inv cs n s" using assms(1) by (simp add: grpc_rel_def)
  have inv': "g_inv cs n t" using g_step_inv [OF assms(2) inv] .
  have keep: ?thesis if "grpc_rel cs n E t a" using that by blast
  show ?thesis
  proof (cases "g_rpc s = R_exit")
    case True
    with grpc_rel_exited [OF assms] inv' keep show ?thesis by blast
  next
    case False
    from assms(2) show ?thesis
    proof (cases rule: g_step.cases)
      case (send i)
      with grpc_rel_send [OF assms(1)] inv' keep show ?thesis by blast
    next
      case (insert i)
      with grpc_rel_insert [OF assms(1)] inv' keep show ?thesis by blast
    next
      case (receive p ps now)
      with inv' show ?thesis
        by (intro keep grpc_rel_reading [OF assms(1), of _ p now]) simp_all
    next
      case ended
      with inv' show ?thesis by (intro keep grpc_rel_reading [OF assms(1)]) simp_all
    next
      case (lookup p u)
      with grpc_rel_lookup [OF assms(1)] inv' keep show ?thesis by blast
    next
      case (found p u i)
      with grpc_rel_found [OF assms(1)] inv' show ?thesis by blast
    next
      case (join st now)
      with grpc_rel_finish [OF assms(1)] inv' show ?thesis by blast
    qed (use grpc_rel_silent [OF assms(1) inv'] keep in blast)+
  qed
qed

lemma grpc_simulates:
  assumes "grpc_rel cs n E s a" "grpc_moves env s t"
  shows "\<exists>b. transfer_run (length cs) a b \<and> grpc_rel cs n E t b"
proof (cases "g_step env s t")
  case False
  then have t: "t = s\<lparr>g_alive := False\<rparr>" using assms(2) by (simp add: grpc_moves_def)
  have "g_inv cs n t" using g_break_inv assms(1) by (auto simp: t grpc_rel_def)
  from grpc_rel_silent [OF assms(1) this] t have "grpc_rel cs n E t a" by blast
  then show ?thesis by blast
qed (rule grpc_step_simulates [OF assms(1)])

interpretation grpc_client_transfer:
  transfer_refinement "length cs" "grpc_moves env" "grpc_rel cs n E" "grpc_result E" g_verified
    "\<lambda>i. sz (cs ! i)" for cs n E env
proof unfold_locales
  fix s t a
  assume r: "grpc_rel cs n E s a"
  show "\<exists>b. transfer_run (length cs) a b \<and> grpc_rel cs n E t b" if "grpc_moves env s t"
    using grpc_simulates [OF r that] .
  show "tr_outcome a = grpc_result E s" "g_verified s = (\<Sum>i \<in> tr_good a. sz (cs ! i))"
    using r by (simp_all add: grpc_rel_def)
qed

lemma reach_moves: "g_reach env s0 s \<Longrightarrow> (grpc_moves env)\<^sup>*\<^sup>* s0 s"
  by (induction rule: g_reach.induct)
     (auto simp: grpc_moves_def intro: rtranclp.rtrancl_into_rtrancl)

lemma launched_rel: "launched cs n m s \<Longrightarrow> grpc_rel cs n (errors m) s transfer_start"
  by (auto simp: launched_def raced_def grpc_rel_def found_fresh_def flight_ids_def written_def
      grpc_result_def g_inv_def inv_flow_def)

section \<open>Properties\<close>



end
