(* ===== verification/Readers_Agree.thy ===== *)
theory Readers_Agree
  imports Chunk_Reader Tcp_Chunk_Reader
begin

text \<open>
  The two chunk readers side by side (src/common/src/file_utils.cpp, and common/src/chunk_reader.cpp
  of the TCP benchmark). They keep different books: one counts the bytes and raises its end flag
  when a read delivers nothing, the other counts the chunks and raises it as soon as a read
  comes back short. On one and the same device they deliver the same chunks.
\<close>

text \<open>A read that comes back short leaves a stream from which nothing more can be read.\<close>

lemma short_read_not_good:
  "length (fst (ifs_read n s)) < n \<Longrightarrow> \<not> ifs_good (snd (ifs_read n s))"
  by (auto simp: ifs_read_def ifs_good_def Let_def split: option.splits if_splits)

lemma full_read_eofbit:
  "length (fst (ifs_read n s)) = n \<Longrightarrow> 0 < n \<Longrightarrow> \<not> is_eofbit (snd (ifs_read n s))"
  by (auto simp: ifs_read_def ifs_good_def Let_def split: option.splits if_splits)

lemma not_good_delivers_nothing: "\<not> ifs_good (cr_stream r) \<Longrightarrow> fst (next_chunk r) = []"
  by (simp add: next_chunk_def ifs_read_def case_prod_beta)

text \<open>The readers are in step: the same stream, the same chunk size, and neither at its end.\<close>

definition in_step :: "chunk_reader \<Rightarrow> tcp_chunk_reader \<Rightarrow> bool" where
  "in_step r t \<longleftrightarrow> m_file_stream t = cr_stream r \<and> m_chunk_size t = cr_chunk_size r \<and>
     0 < cr_csize r \<and> is_opened (cr_stream r) \<and> \<not> is_eofbit (cr_stream r) \<and>
     \<not> cr_eof_flag r \<and> \<not> m_eof t"

lemma in_step_next:
  assumes "in_step r t" "next_chunk r = (data, r')" "read_next_chunk t = (data', t')"
  shows "data' = data"
    and "data \<noteq> [] \<Longrightarrow> in_step r' t' \<or> fst (next_chunk r') = [] \<and> m_eof t'"
proof -
  let ?n = "unat (cr_chunk_size r)" and ?s = "cr_stream r"
  obtain buf s where rd: "ifs_read ?n ?s = (buf, s)" by fastforce
  have g: "is_gcount s = length buf" "is_opened s = is_opened ?s"
    using ifs_read_gcount [of ?n ?s] ifs_read_frame(3) [of ?n ?s] by (simp_all add: rd)
  show "data' = data"
    using assms g
    by (auto simp: in_step_def next_chunk_def read_next_chunk_def rd Let_def split: if_splits)
  assume "data \<noteq> []"
  then have full: "data = buf" "buf \<noteq> []"
    and r': "cr_stream r' = s" "cr_chunk_size r' = cr_chunk_size r" "\<not> cr_eof_flag r'"
    and t': "m_file_stream t' = s" "m_chunk_size t' = cr_chunk_size r" "m_eof t' \<longleftrightarrow> length buf < ?n"
    using assms g
    by (auto simp: in_step_def next_chunk_def read_next_chunk_def rd Let_def split: if_splits)
  show "in_step r' t' \<or> fst (next_chunk r') = [] \<and> m_eof t'"
  proof (cases "length buf < ?n")
    case True
    with short_read_not_good [of ?n ?s] have "\<not> ifs_good s" by (simp add: rd)
    with not_good_delivers_nothing [of r'] r'(1) t'(3) True show ?thesis by simp
  next
    case False
    with ifs_read_length [of ?n ?s] have "length buf = ?n" by (simp add: rd)
    with full_read_eofbit [of ?n ?s] assms(1) r' t' g(2) show ?thesis
      by (simp add: rd in_step_def cr_csize_def)
  qed
qed

lemma in_step_delivered: "in_step r t \<Longrightarrow> delivered r = tcr_delivered t"
proof (induction "length (cr_left r)" arbitrary: r t rule: less_induct)
  case less
  obtain data r' where r: "next_chunk r = (data, r')" by fastforce
  obtain data' t' where t: "read_next_chunk t = (data', t')" by fastforce
  note nxt = in_step_next [OF less.prems r t]
  show ?case
  proof (cases "data = []")
    case True
    with nxt(1) delivered_step [OF r] tcr_delivered_step [OF t] show ?thesis by simp
  next
    case False
    have "delivered r' = tcr_delivered t'"
    proof (cases "in_step r' t'")
      case True
      with less.hyps [OF next_chunk_consumes [OF r False]] show ?thesis by blast
    next
      case stop: False
      with nxt(2) [OF False] have "fst (next_chunk r') = []" "m_eof t'" by simp_all
      with delivered_step [OF prod.collapse [symmetric], of r'] tcr_delivered_eof show ?thesis by simp
    qed
    with False nxt(1) delivered_step [OF r] tcr_delivered_step [OF t] show ?thesis by simp
  qed
qed

text \<open>Both constructors succeed for the same files, and what they make delivers the same.\<close>

lemma readers_open:
  assumes "0 < unat csz"
  shows "(\<exists>r. cr_new fs f csz = Inr r) \<longleftrightarrow> (\<exists>t. tcr_new fs f csz = Inr t)"
  using assms
  by (auto simp: cr_new_def tcr_new_def get_file_size_def ifs_open_opened Let_def)

lemma readers_deliver:
  assumes "cr_new fs f csz = Inr r" "tcr_new fs f csz = Inr t" "fs_files fs f = Some content"
    and "fits content" "0 < unat csz"
  shows "delivered r = tcr_delivered t"
proof (cases "content = []")
  case True
  then have "cr_left r = []" using cr_new_any(1) [OF assms(1)] assms(3) by simp
  then have "delivered r = []" using delivered_length [of r] by simp
  moreover have "tcr_left t = []"
    using assms(2,3) True
    by (auto simp: tcr_new_def tcr_left_def ifs_open_def ifs_rest_def ifs_fail_def ifs_closed_def Let_def
        split: if_splits)
  then have "tcr_delivered t = []" using tcrs.deliveries_length [of t] by simp
  ultimately show ?thesis by simp
next
  case False
  then have "sz content \<noteq> 0" using sz_eq_0_iff [OF assms(4)] by simp
  then have "in_step r t"
    using assms
    by (auto simp: in_step_def cr_new_def tcr_new_def cr_csize_def get_file_size_def ifs_open_def
        ifs_fail_def ifs_size_def ifs_closed_def Let_def split: if_splits)
  then show ?thesis by (rule in_step_delivered)
qed

end
