(* ===== verification/Spec2Isabelle.thy ===== *)
theory Spec2Isabelle
  imports Tcp_Program Tcp_Network Tcp_Server_Main Tcp_Client_Types Tcp_Refine Capnp_Events Capnp_Refine
    Grpc_Main Grpc_Console Grpc_Refine Readers_Agree
begin

text \<open>
  A verification development for the benchmark programs of this repository. Three pairs of
  programs send a ten-gigabyte file to a server in chunks of 64 KiB, get every chunk back
  with its bytes reversed, verify it and write what they measured to two CSV files: one pair
  over raw TCP (GO++PROJECT/src/cpp_tcp_benchmark, Boost.Asio), one over gRPC and one over
  Cap'n Proto (src/, with a shared library src/common).

  \<^bold>\<open>Theories, from the bottom up.\<close>

  \<^item> \<open>Prelude\<close>: machine types (\<open>size_t\<close> is a 64-bit word), exceptions, \<open>chunks_of\<close> (the chunks
    a file should be cut into), \<open>std::reverse\<close> as its exchange loop.
  \<^item> \<open>Doubles\<close>: binary64 as the rationals it represents and round-to-nearest-even; the four
    operations and \<open>sqrt\<close>. \<open>Text_Format\<close>: integers and fixed-point numbers as text, CSV lines.
    \<open>Rtt_Stats\<close>: the sum, the extrema and the mean of the round-trip times.
  \<^item> \<open>File_Streams\<close>: the file system and the streams of the standard library as the programs
    use them, with devices that can fail at any position; the locale \<open>chunk_stream\<close> of a
    reader on any device, whose \<open>deliveries\<close> are a prefix of what the file has left, and its
    extension \<open>chunk_source\<close>, of a reader that delivers a file in chunks. \<open>Chunk_Reader\<close>
    (src/common/src/file_utils.cpp) and \<open>Tcp_Chunk_Reader\<close> (common/src/chunk_reader.cpp of the TCP
    benchmark) interpret both; \<open>Readers_Agree\<close> shows that they deliver the same on any device.
  \<^item> \<open>File_Gen\<close>: the two generators of the test file. \<open>Common\<close>: src/common/include.
  \<^item> \<open>Metrics\<close> and \<open>Tcp_Metrics\<close>: the two metrics aggregators, their figures, console summaries
    and CSV files, and the reader of \<open>/proc/self/stat\<close>.
  \<^item> \<open>Tcp_Messaging\<close>: framing (header of four bytes, network order) and reversal; the locale
    \<open>framing\<close>. \<open>Tcp_Server\<close>: session and server as machines driven by the completions of the
    asynchronous operations. \<open>Tcp_Client\<close>: the client likewise, with its timers, metrics and
    verification; \<open>Tcp_Client_Types\<close>: the well-formedness of its states. \<open>Tcp_System\<close>: client and
    session joined by two byte queues. \<open>Tcp_Network\<close>: the server with a backlog, its sessions and
    any number of clients, each pair seen as a \<open>Tcp_System\<close> of its own (\<open>view_of\<close>). \<open>Tcp_Main\<close>,
    \<open>Tcp_Program\<close> and \<open>Tcp_Server_Main\<close>: the main programs, with the event loop and the exceptions
    of \<open>remote_endpoint\<close> on both sides.
  \<^item> \<open>Grpc_Server\<close>: the handler of the bidirectional stream. \<open>Grpc_Console\<close>: its progress lines,
    the start of the server, the client's hexadecimal dump. \<open>Grpc_Client\<close>: the writer and the
    reader thread over the shared map as an inductive step relation, one step for each access
    to shared state. \<open>Grpc_Runs\<close>: invariants and measures of its runs. \<open>Grpc_Main\<close>: the main
    program and the properties of the gRPC pair.
  \<^item> \<open>Capnp_Server\<close>: the remote objects and the accept loop; the locale \<open>reversing_service\<close>.
    \<open>Capnp_Client\<close>: the synchronous client from the test file to the exit code.
    \<open>Capnp_Events\<close>: the server with all its connections as a machine over events, and a client on
    one of them as a second instance of \<open>reversing_service\<close>.
  \<^item> \<open>Transfer_Spec\<close>: what a transfer promises, as an abstract machine over the numbers of the
    chunks, and the locale \<open>transfer_refinement\<close> of a client that simulates it. \<open>Tcp_Refine\<close>,
    \<open>Grpc_Refine\<close> and \<open>Capnp_Refine\<close> interpret it on the three clients.

  \<^bold>\<open>How state and operations correspond.\<close> A class is a record with the members' names (with a
  prefix where names of several classes collide), a method is a function to the updated
  record, an exception or error code is a value on the left of a sum or an event. A member function
  that starts an asynchronous operation sets \<open>s_pending\<close> or \<open>tc_pending\<close>; its completion
  handler is the step for the matching event. A step of \<open>g_step\<close> is what one gRPC thread does
  between two points where the other can interfere.

  \<^bold>\<open>What is shown.\<close> For every pair: with the server of the repository and a device without failures
  the whole program gets to its end with every byte verified (always for TCP and Cap'n Proto,
  for both also among any other clients of the same server; in some run for gRPC). Whatever the
  server answers and whatever reads of the file fail, a gRPC or Cap'n Proto transfer without a
  logged error is one in which every byte was verified, and a TCP transfer reported as successful
  one in which every byte the device gave was (\<open>delivered\<close>, \<open>tcr_delivered\<close> and \<open>device_part\<close> are what
  the reader gets from the device at hand). The TCP program's file of round-trip times is the
  record of exactly that. The three clients refine one specification: a chunk is judged
  at most once, as good or bad, the verified bytes are those of the good chunks, and success is
  reported only when all are good. For the TCP and the gRPC client the states are shown to be
  well-formed (buffers, flags, timers and the map agree). For the gRPC client, whose threads can interleave in many
  ways, the books of the bytes, the window of 2000 requests, the absence of lost wake-ups, and the
  consequences of entering a request into the map only after it was written: answers can be
  lost, and a transfer can block for ever. For the readers, generators, framing and files:
  round trips and functional descriptions. Theorems about failures that are not reported
  (a device error taken for the end of the file, exit code 0 after a failed verification, a
  connection reset at the wrong moment that ends the TCP server for everybody) state what the
  code does.

  \<^bold>\<open>Bounds and termination.\<close> Loops are total functions with measures (bytes left, bytes to
  write); \<open>pull\<close> is called with one call more than the file has bytes, which is always
  enough since every chunk has at least one. Runs of the TCP system, of the TCP network and of the
  gRPC client have explicit bounds on their number of steps.

  \<^bold>\<open>Not modelled.\<close> Progress and debug output on the console, apart from the gRPC server's
  progress lines, the dump of a chunk and the summaries; the Go implementation; code for systems
  other than Linux; the dump of the gRPC server, whose body is commented out; the
  libraries (Asio, gRPC, KJ) beyond the contracts named where they are used; spurious
  wake-ups, which the predicate of the wait absorbs; exhaustion of memory; overflow of the
  signed sum of the round-trip times; the sign of a negative zero; keep-alive and deadline
  settings, except that a stream may break at any time.
\<close>

section \<open>Properties across the programs\<close>

text \<open>
  C31: the three transports do the same work, on any device. Both chunk readers open the same
  files and deliver the same chunks, whatever reads fail: those of a prefix of the file, and of the whole
  file when none fails. The three servers answer a chunk with the same bytes, and the answers in reverse order
  are what was delivered, reversed.
\<close>

theorem transports_agree:
  assumes "fs_files fs f = Some content" "length content < 2 ^ 63" "0 < unat csz" "unat csz < 2 ^ 63"
  shows "((\<exists>r. cr_new fs f csz = Inr r) \<longleftrightarrow> (\<exists>t. tcr_new fs f csz = Inr t)) \<and>
         (\<forall>r t. cr_new fs f csz = Inr r \<longrightarrow> tcr_new fs f csz = Inr t \<longrightarrow>
            delivered r = tcr_delivered t \<and>
            (\<exists>p q. content = p @ q \<and> (readable fs f content \<longrightarrow> q = []) \<and>
               delivered r = chunks_of (unat csz) p \<and>
               concat (rev (map process_chunk (delivered r))) = rev p)) \<and>
         (\<forall>d n. reversed_chunk_data (make_response \<lparr>data_chunk = d, client_assigned_chunk_id = n\<rparr>) =
                  process_chunk d \<and>
                reverse_vector_content d = process_chunk d)"
proof -
  have fit: "fits content" using assms(2) by (simp add: fits_def)
  have same: "delivered r = tcr_delivered t \<and>
      (\<exists>p q. content = p @ q \<and> (readable fs f content \<longrightarrow> q = []) \<and> delivered r = chunks_of (unat csz) p \<and>
         concat (rev (map process_chunk (delivered r))) = rev p)"
    if r: "cr_new fs f csz = Inr r" and t: "tcr_new fs f csz = Inr t" for r t
  proof -
    let ?p = "concat (tcr_delivered t)"
    note any = tcr_new_any [OF t assms]
    have chunks: "tcr_delivered t = chunks_of (unat csz) ?p"
      using tcr_delivered_chunks [of t] any(2) assms(3) by simp
    obtain q where q: "content = ?p @ q" using tcr_delivered_prefix [of t] any(1) by auto
    moreover have "?p = content" if "readable fs f content"
      using any(7) [OF that] assms(3) by (simp add: concat_chunks_of)
    ultimately have "readable fs f content \<longrightarrow> q = []" by (metis append_Nil2 same_append_eq)
    moreover have "process_chunk = rev" by (rule ext) simp
    then have "concat (rev (map process_chunk (tcr_delivered t))) = rev ?p" by (simp add: rev_concat rev_map)
    ultimately show ?thesis
      using readers_deliver [OF r t assms(1) fit assms(3)] q chunks by metis
  qed
  then have "\<forall>r t. cr_new fs f csz = Inr r \<longrightarrow> tcr_new fs f csz = Inr t \<longrightarrow>
      delivered r = tcr_delivered t \<and>
      (\<exists>p q. content = p @ q \<and> (readable fs f content \<longrightarrow> q = []) \<and> delivered r = chunks_of (unat csz) p \<and>
         concat (rev (map process_chunk (delivered r))) = rev p)" by blast
  with readers_open [OF assms(3), of fs f] show ?thesis
    by (intro conjI) (assumption, assumption, simp)
qed

lemma transports_agree_witness:
  "\<exists>r t. cr_new (plain_fs ''f'' [1, 2, 3]) ''f'' 2 = Inr r \<and> tcr_new (plain_fs ''f'' [1, 2, 3]) ''f'' 2 = Inr t \<and>
       delivered r = tcr_delivered t \<and> concat (rev (map process_chunk (delivered r))) = [3, 2, 1]"
proof -
  let ?fs = "plain_fs ''f'' [1, 2, 3]"
  have fit: "fits [1, 2, 3 :: byte]" by (simp add: fits_def)
  obtain r where r: "cr_new ?fs ''f'' 2 = Inr r" using cr_new_sound [OF plain_fs_simps(1) fit, of 2] by auto
  have f: "fs_files ?fs ''f'' = Some [1, 2, 3]" "length [1, 2, 3 :: byte] < 2 ^ 63"
    "0 < unat (2 :: u64)" "unat (2 :: u64) < 2 ^ 63" by simp_all
  note agree = transports_agree [OF f]
  obtain t where "tcr_new ?fs ''f'' 2 = Inr t" using agree [THEN conjunct1] r by blast
  with agree r show ?thesis by auto
qed

text \<open>
  A read error looks like the end of the file. Whenever the reader delivers nothing, also because the
  device failed, it raises its end flag; so the gRPC writer and the Cap'n Proto client both take
  their way out for the end of the file, and never the branch they have for an empty chunk before the
  end. What is missing shows only in the comparison of the totals afterwards.
\<close>

theorem read_errors_end_the_file:
  assumes "is_opened (cr_stream r)" "next_chunk r = ([], r')"
  shows "cr_eof r' \<and> capnp_round env h (s\<lparr>k_reader := r\<rparr>) = Inl (None, s\<lparr>k_reader := r'\<rparr>) \<and>
         writer_read genv now (g\<lparr>g_reader := r\<rparr>) = g\<lparr>g_reader := r', g_wpc := W_finish\<rparr>"
  using next_chunk_any(4) [OF assms(2) refl assms(1)] assms(2)
  by (simp add: capnp_round_def writer_read_def)

lemma read_errors_end_the_file_witness:
  "\<exists>r r'. cr_new ((plain_fs ''f'' [1, 2, 3])\<lparr>fs_read_fault := (\<lambda>_ p. if p = 2 then Some 0 else None)\<rparr>) ''f'' 2 =
            Inr r \<and>
          next_chunk (snd (next_chunk r)) = ([], r') \<and> cr_left r' = [3] \<and> cr_eof r'"
proof -
  let ?fs = "(plain_fs ''f'' [1, 2, 3])\<lparr>fs_read_fault := (\<lambda>_ p. if p = 2 then Some 0 else None)\<rparr>"
  define fault :: "nat \<Rightarrow> nat option" where "fault = (\<lambda>p. if p = 2 then Some 0 else None)"
  have fault: "fault 0 = None" "fault 2 = Some 0" by (simp_all add: fault_def)
  define st where "st = ifs_closed\<lparr>is_content := [1, 2, 3], is_fault := fault, is_opened := True\<rparr>"
  define r where "r = \<lparr>cr_filename = ''f'', cr_chunk_size = 2, cr_stream = st, cr_file_size = 3,
    cr_eof_flag = False, cr_total_bytes_read = 0\<rparr>"
  define st' where "st' = st\<lparr>is_pos := 2, is_gcount := 2\<rparr>"
  have r: "cr_new ?fs ''f'' 2 = Inr r"
    by (simp add: cr_new_def get_file_size_def ifs_open_def ifs_fail_def ifs_closed_def ifs_size_def sz_def
        r_def st_def fault_def Let_def)
  have "ifs_read 2 st = ([1, 2], st')"
    by (simp add: ifs_read_def ifs_good_def st'_def st_def ifs_closed_def fault Let_def)
  define q where "q = r\<lparr>cr_stream := st', cr_total_bytes_read := 2\<rparr>"
  define q' where "q' = q\<lparr>cr_stream := st'\<lparr>is_gcount := 0, is_badbit := True\<rparr>, cr_eof_flag := True\<rparr>"
  have r1: "next_chunk r = ([1, 2], q)"
    using \<open>ifs_read 2 st = ([1, 2], st')\<close>
    by (simp add: next_chunk_def q_def r_def) (simp add: st_def st'_def ifs_closed_def)
  have "ifs_read 2 st' = ([], st'\<lparr>is_gcount := 0, is_badbit := True\<rparr>)"
    by (simp add: ifs_read_def ifs_good_def st'_def st_def ifs_closed_def fault Let_def)
  then have "next_chunk q = ([], q')"
    by (simp add: next_chunk_def q'_def q_def r_def) (simp add: st_def st'_def ifs_closed_def)
  then have n: "next_chunk (snd (next_chunk r)) = ([], q')" by (simp add: r1)
  have left: "cr_left q' = [3]"
    by (simp add: cr_left_def ifs_rest_def q'_def q_def st'_def st_def ifs_closed_def)
  have o: "is_opened (cr_stream (snd (next_chunk r)))"
    using next_chunk_any(3) [OF r1] cr_new_any(3) [OF r] by (simp add: r1)
  have "cr_eof q'" by (rule read_errors_end_the_file [OF o n, THEN conjunct1])
  with r n left show ?thesis by blast
qed

end
